(* ===== verification/Prelude.thy ===== *)
theory Prelude
  imports Main "HOL-Library.Word" "HOL-Library.Signed_Division"
begin

text \<open>
  Shared vocabulary of the development: the machine types of the C++ code, the outcomes that stand
  for its undefined behaviour and uncaught exceptions, \<open>memcpy\<close> on byte lists, the units of
  \<open>std::chrono\<close>, decimal rendering as by \<open>std::to_string\<close>, and the simplification rules the
  component proofs rest on.
\<close>

unbundle bit_operations_syntax

named_theorems loop_steps "the definitions that a step of the capture thread unfolds to"
named_theorems read_steps "the definitions that a step of the consumer unfolds to"

subsection \<open>Machine types\<close>

type_synonym byte = "8 word"
type_synonym u32 = "32 word"

text \<open>
  A \<open>size_t\<close> is a natural number; every addition and product of the code goes through these two
  operations, which wrap at \<open>2 ^ 64\<close> as the code's do.
\<close>

definition size_mod :: nat where
  "size_mod = 2 ^ 64"

definition size_add :: "nat \<Rightarrow> nat \<Rightarrow> nat" where
  "size_add a b = (a + b) mod size_mod"

definition size_mul :: "nat \<Rightarrow> nat \<Rightarrow> nat" where
  "size_mul a b = (a * b) mod size_mod"

lemma size_add_id [simp]: "a + b < size_mod \<Longrightarrow> size_add a b = a + b"
  by (simp add: size_add_def)

lemma size_mul_id [simp]: "a * b < size_mod \<Longrightarrow> size_mul a b = a * b"
  by (simp add: size_mul_def)

lemma size_add_less: "size_add a b < size_mod"
  by (simp add: size_add_def size_mod_def)

lemma size_mul_less: "size_mul a b < size_mod"
  by (simp add: size_mul_def size_mod_def)

lemma unat_u32_less: "unat (w :: u32) < 2 ^ 32"
  using unsigned_less [of w] by simp

lemma u32_zero_iff: "(w :: u32) = 0 \<longleftrightarrow> unat w = 0"
  by (simp add: unat_eq_0)

lemma u32_pos_iff: "(w :: u32) \<noteq> 0 \<longleftrightarrow> 0 < unat w"
  by (simp add: unat_gt_0)

subsection \<open>Outcomes\<close>

text \<open>
  What ends an operation without a return value: a \<open>memcpy\<close> outside its object, an integer
  division by zero, a \<open>std::length_error\<close> that no handler catches, \<open>std::terminate\<close> (assigning to
  a joinable \<open>std::thread\<close>), and an access to freed memory.
\<close>

datatype fault = OutOfBounds | DivideByZero | LengthError | SystemError | Terminate | UseAfterFree

type_synonym 'a outcome = "fault + 'a"

definition sum_bind :: "'e + 'a \<Rightarrow> ('a \<Rightarrow> 'e + 'b) \<Rightarrow> 'e + 'b" where
  "sum_bind m f = (case m of Inl e \<Rightarrow> Inl e | Inr x \<Rightarrow> f x)"

lemma sum_bind_simps [simp]:
  "sum_bind (Inl e) f = Inl e"
  "sum_bind (Inr x) f = f x"
  by (simp_all add: sum_bind_def)

lemma sum_bind_eq_Inr: "sum_bind m f = Inr y \<longleftrightarrow> (\<exists>x. m = Inr x \<and> f x = Inr y)"
  by (cases m) simp_all

lemma sum_bind_eq_Inl: "sum_bind m f = Inl e \<longleftrightarrow> m = Inl e \<or> (\<exists>x. m = Inr x \<and> f x = Inl e)"
  by (cases m) simp_all

lemma sum_bind_assoc: "sum_bind (sum_bind m f) g = sum_bind m (\<lambda>x. sum_bind (f x) g)"
  by (cases m) simp_all

subsection \<open>memcpy on byte lists\<close>

text \<open>
  \<open>mem_read m off n\<close> reads \<open>n\<close> bytes at \<open>off\<close>, \<open>mem_write m off d\<close> overwrites as many bytes as
  \<open>d\<close> has; outside the object both are \<^const>\<open>OutOfBounds\<close>.
\<close>

definition mem_read :: "byte list \<Rightarrow> nat \<Rightarrow> nat \<Rightarrow> byte list outcome" where
  "mem_read m off n = (if off + n \<le> length m then Inr (take n (drop off m)) else Inl OutOfBounds)"

definition mem_write :: "byte list \<Rightarrow> nat \<Rightarrow> byte list \<Rightarrow> byte list outcome" where
  "mem_write m off d =
     (if off + length d \<le> length m then Inr (take off m @ d @ drop (off + length d) m)
      else Inl OutOfBounds)"

lemma mem_read_ok [simp]: "off + n \<le> length m \<Longrightarrow> mem_read m off n = Inr (take n (drop off m))"
  by (simp add: mem_read_def)

lemma mem_write_ok [simp]:
  "off + length d \<le> length m \<Longrightarrow>
     mem_write m off d = Inr (take off m @ d @ drop (off + length d) m)"
  by (simp add: mem_write_def)

lemma mem_write_length: "mem_write m off d = Inr m' \<Longrightarrow> length m' = length m"
  by (auto simp: mem_write_def split: if_splits)

text \<open>Element \<open>i\<close> of an object seen as an array of \<open>sb\<close>-byte elements.\<close>

definition chunk :: "nat \<Rightarrow> byte list \<Rightarrow> nat \<Rightarrow> byte list" where
  "chunk sb m i = take sb (drop (i * sb) m)"

lemma chunk_end: "(i :: nat) < cap \<Longrightarrow> i * sb + sb \<le> cap * sb"
  by (metis Suc_leI add.commute mult_Suc mult_le_mono1)

lemma chunk_length [simp]: "i < cap \<Longrightarrow> length m = cap * sb \<Longrightarrow> length (chunk sb m i) = sb"
  using chunk_end [of i cap sb] by (simp add: chunk_def)

lemma chunk_write_same:
  assumes "w < cap" "length m = cap * sb" "length d = sb"
  shows "chunk sb (take (w * sb) m @ d @ drop (w * sb + sb) m) w = d"
  using assms chunk_end [of w cap sb] by (simp add: chunk_def)

lemma take_drop_prefix:
  "b + n \<le> a \<Longrightarrow> a \<le> length m \<Longrightarrow> take n (drop b (take a m @ e)) = take n (drop b m)"
  by (auto simp: drop_take min_def)

lemma chunk_write_other:
  assumes "w < cap" "j < cap" "j \<noteq> w" "length m = cap * sb" "length d = sb"
  shows "chunk sb (take (w * sb) m @ d @ drop (w * sb + sb) m) j = chunk sb m j"
proof (cases "j < w")
  case True
  then have "j * sb + sb \<le> w * sb" by (rule chunk_end)
  moreover have "w * sb \<le> length m" using assms chunk_end [of w cap sb] by simp
  ultimately show ?thesis by (simp only: chunk_def take_drop_prefix)
next
  case False
  with assms have "w < j" by simp
  then have le: "w * sb + sb \<le> j * sb" by (rule chunk_end)
  have len: "w * sb + sb \<le> length m" using assms chunk_end [of w cap sb] by simp
  have "drop (j * sb) (take (w * sb) m @ d @ drop (w * sb + sb) m) = drop (j * sb) m"
    using le len assms \<open>w < j\<close> by simp
  then show ?thesis by (simp add: chunk_def)
qed

subsection \<open>Ring indices\<close>

lemma mod_add_neq:
  fixes r k n cap :: nat
  assumes "k < n" "n < cap + k"
  shows "(r + k) mod cap \<noteq> (r + n) mod cap"
proof
  assume "(r + k) mod cap = (r + n) mod cap"
  then have "cap dvd (r + n) - (r + k)"
    using mod_eq_dvd_iff_nat [of "r + k" "r + n" cap] assms(1) by simp
  then have "cap dvd n - k" by simp
  with assms show False by (auto dest: dvd_imp_le)
qed

lemma mod_Suc_shift: "(Suc r mod cap + k) mod cap = (r + Suc k) mod (cap :: nat)"
  by (simp add: mod_add_left_eq)

subsection \<open>Time\<close>

text \<open>
  A \<open>steady_clock\<close> time point or duration is an \<open>int\<close> in nanoseconds (its 64-bit representation
  covers 292 years, which no value here leaves). \<open>duration_cast\<close> to a coarser unit truncates
  towards zero.
\<close>

type_synonym ns = int

definition ms_to_ns :: "int \<Rightarrow> ns" where
  "ms_to_ns t = t * 1000000"

definition us_to_ns :: "int \<Rightarrow> ns" where
  "us_to_ns t = t * 1000"

definition ns_to_us :: "ns \<Rightarrow> int" where
  "ns_to_us t = t sdiv 1000"

lemma ns_to_us_nonneg: "0 \<le> t \<Longrightarrow> ns_to_us t = t div 1000"
  by (simp add: ns_to_us_def signed_divide_int_def sgn_if)

lemma ns_to_us_neg: "t \<le> 0 \<Longrightarrow> ns_to_us t \<le> 0"
  by (auto simp: ns_to_us_def signed_divide_int_def sgn_if intro: pos_imp_zdiv_nonneg_iff [THEN iffD2])

subsection \<open>Strings\<close>

text \<open>
  \<open>std::to_string\<close> of an unsigned number, and its reading back. A \<open>std::string\<close> is a
  \<^typ>\<open>string\<close>; \<open>c_str\<close> stops at the first NUL.
\<close>

definition digit_char :: "nat \<Rightarrow> char" where
  "digit_char d = char_of (48 + d)"

fun nat_dec :: "nat \<Rightarrow> string" where
  "nat_dec n = (if n < 10 then [digit_char n] else nat_dec (n div 10) @ [digit_char (n mod 10)])"

declare nat_dec.simps [simp del]

definition digit_val :: "char \<Rightarrow> nat" where
  "digit_val c = of_char c - 48"

definition dec_val :: "string \<Rightarrow> nat" where
  "dec_val s = foldl (\<lambda>a c. a * 10 + digit_val c) 0 s"

lemma digit_val_char [simp]: "d < 10 \<Longrightarrow> digit_val (digit_char d) = d"
  by (simp add: digit_val_def digit_char_def of_char_of)

lemma dec_val_snoc [simp]: "dec_val (s @ [c]) = dec_val s * 10 + digit_val c"
  by (simp add: dec_val_def)

lemma dec_val_nat_dec [simp]: "dec_val (nat_dec n) = n"
proof (induction n rule: nat_dec.induct)
  case (1 n)
  show ?case
  proof (cases "n < 10")
    case True
    then show ?thesis by (simp add: nat_dec.simps dec_val_def)
  next
    case False
    with 1 show ?thesis by (subst nat_dec.simps) simp
  qed
qed

lemma nat_dec_nonempty [simp]: "nat_dec n \<noteq> []"
  by (subst nat_dec.simps) simp

lemma nat_dec_digits: "c \<in> set (nat_dec n) \<Longrightarrow> \<exists>d<10. c = digit_char d"
proof (induction n rule: nat_dec.induct)
  case (1 n)
  then show ?case
    by (cases "n < 10") (fastforce simp: nat_dec.simps [of n] intro: exI [of _ "n mod 10"])+
qed

definition c_str :: "string \<Rightarrow> string" where
  "c_str s = takeWhile (\<lambda>c. c \<noteq> CHR 0x00) s"

lemma c_str_simps [simp]: "c_str [] = []" "c_str (c # s) = (if c = CHR 0x00 then [] else c # c_str s)"
  by (simp_all add: c_str_def)

lemma c_str_Nil: "c_str s \<noteq> [] \<Longrightarrow> s \<noteq> []"
  by auto

end
