(* ===== verification/Abi.thy ===== *)
theory Abi
  imports Prelude
begin

text \<open>
  The public interface of \<open>include/webacapture.h\<close>: sample formats, status codes, frame flags, the
  three structures of the ABI, and the entry points that need no handle.
\<close>

subsection \<open>Enumerations and flags\<close>

text \<open>
  A C caller can store any integer in the enumeration, and \<open>weba_capture_create()\<close> checks for it;
  \<open>SampleOther\<close> stands for the values without an enumerator.
\<close>

datatype weba_sample_format =
    WEBA_SAMPLE_F32LE
  | WEBA_SAMPLE_S16LE
  | WEBA_SAMPLE_S32LE
  | SampleOther int

definition WEBA_OK :: int where "WEBA_OK = 0"
definition WEBA_ERR_INVAL :: int where "WEBA_ERR_INVAL = -1"
definition WEBA_ERR_NOMEM :: int where "WEBA_ERR_NOMEM = -2"
definition WEBA_ERR_PULSE :: int where "WEBA_ERR_PULSE = -3"
definition WEBA_ERR_FORMAT :: int where "WEBA_ERR_FORMAT = -4"
definition WEBA_ERR_STATE :: int where "WEBA_ERR_STATE = -5"

lemmas status_defs = WEBA_OK_def WEBA_ERR_INVAL_def WEBA_ERR_NOMEM_def WEBA_ERR_PULSE_def
  WEBA_ERR_FORMAT_def WEBA_ERR_STATE_def

definition WEBA_FRAME_DISCONTINUITY :: u32 where "WEBA_FRAME_DISCONTINUITY = push_bit 0 1"
definition WEBA_FRAME_SILENCE :: u32 where "WEBA_FRAME_SILENCE = push_bit 1 1"
definition WEBA_FRAME_UNDERRUN :: u32 where "WEBA_FRAME_UNDERRUN = push_bit 2 1"
definition WEBA_FRAME_REINIT :: u32 where "WEBA_FRAME_REINIT = push_bit 3 1"

lemmas flag_defs = WEBA_FRAME_DISCONTINUITY_def WEBA_FRAME_SILENCE_def WEBA_FRAME_UNDERRUN_def
  WEBA_FRAME_REINIT_def

text \<open>Whether a flag word carries a flag, as a caller tests it.\<close>

definition has_flag :: "u32 \<Rightarrow> u32 \<Rightarrow> bool" where
  "has_flag flags f \<longleftrightarrow> flags AND f \<noteq> 0"

lemma has_flag_zero [simp]: "\<not> has_flag 0 f"
  by (simp add: has_flag_def)

lemma has_flag_or [simp]: "has_flag (a OR b) f \<longleftrightarrow> has_flag a f \<or> has_flag b f"
  by (simp add: has_flag_def bit.conj_disj_distrib2 or_eq_0_iff)

lemma has_flag_flags [simp]:
  "has_flag WEBA_FRAME_DISCONTINUITY WEBA_FRAME_DISCONTINUITY"
  "\<not> has_flag WEBA_FRAME_DISCONTINUITY WEBA_FRAME_SILENCE"
  "\<not> has_flag WEBA_FRAME_DISCONTINUITY WEBA_FRAME_UNDERRUN"
  "\<not> has_flag WEBA_FRAME_DISCONTINUITY WEBA_FRAME_REINIT"
  "\<not> has_flag WEBA_FRAME_SILENCE WEBA_FRAME_DISCONTINUITY"
  "has_flag WEBA_FRAME_SILENCE WEBA_FRAME_SILENCE"
  "\<not> has_flag WEBA_FRAME_SILENCE WEBA_FRAME_UNDERRUN"
  "\<not> has_flag WEBA_FRAME_SILENCE WEBA_FRAME_REINIT"
  "\<not> has_flag WEBA_FRAME_UNDERRUN WEBA_FRAME_DISCONTINUITY"
  "\<not> has_flag WEBA_FRAME_UNDERRUN WEBA_FRAME_SILENCE"
  "has_flag WEBA_FRAME_UNDERRUN WEBA_FRAME_UNDERRUN"
  "\<not> has_flag WEBA_FRAME_UNDERRUN WEBA_FRAME_REINIT"
  "\<not> has_flag WEBA_FRAME_REINIT WEBA_FRAME_DISCONTINUITY"
  "\<not> has_flag WEBA_FRAME_REINIT WEBA_FRAME_SILENCE"
  "\<not> has_flag WEBA_FRAME_REINIT WEBA_FRAME_UNDERRUN"
  "has_flag WEBA_FRAME_REINIT WEBA_FRAME_REINIT"
  by (simp_all add: has_flag_def flag_defs)

subsection \<open>Structures\<close>

record weba_config =
  cfg_sample_rate :: u32
  cfg_channels :: u32
  cfg_format :: weba_sample_format
  cfg_frame_samples :: u32
  cfg_sink :: "string option"
  cfg_ring_frames :: u32
  cfg_fixed_rate :: int
  cfg_sink_recheck_ms :: u32

text \<open>The character arrays of \<open>weba_format_info\<close> are kept as the string before their NUL.\<close>

record weba_format_info =
  fi_sample_rate :: u32
  fi_channels :: u32
  fi_frame_samples :: u32
  fi_format :: weba_sample_format
  fi_sink_name :: string
  fi_monitor_name :: string

record weba_frame_info =
  timestamp_ns :: "64 word"
  fr_flags :: u32
  dropped_frames :: u32

subsection \<open>Defaults, version and error texts\<close>

definition kDefaultSampleRate :: u32 where "kDefaultSampleRate = 48000"
definition kDefaultChannels :: u32 where "kDefaultChannels = 2"
definition kDefaultFrameSamples :: u32 where "kDefaultFrameSamples = 960"
definition kDefaultQueueFrames :: u32 where "kDefaultQueueFrames = 100"
definition kDefaultSinkRecheckMs :: u32 where "kDefaultSinkRecheckMs = 1000"

lemmas default_defs = kDefaultSampleRate_def kDefaultChannels_def kDefaultFrameSamples_def
  kDefaultQueueFrames_def kDefaultSinkRecheckMs_def

text \<open>A null \<open>cfg\<close> is left alone; otherwise every field is overwritten.\<close>

definition weba_config_defaults :: "weba_config option \<Rightarrow> weba_config option" where
  "weba_config_defaults cfg = map_option (\<lambda>_.
     \<lparr>cfg_sample_rate = kDefaultSampleRate, cfg_channels = kDefaultChannels,
      cfg_format = WEBA_SAMPLE_F32LE, cfg_frame_samples = kDefaultFrameSamples,
      cfg_sink = None, cfg_ring_frames = kDefaultQueueFrames, cfg_fixed_rate = 1,
      cfg_sink_recheck_ms = kDefaultSinkRecheckMs\<rparr>) cfg"

definition WEBA_VERSION_MAJOR :: nat where "WEBA_VERSION_MAJOR = 1"
definition WEBA_VERSION_MINOR :: nat where "WEBA_VERSION_MINOR = 0"
definition WEBA_VERSION_PATCH :: nat where "WEBA_VERSION_PATCH = 0"

definition weba_version_string :: string where
  "weba_version_string = ''1.0.0''"

definition weba_strerror :: "int \<Rightarrow> string" where
  "weba_strerror status =
     (if status = WEBA_OK then ''success''
      else if status = WEBA_ERR_INVAL then ''invalid argument''
      else if status = WEBA_ERR_NOMEM then ''out of memory''
      else if status = WEBA_ERR_PULSE then ''audio server error''
      else if status = WEBA_ERR_FORMAT then ''unsupported audio format''
      else if status = WEBA_ERR_STATE then ''invalid state for this operation''
      else ''unknown error'')"

definition weba_statuses :: "int list" where
  "weba_statuses =
     [WEBA_OK, WEBA_ERR_INVAL, WEBA_ERR_NOMEM, WEBA_ERR_PULSE, WEBA_ERR_FORMAT, WEBA_ERR_STATE]"

lemma strerror_statuses: "distinct (map weba_strerror weba_statuses)"
  by (simp add: weba_statuses_def weba_strerror_def status_defs)

lemma strerror_known: "weba_strerror s \<noteq> ''unknown error'' \<longleftrightarrow> s \<in> set weba_statuses"
  by (auto simp: weba_statuses_def weba_strerror_def)

lemma version_string_parts:
  "weba_version_string = nat_dec WEBA_VERSION_MAJOR @ ''.'' @ nat_dec WEBA_VERSION_MINOR @ ''.'' @
     nat_dec WEBA_VERSION_PATCH"
  by code_simp

end
