(* ===== verification/Wav_File.thy ===== *)
theory Wav_File
  imports Abi
begin

text \<open>
  The file that the recorder of \<open>examples/webacap-dump.c\<close> writes: the operations of \<open>stdio\<close> it uses
  on a file opened with \<open>"wb"\<close>, the little-endian fields, the header with its placeholder sizes and
  the patching of the sizes at the end. A reader of the format, written from its layout, gives the
  round trip.
\<close>

subsection \<open>The output stream\<close>

text \<open>
  The contents and the position. Writing overwrites, and extends the file at its end, filling a hole
  with zeros; a write is taken to succeed, as the program never looks at the results.
\<close>

record wav_file =
  wv_bytes :: "byte list"
  wv_pos :: nat

definition fopen_wb :: wav_file where
  "fopen_wb = \<lparr>wv_bytes = [], wv_pos = 0\<rparr>"

definition fwrite :: "byte list \<Rightarrow> wav_file \<Rightarrow> wav_file" where
  "fwrite d f =
     (let old = wv_bytes f @ replicate (wv_pos f - length (wv_bytes f)) 0 in
      \<lparr>wv_bytes = take (wv_pos f) old @ d @ drop (wv_pos f + length d) old,
       wv_pos = wv_pos f + length d\<rparr>)"

text \<open>\<open>fputc\<close> writes its argument as an \<open>unsigned char\<close>.\<close>

definition fputc :: "u32 \<Rightarrow> wav_file \<Rightarrow> wav_file" where
  "fputc c = fwrite [ucast c]"

definition ftell :: "wav_file \<Rightarrow> int" where
  "ftell f = int (wv_pos f)"

definition fseek :: "int \<Rightarrow> wav_file \<Rightarrow> wav_file" where
  "fseek off f = f\<lparr>wv_pos := nat off\<rparr>"

definition ascii :: "string \<Rightarrow> byte list" where
  "ascii s = map of_char s"

lemma length_ascii [simp]: "length (ascii s) = length s"
  by (simp add: ascii_def)

subsection \<open>The program's writers\<close>

definition put_u32le :: "u32 \<Rightarrow> wav_file \<Rightarrow> wav_file" where
  "put_u32le value f =
     (let f = fputc (value AND 0xff) f;
          f = fputc (drop_bit 8 value AND 0xff) f;
          f = fputc (drop_bit 16 value AND 0xff) f
      in fputc (drop_bit 24 value AND 0xff) f)"

definition put_u16le :: "16 word \<Rightarrow> wav_file \<Rightarrow> wav_file" where
  "put_u16le value f =
     (let f = fputc (ucast value AND 0xff) f
      in fputc (drop_bit 8 (ucast value) AND 0xff) f)"

definition sample_bytes :: "weba_sample_format \<Rightarrow> nat" where
  "sample_bytes format = (if format = WEBA_SAMPLE_S16LE then 2 else 4)"

definition wav_format_code :: "weba_sample_format \<Rightarrow> 16 word" where
  "wav_format_code format = (if format = WEBA_SAMPLE_F32LE then 3 else 1)"

text \<open>The products are those of \<open>uint32_t\<close> and, for the block size, of \<open>size_t\<close> cut to 16 bits.\<close>

definition write_header :: "weba_format_info \<Rightarrow> wav_file \<Rightarrow> wav_file" where
  "write_header info out =
     (let channels = (ucast (fi_channels info) :: 16 word);
          bits = (word_of_nat (size_mul (sample_bytes (fi_format info)) 8) :: 16 word);
          out = fwrite (ascii ''RIFF'') out;
          out = put_u32le 0 out;
          out = fwrite (ascii ''WAVEfmt '') out;
          out = put_u32le 16 out;
          out = put_u16le (wav_format_code (fi_format info)) out;
          out = put_u16le channels out;
          out = put_u32le (fi_sample_rate info) out;
          out = put_u32le (fi_sample_rate info * ucast channels *
                  word_of_nat (sample_bytes (fi_format info))) out;
          out = put_u16le (word_of_nat (size_mul (unat channels) (sample_bytes (fi_format info)))) out;
          out = put_u16le bits out;
          out = fwrite (ascii ''data'') out
      in put_u32le 0 out)"

text \<open>The end of \<open>main()\<close>: the two sizes replace the placeholders.\<close>

definition patch_sizes :: "int \<Rightarrow> wav_file \<Rightarrow> wav_file" where
  "patch_sizes data_offset out =
     (let data_end = ftell out;
          data_bytes = (word_of_int (data_end - data_offset) :: u32);
          out = fseek 4 out;
          out = put_u32le (36 + data_bytes) out;
          out = fseek (data_offset - 4) out
      in put_u32le data_bytes out)"

subsection \<open>Writing at the end, and over what is there\<close>

lemma fwrite_end:
  "wv_pos f = length (wv_bytes f) \<Longrightarrow>
     fwrite d f = \<lparr>wv_bytes = wv_bytes f @ d, wv_pos = length (wv_bytes f @ d)\<rparr>"
  by (simp add: fwrite_def Let_def)

lemma fwrite_fwrite:
  "wv_pos f \<le> length (wv_bytes f) \<Longrightarrow> fwrite b (fwrite a f) = fwrite (a @ b) f"
  by (simp add: fwrite_def Let_def ac_simps)

lemma fwrite_over:
  "length a = k \<Longrightarrow> length b = length d \<Longrightarrow>
     fwrite d \<lparr>wv_bytes = a @ b @ c, wv_pos = k\<rparr> = \<lparr>wv_bytes = a @ d @ c, wv_pos = k + length d\<rparr>"
  by (auto simp: fwrite_def Let_def)

definition le16 :: "16 word \<Rightarrow> byte list" where
  "le16 v = [ucast v, ucast (drop_bit 8 v)]"

definition le32 :: "u32 \<Rightarrow> byte list" where
  "le32 v = [ucast v, ucast (drop_bit 8 v), ucast (drop_bit 16 v), ucast (drop_bit 24 v)]"

lemma length_le [simp]: "length (le16 v) = 2" "length (le32 w) = 4"
  by (simp_all add: le16_def le32_def)

lemma ucast_low_byte: "(ucast (w AND 0xff :: u32) :: byte) = ucast w"
proof -
  have "w AND 0xff = take_bit 8 w" by (simp add: take_bit_eq_mask mask_eq_exp_minus_1)
  then show ?thesis by (simp only:) (rule bit_word_eqI, auto simp: bit_simps)
qed

lemma put_u32le_fwrite:
  assumes "wv_pos f \<le> length (wv_bytes f)"
  shows "put_u32le v f = fwrite (le32 v) f"
  using assms
  by (simp add: put_u32le_def fputc_def ucast_low_byte fwrite_fwrite le32_def Let_def)

lemma ucast_high_byte: "(ucast (drop_bit 8 (ucast (v :: 16 word) :: u32)) :: byte) = ucast (drop_bit 8 v)"
  by (rule bit_word_eqI) (auto simp: bit_simps)

lemma put_u16le_fwrite:
  assumes "wv_pos f \<le> length (wv_bytes f)"
  shows "put_u16le v f = fwrite (le16 v) f"
proof -
  have "(ucast (ucast v :: u32) :: byte) = ucast v" by (rule bit_word_eqI) (auto simp: bit_simps)
  with assms show ?thesis
    by (simp add: put_u16le_def fputc_def ucast_low_byte ucast_high_byte fwrite_fwrite le16_def Let_def)
qed

subsection \<open>The bytes of the file\<close>

definition wav_fields :: "weba_format_info \<Rightarrow> byte list" where
  "wav_fields info =
     (let ch = (ucast (fi_channels info) :: 16 word); sb = sample_bytes (fi_format info) in
      ascii ''WAVEfmt '' @ le32 16 @ le16 (wav_format_code (fi_format info)) @ le16 ch @
      le32 (fi_sample_rate info) @ le32 (fi_sample_rate info * ucast ch * word_of_nat sb) @
      le16 (word_of_nat (unat ch * sb)) @ le16 (word_of_nat (sb * 8)) @ ascii ''data'')"

lemma length_wav_fields [simp]: "length (wav_fields info) = 32"
  by (simp add: wav_fields_def Let_def)

definition wav_bytes :: "weba_format_info \<Rightarrow> u32 \<Rightarrow> u32 \<Rightarrow> byte list \<Rightarrow> byte list" where
  "wav_bytes info riff n d = ascii ''RIFF'' @ le32 riff @ wav_fields info @ le32 n @ d"

definition wav_at :: "byte list \<Rightarrow> wav_file" where
  "wav_at bs = \<lparr>wv_bytes = bs, wv_pos = length bs\<rparr>"

lemma write_header_bytes: "write_header info fopen_wb = wav_at (wav_bytes info 0 0 [])"
proof -
  let ?ch = "ucast (fi_channels info) :: 16 word"
  have small: "size_mul (unat ?ch) sb = unat ?ch * sb" "size_mul sb 8 = sb * 8" if "sb \<le> 4" for sb
  proof -
    have "unat ?ch < 2 ^ 16" using unsigned_less [of ?ch] by simp
    then have "unat ?ch * sb \<le> 2 ^ 16 * 4" using that by (intro mult_le_mono) simp_all
    then show "size_mul (unat ?ch) sb = unat ?ch * sb" "size_mul sb 8 = sb * 8"
      using that by (simp_all add: size_mod_def)
  qed
  have sb: "sample_bytes (fi_format info) \<le> 4" by (simp add: sample_bytes_def)
  have start: "fopen_wb = wav_at []" by (simp add: fopen_wb_def wav_at_def)
  have w: "fwrite d (wav_at bs) = wav_at (bs @ d)" for d bs
    by (simp add: wav_at_def fwrite_end)
  have p: "put_u32le v (wav_at bs) = wav_at (bs @ le32 v)" "put_u16le u (wav_at bs) = wav_at (bs @ le16 u)"
    for v u bs
    using w [of _ bs] by (simp_all add: wav_at_def put_u32le_fwrite put_u16le_fwrite)
  show ?thesis
    by (simp only: write_header_def start small [OF sb] w p Let_def)
      (simp add: wav_bytes_def wav_fields_def Let_def)
qed

lemma fwrite_wav_at: "fwrite d (wav_at bs) = wav_at (bs @ d)"
  by (simp add: wav_at_def fwrite_end)

lemma wav_bytes_append: "wav_bytes info r n d @ e = wav_bytes info r n (d @ e)"
  by (simp add: wav_bytes_def)

lemma length_wav_bytes [simp]: "length (wav_bytes info r n d) = 44 + length d"
  by (simp add: wav_bytes_def)

lemma fwrite_all:
  "fold fwrite ds (wav_at (wav_bytes info r n d)) = wav_at (wav_bytes info r n (d @ concat ds))"
  by (induction ds arbitrary: d) (simp_all add: fwrite_wav_at wav_bytes_append)

lemma patch_sizes_bytes:
  "wv_bytes (patch_sizes 44 (wav_at (wav_bytes info r n d))) =
     wav_bytes info (36 + word_of_nat (length d)) (word_of_nat (length d)) d"
proof -
  have tell: "ftell (wav_at (wav_bytes info r n d)) = 44 + int (length d)"
    by (simp add: ftell_def wav_at_def)
  have 1: "put_u32le v (fseek 4 (wav_at (wav_bytes info r n d))) =
      \<lparr>wv_bytes = wav_bytes info v n d, wv_pos = 8\<rparr>" for v
    using fwrite_over [of "ascii ''RIFF''" 4 "le32 r" "le32 v" "wav_fields info @ le32 n @ d"]
    by (simp add: put_u32le_fwrite fseek_def wav_at_def) (simp add: wav_bytes_def)
  have 2: "put_u32le w (fseek 40 \<lparr>wv_bytes = wav_bytes info v n d, wv_pos = 8\<rparr>) =
      \<lparr>wv_bytes = wav_bytes info v w d, wv_pos = 44\<rparr>" for v w
    using fwrite_over [of "ascii ''RIFF'' @ le32 v @ wav_fields info" 40 "le32 n" "le32 w" d]
    by (simp add: put_u32le_fwrite fseek_def) (simp add: wav_bytes_def)
  show ?thesis by (simp add: patch_sizes_def tell 1 2 Let_def)
qed

subsection \<open>Reading the file back\<close>

text \<open>A reader of the format: the fields at their offsets, and as many data bytes as the size says.\<close>

record wav =
  wav_riff :: u32
  wav_code :: "16 word"
  wav_channels :: "16 word"
  wav_rate :: u32
  wav_byte_rate :: u32
  wav_block :: "16 word"
  wav_bits :: "16 word"
  wav_data :: "byte list"

definition get_u16le :: "nat \<Rightarrow> byte list \<Rightarrow> 16 word" where
  "get_u16le k bs = ucast (bs ! k) OR push_bit 8 (ucast (bs ! (k + 1)))"

definition get_u32le :: "nat \<Rightarrow> byte list \<Rightarrow> u32" where
  "get_u32le k bs = ucast (bs ! k) OR push_bit 8 (ucast (bs ! (k + 1))) OR
     push_bit 16 (ucast (bs ! (k + 2))) OR push_bit 24 (ucast (bs ! (k + 3)))"

definition parse_wav :: "byte list \<Rightarrow> wav option" where
  "parse_wav bs =
     (if 44 \<le> length bs \<and> take 4 bs = ascii ''RIFF'' \<and> take 8 (drop 8 bs) = ascii ''WAVEfmt '' \<and>
         get_u32le 16 bs = 16 \<and> take 4 (drop 36 bs) = ascii ''data'' \<and>
         unat (get_u32le 40 bs) \<le> length bs - 44
      then Some \<lparr>wav_riff = get_u32le 4 bs, wav_code = get_u16le 20 bs, wav_channels = get_u16le 22 bs,
        wav_rate = get_u32le 24 bs, wav_byte_rate = get_u32le 28 bs, wav_block = get_u16le 32 bs,
        wav_bits = get_u16le 34 bs, wav_data = take (unat (get_u32le 40 bs)) (drop 44 bs)\<rparr>
      else None)"

lemma get_u16le_le16: "length a = k \<Longrightarrow> get_u16le k (a @ le16 v @ b) = v"
  by (simp add: get_u16le_def le16_def nth_append) (rule bit_word_eqI, auto simp: bit_simps)

lemma get_u32le_le32: "length a = k \<Longrightarrow> get_u32le k (a @ le32 v @ b) = v"
proof -
  assume k: "length a = k"
  have "bit (ucast (ucast v :: byte) OR push_bit 8 (ucast (ucast (drop_bit 8 v) :: byte)) OR
      push_bit 16 (ucast (ucast (drop_bit 16 v) :: byte)) OR
      push_bit 24 (ucast (ucast (drop_bit 24 v) :: byte)) :: u32) m = bit v m" if "m < 32" for m
  proof -
    consider "m < 8" | "8 \<le> m" "m < 16" | "16 \<le> m" "m < 24" | "24 \<le> m" by linarith
    then show ?thesis using that by cases (auto simp: bit_simps)
  qed
  then have "ucast (ucast v :: byte) OR push_bit 8 (ucast (ucast (drop_bit 8 v) :: byte)) OR
      push_bit 16 (ucast (ucast (drop_bit 16 v) :: byte)) OR
      push_bit 24 (ucast (ucast (drop_bit 24 v) :: byte)) = v" by (intro bit_word_eqI) simp
  with k show ?thesis by (auto simp: get_u32le_def le32_def nth_append)
qed

text \<open>What a reader finds at each offset.\<close>

lemma wav_fields_at:
  fixes info :: weba_format_info and r n :: u32 and d :: "byte list"
  defines "bs \<equiv> wav_bytes info r n d"
    and "ch \<equiv> (ucast (fi_channels info) :: 16 word)" and "sb \<equiv> sample_bytes (fi_format info)"
  shows "get_u32le 4 bs = r" "get_u32le 16 bs = 16"
    "get_u16le 20 bs = wav_format_code (fi_format info)" "get_u16le 22 bs = ch"
    "get_u32le 24 bs = fi_sample_rate info"
    "get_u32le 28 bs = fi_sample_rate info * ucast ch * word_of_nat sb"
    "get_u16le 32 bs = word_of_nat (unat ch * sb)" "get_u16le 34 bs = word_of_nat (sb * 8)"
    "get_u32le 40 bs = n"
proof -
  let ?c = "wav_format_code (fi_format info)" and ?rate = "fi_sample_rate info"
  let ?a0 = "ascii ''RIFF''"
  let ?a1 = "?a0 @ le32 r @ ascii ''WAVEfmt ''"
  let ?a2 = "?a1 @ le32 16"
  let ?a3 = "?a2 @ le16 ?c"
  let ?a4 = "?a3 @ le16 ch"
  let ?a5 = "?a4 @ le32 ?rate"
  let ?a6 = "?a5 @ le32 (?rate * ucast ch * word_of_nat sb)"
  let ?a7 = "?a6 @ le16 (word_of_nat (unat ch * sb))"
  let ?a8 = "?a7 @ le16 (word_of_nat (sb * 8)) @ ascii ''data''"
  have bs: "bs = ?a8 @ le32 n @ d"
    by (simp add: bs_def wav_bytes_def wav_fields_def ch_def sb_def Let_def)
  show "get_u32le 4 bs = r" unfolding bs by (simp add: get_u32le_le32)
  show "get_u32le 16 bs = 16" unfolding bs by (simp add: get_u32le_le32 [of ?a1 16, simplified])
  show "get_u16le 20 bs = ?c" unfolding bs by (simp add: get_u16le_le16 [of ?a2 20, simplified])
  show "get_u16le 22 bs = ch" unfolding bs by (simp add: get_u16le_le16 [of ?a3 22, simplified])
  show "get_u32le 24 bs = ?rate" unfolding bs by (simp add: get_u32le_le32 [of ?a4 24, simplified])
  show "get_u32le 28 bs = ?rate * ucast ch * word_of_nat sb"
    unfolding bs by (simp add: get_u32le_le32 [of ?a5 28, simplified])
  show "get_u16le 32 bs = word_of_nat (unat ch * sb)"
    unfolding bs by (simp add: get_u16le_le16 [of ?a6 32, simplified])
  show "get_u16le 34 bs = word_of_nat (sb * 8)"
    unfolding bs by (simp add: get_u16le_le16 [of ?a7 34, simplified])
  show "get_u32le 40 bs = n" unfolding bs by (simp add: get_u32le_le32 [of ?a8 40, simplified])
qed

lemma wav_tags_at:
  "take 4 (wav_bytes info r n d) = ascii ''RIFF''"
  "take 8 (drop 8 (wav_bytes info r n d)) = ascii ''WAVEfmt ''"
  "take 4 (drop 36 (wav_bytes info r n d)) = ascii ''data''"
  "drop 44 (wav_bytes info r n d) = d"
  by (simp_all add: wav_bytes_def wav_fields_def Let_def)

lemma parse_wav_bytes:
  "parse_wav (wav_bytes info r n d) =
     (if unat n \<le> length d
      then Some \<lparr>wav_riff = r, wav_code = wav_format_code (fi_format info),
        wav_channels = ucast (fi_channels info), wav_rate = fi_sample_rate info,
        wav_byte_rate = fi_sample_rate info * ucast (ucast (fi_channels info) :: 16 word) *
          word_of_nat (sample_bytes (fi_format info)),
        wav_block = word_of_nat (unat (ucast (fi_channels info) :: 16 word) * sample_bytes (fi_format info)),
        wav_bits = word_of_nat (sample_bytes (fi_format info) * 8), wav_data = take (unat n) d\<rparr>
      else None)"
  by (simp add: parse_wav_def wav_fields_at wav_tags_at)

end
