(* ===== verification/Queue_Interface.thy ===== *)
theory Queue_Interface
  imports Prelude "HOL-Library.Sublist"
begin

text \<open>
  The contract between the capture thread, the consumer and the queue they share. A queue loses
  its oldest element when it overflows and reports, with each element it hands out, how many were
  lost since the last pop. The interface states these laws; what its clients need of them is proved
  here once: every element pushed is delivered, reported as lost, waiting to be reported, or still
  held, in the order of the pushes.
\<close>

subsection \<open>Accounting for a history\<close>

text \<open>
  \<open>explains hist ds lost cont\<close>: the elements pushed so far, \<open>hist\<close>, are, in order, for each delivery
  \<open>(d, f)\<close> of \<open>ds\<close>, \<open>d\<close> lost elements and then \<open>f\<close>; then \<open>lost\<close> elements not yet reported; then
  the elements \<open>cont\<close> still held.
\<close>

fun explains :: "'f list \<Rightarrow> (nat \<times> 'f) list \<Rightarrow> nat \<Rightarrow> 'f list \<Rightarrow> bool" where
  "explains hist [] lost cont \<longleftrightarrow> lost \<le> length hist \<and> drop lost hist = cont"
| "explains hist ((d, f) # ds) lost cont \<longleftrightarrow>
     d < length hist \<and> hist ! d = f \<and> explains (drop (Suc d) hist) ds lost cont"

lemma explains_push: "explains hist ds lost cont \<Longrightarrow> explains (hist @ [f]) ds lost (cont @ [f])"
proof (induction ds arbitrary: hist)
  case (Cons x ds)
  then show ?case by (cases x) (auto simp: nth_append)
qed auto

lemma explains_lose:
  "explains hist ds lost cont \<Longrightarrow> cont \<noteq> [] \<Longrightarrow> explains hist ds (Suc lost) (tl cont)"
proof (induction ds arbitrary: hist)
  case Nil
  then have "lost < length hist" by auto
  with Nil show ?case by (auto simp: drop_Suc drop_tl)
next
  case (Cons x ds)
  then show ?case by (cases x) auto
qed

lemma explains_deliver:
  "explains hist ds lost (f # cont) \<Longrightarrow> explains hist (ds @ [(lost, f)]) 0 cont"
proof (induction ds arbitrary: hist)
  case Nil
  then have d: "drop lost hist = f # cont" by simp
  then have "lost < length hist" by (metis drop_eq_Nil linorder_not_le list.distinct(1))
  moreover from this d have "hist ! lost = f" "drop (Suc lost) hist = cont"
    by (simp_all add: Cons_nth_drop_Suc [symmetric])
  ultimately show ?case by simp
next
  case (Cons x ds)
  then show ?case by (cases x) auto
qed

lemma explains_length:
  "explains hist ds lost cont \<Longrightarrow>
     length hist = sum_list (map fst ds) + length ds + lost + length cont"
proof (induction ds arbitrary: hist)
  case (Cons x ds)
  obtain d f where x: "x = (d, f)" by (cases x)
  with Cons.prems have "explains (drop (Suc d) hist) ds lost cont" "d < length hist" by simp_all
  with Cons.IH [of "drop (Suc d) hist"] show ?case by (simp add: x)
qed auto

lemma explains_subseq: "explains hist ds lost cont \<Longrightarrow> subseq (map snd ds @ cont) hist"
proof (induction ds arbitrary: hist)
  case Nil
  then have "hist = take lost hist @ cont" by (metis append_take_drop_id explains.simps(1))
  then show ?case by (metis list.map(1) append_Nil list_emb_append2 subseq_order.order_refl)
next
  case (Cons x ds)
  obtain d f where x: "x = (d, f)" by (cases x)
  with Cons.prems have *: "explains (drop (Suc d) hist) ds lost cont" "d < length hist" "hist ! d = f"
    by simp_all
  then have "subseq (map snd ds @ cont) (drop (Suc d) hist)" by (simp add: Cons.IH)
  then have "subseq (f # map snd ds @ cont) (f # drop (Suc d) hist)" by simp
  moreover have "hist = take d hist @ f # drop (Suc d) hist"
    using id_take_nth_drop [OF *(2)] *(3) by simp
  ultimately show ?case
    by (metis x list.simps(9) snd_conv append_Cons list_emb_append2)
qed

lemma explains_delivered: "explains hist ds lost cont \<Longrightarrow> (n, f) \<in> set ds \<Longrightarrow> f \<in> set hist"
proof (induction ds arbitrary: hist)
  case (Cons x ds)
  obtain d g where x: "x = (d, g)" by (cases x)
  show ?case
  proof (cases "(n, f) = x")
    case True
    with Cons.prems x show ?thesis by auto
  next
    case False
    with Cons.prems x have "f \<in> set (drop (Suc d) hist)" by (intro Cons.IH) auto
    then show ?thesis by (rule in_set_dropD)
  qed
qed simp

subsection \<open>The interface\<close>

text \<open>
  \<open>fits q f\<close>: \<open>f\<close> has the element size of \<open>q\<close>; \<open>accepts q\<close>: \<open>q\<close> is not closed; \<open>room q\<close>: its
  capacity; \<open>lost q\<close>: what the next pop reports, exact while it stays below \<open>limit\<close>.
\<close>

locale drop_oldest_queue =
  fixes push :: "'f \<Rightarrow> 'q \<Rightarrow> 'q"
    and pop :: "'q \<Rightarrow> 'q \<times> 'f option \<times> nat"
    and contents :: "'q \<Rightarrow> 'f list"
    and lost :: "'q \<Rightarrow> nat"
    and room :: "'q \<Rightarrow> nat"
    and fits :: "'q \<Rightarrow> 'f \<Rightarrow> bool"
    and accepts :: "'q \<Rightarrow> bool"
    and inv :: "'q \<Rightarrow> bool"
    and limit :: nat
  assumes push_inv: "inv q \<Longrightarrow> fits q f \<Longrightarrow> inv (push f q)"
    and push_full: "inv q \<Longrightarrow> fits q f \<Longrightarrow> accepts q \<Longrightarrow> length (contents q) = room q \<Longrightarrow>
      Suc (lost q) < limit \<Longrightarrow>
      contents (push f q) = tl (contents q) @ [f] \<and> lost (push f q) = Suc (lost q)"
    and push_room: "inv q \<Longrightarrow> fits q f \<Longrightarrow> accepts q \<Longrightarrow> length (contents q) \<noteq> room q \<Longrightarrow>
      contents (push f q) = contents q @ [f] \<and> lost (push f q) = lost q"
    and push_shut: "inv q \<Longrightarrow> \<not> accepts q \<Longrightarrow> push f q = q"
    and push_frame: "inv q \<Longrightarrow> fits q f \<Longrightarrow>
      room (push f q) = room q \<and> fits (push f q) = fits q \<and> accepts (push f q) = accepts q"
    and pop_inv: "inv q \<Longrightarrow> inv (fst (pop q))"
    and pop_nonempty: "inv q \<Longrightarrow> contents q = f # fs \<Longrightarrow>
      snd (pop q) = (Some f, lost q) \<and> contents (fst (pop q)) = fs \<and> lost (fst (pop q)) = 0"
    and pop_empty: "inv q \<Longrightarrow> contents q = [] \<Longrightarrow>
      snd (pop q) = (None, lost q) \<and> contents (fst (pop q)) = [] \<and> lost (fst (pop q)) = 0"
    and pop_frame: "inv q \<Longrightarrow>
      room (fst (pop q)) = room q \<and> fits (fst (pop q)) = fits q \<and> accepts (fst (pop q)) = accepts q"
    and bounded: "inv q \<Longrightarrow> length (contents q) \<le> room q"
    and room_pos: "inv q \<Longrightarrow> 0 < room q"
    and lost_full: "inv q \<Longrightarrow> 0 < lost q \<Longrightarrow> contents q \<noteq> []"
begin

text \<open>A pop that returns no element reports no loss.\<close>

lemma pop_none_lossless: "inv q \<Longrightarrow> fst (snd (pop q)) = None \<Longrightarrow> snd (snd (pop q)) = 0"
  using lost_full [of q] pop_empty [of q] pop_nonempty [of q] by (cases "contents q") auto

text \<open>The accounting invariant is kept by a push and by a pop.\<close>

lemma account_push:
  assumes "inv q" "fits q f" "accepts q" "Suc (length hist) < limit"
    and acc: "explains hist ds (lost q) (contents q)"
  shows "explains (hist @ [f]) ds (lost (push f q)) (contents (push f q))"
proof (cases "length (contents q) = room q")
  case True
  have "lost q \<le> length hist" using explains_length [OF acc] by simp
  with assms(4) have lim: "Suc (lost q) < limit" by simp
  have ne: "contents q \<noteq> []" using True room_pos [OF assms(1)] by auto
  have "explains (hist @ [f]) ds (lost q) (contents q @ [f])" by (rule explains_push [OF acc])
  from explains_lose [OF this] ne
  have "explains (hist @ [f]) ds (Suc (lost q)) (tl (contents q) @ [f])" by simp
  with push_full [OF assms(1,2,3) True lim] show ?thesis by simp
next
  case False
  with push_room [OF assms(1,2,3)] explains_push [OF acc] show ?thesis by simp
qed

lemma account_pop:
  assumes "inv q" and acc: "explains hist ds (lost q) (contents q)"
  shows "explains hist
           (case fst (snd (pop q)) of None \<Rightarrow> ds | Some f \<Rightarrow> ds @ [(snd (snd (pop q)), f)])
           (lost (fst (pop q))) (contents (fst (pop q)))"
proof (cases "contents q")
  case Nil
  then have "lost q = 0" using lost_full [OF assms(1)] by auto
  with pop_empty [OF assms(1) Nil] acc Nil show ?thesis by simp
next
  case (Cons f fs)
  with pop_nonempty [OF assms(1) Cons] acc show ?thesis
    by (simp add: explains_deliver)
qed

end

end
