(* ===== verification/Frame_Queue.thy ===== *)
theory Frame_Queue
  imports Queue_Interface
begin

text \<open>
  The bounded frame queue of \<open>src/frame_queue.h\<close>: a ring of fixed-size slots in one byte vector,
  with drop-oldest overflow. First the class as it is written, then its invariant, then the
  abstract queue it implements (a list of frames, the number of frames lost since the last pop, a
  closed flag) and the commuting lemma of each operation. The interface \<open>drop_oldest_queue\<close> states
  the laws its clients rely on; its trace lemma says that what a consumer is handed, with the drop
  counts reported, accounts for every frame pushed.
\<close>

subsection \<open>The class\<close>

record frame_queue =
  storage :: "byte list"
  slot_bytes :: nat
  capacity :: nat
  q_count :: nat
  read_index :: nat
  q_dropped :: nat
  closed :: bool

text \<open>The default member initialisers.\<close>

definition queue_new :: frame_queue where
  "queue_new = \<lparr>storage = [], slot_bytes = 0, capacity = 0, q_count = 0, read_index = 0,
     q_dropped = 0, closed = False\<rparr>"

text \<open>
  \<open>std::vector<uint8_t>::max_size()\<close>: \<open>assign\<close> throws \<open>std::length_error\<close> above it, which
  \<open>catch (const std::bad_alloc &)\<close> does not handle. Whether an allocation of \<open>n\<close> bytes succeeds
  is the parameter \<open>alloc_ok\<close>.
\<close>

definition vector_max_size :: nat where
  "vector_max_size = 2 ^ 63 - 1"

definition queue_init :: "(nat \<Rightarrow> bool) \<Rightarrow> nat \<Rightarrow> nat \<Rightarrow> frame_queue \<Rightarrow> (frame_queue \<times> bool) outcome" where
  "queue_init alloc_ok sb cap q =
     (if sb = 0 then Inr (q, False)
      else
        let n = size_mul (max cap 1) sb in
        if n > vector_max_size then Inl LengthError
        else if \<not> alloc_ok n then Inr (q, False)
        else Inr (\<lparr>storage = replicate n 0, slot_bytes = sb, capacity = max cap 1, q_count = 0,
                   read_index = 0, q_dropped = 0, closed = False\<rparr>, True))"

definition queue_push :: "byte list \<Rightarrow> frame_queue \<Rightarrow> (frame_queue \<times> nat) outcome" where
  "queue_push frame q =
     (if closed q \<or> slot_bytes q = 0 then Inr (q, 0)
      else if capacity q = 0 then Inl DivideByZero
      else
        let full = (q_count q = capacity q);
            q1 = (if full
                  then q\<lparr>read_index := size_add (read_index q) 1 mod capacity q,
                         q_count := q_count q - 1,
                         q_dropped := size_add (q_dropped q) 1\<rparr>
                  else q);
            discarded = (if full then 1 else 0);
            write_index = size_add (read_index q1) (q_count q1) mod capacity q1
        in sum_bind (mem_read frame 0 (slot_bytes q1)) (\<lambda>d.
           sum_bind (mem_write (storage q1) (size_mul write_index (slot_bytes q1)) d) (\<lambda>m.
           Inr (q1\<lparr>storage := m, q_count := size_add (q_count q1) 1\<rparr>, discarded))))"

text \<open>
  \<open>pop\<close> waits under the lock for \<open>_count > 0 || _closed\<close> or the timeout, then runs its body.
  \<open>pop_wait\<close> says whether the wait is over after \<open>waited\<close> microseconds, \<open>queue_pop\<close> is the body: it
  gives the queue, the destination, the drop count and the return value.
\<close>

definition pop_wait :: "int \<Rightarrow> int \<Rightarrow> frame_queue \<Rightarrow> bool" where
  "pop_wait timeout waited q \<longleftrightarrow> q_count q > 0 \<or> closed q \<or> timeout \<le> waited"

definition queue_pop :: "byte list \<Rightarrow> frame_queue \<Rightarrow> (frame_queue \<times> byte list \<times> nat \<times> int) outcome" where
  "queue_pop dst q =
     (let dropped = q_dropped q;
          q1 = q\<lparr>q_dropped := 0\<rparr>
      in if q_count q1 = 0 then Inr (q1, dst, dropped, if closed q1 then -1 else 0)
         else
           sum_bind (mem_read (storage q1) (size_mul (read_index q1) (slot_bytes q1)) (slot_bytes q1)) (\<lambda>d.
           sum_bind (mem_write dst 0 d) (\<lambda>dst'.
           if capacity q1 = 0 then Inl DivideByZero else
           Inr (q1\<lparr>read_index := size_add (read_index q1) 1 mod capacity q1,
                   q_count := q_count q1 - 1\<rparr>, dst', dropped, 1))))"

definition queue_close :: "frame_queue \<Rightarrow> frame_queue" where
  "queue_close q = q\<lparr>closed := True\<rparr>"

definition queue_size :: "frame_queue \<Rightarrow> nat" where
  "queue_size q = q_count q"

definition queue_slot_bytes :: "frame_queue \<Rightarrow> nat" where
  "queue_slot_bytes q = slot_bytes q"

subsection \<open>Invariant and abstraction\<close>

text \<open>
  The invariant of an initialised queue. Its last clause is what makes the drop count exact: drops
  that have not been reported yet mean that the queue is full, so the pop that reports them always
  returns a frame.
\<close>

definition ring_inv :: "frame_queue \<Rightarrow> bool" where
  "ring_inv q \<longleftrightarrow>
     0 < slot_bytes q \<and> 0 < capacity q \<and>
     capacity q * slot_bytes q \<le> vector_max_size \<and>
     length (storage q) = capacity q * slot_bytes q \<and>
     q_count q \<le> capacity q \<and> read_index q < capacity q"

definition queue_inv :: "frame_queue \<Rightarrow> bool" where
  "queue_inv q \<longleftrightarrow>
     ring_inv q \<and> q_dropped q < size_mod \<and> (0 < q_dropped q \<longrightarrow> q_count q = capacity q)"

definition slot :: "frame_queue \<Rightarrow> nat \<Rightarrow> byte list" where
  "slot q i = chunk (slot_bytes q) (storage q) i"

definition frames :: "frame_queue \<Rightarrow> byte list list" where
  "frames q = map (\<lambda>k. slot q ((read_index q + k) mod capacity q)) [0..<q_count q]"

lemma queue_inv_ring [simp]: "queue_inv q \<Longrightarrow> ring_inv q"
  by (simp add: queue_inv_def)

lemma ring_invD:
  assumes "ring_inv q"
  shows "0 < slot_bytes q" "0 < capacity q" "q_count q \<le> capacity q" "read_index q < capacity q"
    "length (storage q) = capacity q * slot_bytes q"
    "capacity q * slot_bytes q \<le> vector_max_size"
  using assms by (simp_all add: ring_inv_def)

lemma length_frames [simp]: "length (frames q) = q_count q"
  by (simp add: frames_def)

lemma frames_Nil_iff: "frames q = [] \<longleftrightarrow> q_count q = 0"
  by (simp add: frames_def)

lemma ring_inv_bounds:
  assumes "ring_inv q"
  shows "capacity q < 2 ^ 63" and "slot_bytes q < 2 ^ 63"
proof -
  note inv = ring_invD [OF assms]
  have "capacity q * 1 \<le> capacity q * slot_bytes q" "1 * slot_bytes q \<le> capacity q * slot_bytes q"
    using inv(1,2) by (auto intro: mult_le_mono1 mult_le_mono2)
  with inv(6) have "capacity q \<le> vector_max_size" "slot_bytes q \<le> vector_max_size"
    by (simp_all only: mult_1 mult_1_right)
  then show "capacity q < 2 ^ 63" "slot_bytes q < 2 ^ 63"
    by (simp_all add: vector_max_size_def)
qed

text \<open>No index computation of the class wraps under the invariant.\<close>

lemma ring_inv_add: "ring_inv q \<Longrightarrow> a \<le> capacity q \<Longrightarrow> b \<le> capacity q \<Longrightarrow> size_add a b = a + b"
  using ring_inv_bounds(1) [of q] by (simp add: size_mod_def)

lemma ring_inv_mul:
  assumes "ring_inv q" "i < capacity q"
  shows "size_mul i (slot_bytes q) = i * slot_bytes q"
proof -
  have "i * slot_bytes q \<le> capacity q * slot_bytes q" using assms(2) by simp
  also have "\<dots> < size_mod"
    using ring_invD(6) [OF assms(1)] by (simp add: vector_max_size_def size_mod_def)
  finally show ?thesis by simp
qed

lemma ring_inv_slot_in:
  "ring_inv q \<Longrightarrow> i < capacity q \<Longrightarrow> i * slot_bytes q + slot_bytes q \<le> length (storage q)"
  by (simp add: ring_invD chunk_end)

lemma slot_length [simp]: "ring_inv q \<Longrightarrow> i < capacity q \<Longrightarrow> length (slot q i) = slot_bytes q"
  by (simp add: slot_def ring_inv_def)

lemma frames_all_length: "ring_inv q \<Longrightarrow> f \<in> set (frames q) \<Longrightarrow> length f = slot_bytes q"
  using ring_invD(2) [of q] by (auto simp: frames_def)

subsection \<open>One lemma per ring movement\<close>

text \<open>Dropping the oldest frame: the read index moves on by one.\<close>

lemma frames_advance:
  assumes "ring_inv q" "0 < q_count q"
  shows "frames (q\<lparr>read_index := size_add (read_index q) 1 mod capacity q,
                   q_count := q_count q - 1\<rparr>) = tl (frames q)"
proof -
  note inv = ring_invD [OF assms(1)]
  obtain n where n: "q_count q = Suc n" using assms(2) by (cases "q_count q") auto
  have "size_add (read_index q) 1 = Suc (read_index q)"
    using ring_inv_add [OF assms(1), of "read_index q" 1] inv by simp
  then show ?thesis
    by (simp add: frames_def n slot_def chunk_def upt_conv_Cons map_Suc_upt [symmetric]
        mod_Suc_shift del: upt_Suc)
qed

lemma frames_hd:
  "ring_inv q \<Longrightarrow> 0 < q_count q \<Longrightarrow> frames q = slot q (read_index q) # tl (frames q)"
  by (simp add: frames_def upt_conv_Cons ring_invD)

text \<open>Writing one frame behind the newest.\<close>

lemma frames_append:
  assumes inv: "ring_inv q" and room: "q_count q < capacity q" and len: "length d = slot_bytes q"
    and w: "w = (read_index q + q_count q) mod capacity q"
    and m: "m = take (w * slot_bytes q) (storage q) @ d
               @ drop (w * slot_bytes q + slot_bytes q) (storage q)"
  shows "frames (q\<lparr>storage := m, q_count := Suc (q_count q)\<rparr>) = frames q @ [d]"
proof -
  note D = ring_invD [OF inv]
  have wc: "w < capacity q" using D by (simp add: w)
  have same: "chunk (slot_bytes q) m w = d"
    unfolding m using wc D len by (intro chunk_write_same) auto
  have other: "chunk (slot_bytes q) m ((read_index q + k) mod capacity q)
      = chunk (slot_bytes q) (storage q) ((read_index q + k) mod capacity q)"
    if "k < q_count q" for k
  proof -
    have "(read_index q + k) mod capacity q \<noteq> w"
      unfolding w using that room by (intro mod_add_neq) auto
    then show ?thesis
      unfolding m using wc D len by (intro chunk_write_other) auto
  qed
  show ?thesis
    using same other by (auto simp: frames_def slot_def w [symmetric])
qed

lemma ring_inv_advance:
  "ring_inv q \<Longrightarrow> 0 < q_count q \<Longrightarrow>
     ring_inv (q\<lparr>read_index := size_add (read_index q) 1 mod capacity q, q_count := q_count q - 1\<rparr>)"
  by (auto simp: ring_inv_def)

subsection \<open>The abstract queue and the refinement\<close>

text \<open>
  The specification: frames in order, how many were lost since the last pop, and whether the queue
  is closed. A push on a full queue loses the oldest frame.
\<close>

record abs_queue =
  aq_items :: "byte list list"
  aq_lost :: nat
  aq_closed :: bool

definition aq_push :: "nat \<Rightarrow> byte list \<Rightarrow> abs_queue \<Rightarrow> abs_queue \<times> nat" where
  "aq_push cap f a =
     (if aq_closed a then (a, 0)
      else if length (aq_items a) = cap
      then (a\<lparr>aq_items := tl (aq_items a) @ [f], aq_lost := size_add (aq_lost a) 1\<rparr>, 1)
      else (a\<lparr>aq_items := aq_items a @ [f]\<rparr>, 0))"

definition aq_pop :: "abs_queue \<Rightarrow> abs_queue \<times> byte list option \<times> nat \<times> int" where
  "aq_pop a =
     (case aq_items a of
        [] \<Rightarrow> (a\<lparr>aq_lost := 0\<rparr>, None, aq_lost a, if aq_closed a then -1 else 0)
      | f # fs \<Rightarrow> (a\<lparr>aq_items := fs, aq_lost := 0\<rparr>, Some f, aq_lost a, 1))"

definition abs_of :: "frame_queue \<Rightarrow> abs_queue" where
  "abs_of q = \<lparr>aq_items = frames q, aq_lost = q_dropped q, aq_closed = closed q\<rparr>"

lemma abs_of_sel [simp]:
  "aq_items (abs_of q) = frames q" "aq_lost (abs_of q) = q_dropped q"
  "aq_closed (abs_of q) = closed q"
  by (simp_all add: abs_of_def)

text \<open>Placing a frame in a ring with room.\<close>

lemma ring_place:
  assumes inv: "ring_inv q" and room: "q_count q < capacity q" and len: "slot_bytes q \<le> length f"
  obtains m where
    "mem_read f 0 (slot_bytes q) = Inr (take (slot_bytes q) f)"
    "mem_write (storage q) (size_mul (size_add (read_index q) (q_count q) mod capacity q) (slot_bytes q))
       (take (slot_bytes q) f) = Inr m"
    "frames (q\<lparr>storage := m, q_count := size_add (q_count q) 1\<rparr>) = frames q @ [take (slot_bytes q) f]"
    "ring_inv (q\<lparr>storage := m, q_count := size_add (q_count q) 1\<rparr>)"
    "size_add (q_count q) 1 = Suc (q_count q)"
proof -
  note D = ring_invD [OF inv]
  let ?w = "(read_index q + q_count q) mod capacity q"
  let ?d = "take (slot_bytes q) f"
  let ?m = "take (?w * slot_bytes q) (storage q) @ ?d
              @ drop (?w * slot_bytes q + slot_bytes q) (storage q)"
  have w: "?w < capacity q" using D by simp
  have ld: "length ?d = slot_bytes q" using len by simp
  have in_range: "?w * slot_bytes q + slot_bytes q \<le> length (storage q)"
    using ring_inv_slot_in [OF inv w] .
  have idx: "size_add (read_index q) (q_count q) = read_index q + q_count q"
    using D by (intro ring_inv_add [OF inv]) auto
  have cnt: "size_add (q_count q) 1 = Suc (q_count q)"
    using D ring_inv_add [OF inv, of "q_count q" 1] by simp
  have wr: "mem_write (storage q) (size_mul (size_add (read_index q) (q_count q) mod capacity q)
      (slot_bytes q)) ?d = Inr ?m"
    using in_range ld by (simp add: idx ring_inv_mul [OF inv w])
  have lm: "length ?m = length (storage q)"
    using mem_write_length [OF wr] .
  show ?thesis
  proof (rule that [of ?m])
    show "mem_read f 0 (slot_bytes q) = Inr ?d" using len by simp
    show "ring_inv (q\<lparr>storage := ?m, q_count := size_add (q_count q) 1\<rparr>)"
      using inv room lm unfolding cnt by (auto simp: ring_inv_def)
    show "frames (q\<lparr>storage := ?m, q_count := size_add (q_count q) 1\<rparr>) = frames q @ [?d]"
      unfolding cnt using ld by (intro frames_append [OF inv room]) auto
  qed (use wr cnt in auto)
qed

text \<open>A frame placed in a ring with room.\<close>

lemma push_room:
  assumes inv: "queue_inv q" and len: "slot_bytes q \<le> length f" and room: "\<not> closed q" "q_count q < capacity q"
  shows "\<exists>q'. queue_push f q = Inr (q', 0) \<and> queue_inv q' \<and>
    aq_push (capacity q) (take (slot_bytes q) f) (abs_of q) = (abs_of q', 0) \<and>
    capacity q' = capacity q \<and> slot_bytes q' = slot_bytes q \<and> closed q' = closed q"
proof -
  have ring: "ring_inv q" using inv by simp
  note D = ring_invD [OF ring]
  from ring_place [OF ring room(2) len] obtain m where m:
    "mem_read f 0 (slot_bytes q) = Inr (take (slot_bytes q) f)"
    "mem_write (storage q) (size_mul (size_add (read_index q) (q_count q) mod capacity q)
       (slot_bytes q)) (take (slot_bytes q) f) = Inr m"
    "frames (q\<lparr>storage := m, q_count := size_add (q_count q) 1\<rparr>)
       = frames q @ [take (slot_bytes q) f]"
    "ring_inv (q\<lparr>storage := m, q_count := size_add (q_count q) 1\<rparr>)"
    "size_add (q_count q) 1 = Suc (q_count q)" .
  let ?q' = "q\<lparr>storage := m, q_count := size_add (q_count q) 1\<rparr>"
  have push: "queue_push f q = Inr (?q', 0)"
    using room D m(1,2) by (simp add: queue_push_def Let_def)
  have "q_dropped q = 0" using inv room by (auto simp: queue_inv_def)
  then have "queue_inv ?q'"
    using m(4) by (simp add: queue_inv_def size_mod_def)
  moreover have "aq_push (capacity q) (take (slot_bytes q) f) (abs_of q) = (abs_of ?q', 0)"
    using room m(3) by (simp add: aq_push_def abs_of_def)
  ultimately show ?thesis using push by auto
qed

text \<open>A full ring gives up its oldest frame first, and counts it.\<close>

lemma push_full:
  assumes inv: "queue_inv q" and len: "slot_bytes q \<le> length f" and full: "\<not> closed q" "q_count q = capacity q"
  shows "\<exists>q'. queue_push f q = Inr (q', 1) \<and> queue_inv q' \<and>
    aq_push (capacity q) (take (slot_bytes q) f) (abs_of q) = (abs_of q', 1) \<and>
    capacity q' = capacity q \<and> slot_bytes q' = slot_bytes q \<and> closed q' = closed q"
proof -
  have ring: "ring_inv q" using inv by simp
  note D = ring_invD [OF ring]
  define q1 where "q1 = q\<lparr>read_index := size_add (read_index q) 1 mod capacity q,
      q_count := q_count q - 1, q_dropped := size_add (q_dropped q) 1\<rparr>"
  have pos: "0 < q_count q" using full D by simp
  have "ring_inv (q\<lparr>read_index := size_add (read_index q) 1 mod capacity q, q_count := q_count q - 1\<rparr>)"
    by (rule ring_inv_advance [OF ring pos])
  then have r1: "ring_inv q1" by (simp add: q1_def ring_inv_def)
  have f1: "frames q1 = tl (frames q)"
    using frames_advance [OF ring pos] by (simp add: q1_def frames_def slot_def)
  have "q_count q1 < capacity q1" "slot_bytes q1 \<le> length f"
    using full D len by (simp_all add: q1_def)
  from ring_place [OF r1 this] obtain m where m:
    "mem_read f 0 (slot_bytes q1) = Inr (take (slot_bytes q1) f)"
    "mem_write (storage q1) (size_mul (size_add (read_index q1) (q_count q1) mod capacity q1)
       (slot_bytes q1)) (take (slot_bytes q1) f) = Inr m"
    "frames (q1\<lparr>storage := m, q_count := size_add (q_count q1) 1\<rparr>)
       = frames q1 @ [take (slot_bytes q1) f]"
    "ring_inv (q1\<lparr>storage := m, q_count := size_add (q_count q1) 1\<rparr>)"
    "size_add (q_count q1) 1 = Suc (q_count q1)" .
  let ?q' = "q1\<lparr>storage := m, q_count := size_add (q_count q1) 1\<rparr>"
  have push: "queue_push f q = Inr (?q', 1)"
    using full D m(1,2) by (simp add: queue_push_def Let_def q1_def)
  have "queue_inv ?q'"
    using m(4,5) full D size_add_less [of "q_dropped q" 1] by (simp add: queue_inv_def q1_def)
  moreover have "aq_push (capacity q) (take (slot_bytes q) f) (abs_of q) = (abs_of ?q', 1)"
    using full m(3) f1 by (simp add: aq_push_def abs_of_def q1_def)
  ultimately show ?thesis using push by (auto simp: q1_def)
qed

lemma queue_push_refines:
  assumes inv: "queue_inv q" and len: "slot_bytes q \<le> length f"
  shows "\<exists>q' n. queue_push f q = Inr (q', n) \<and> queue_inv q' \<and>
           aq_push (capacity q) (take (slot_bytes q) f) (abs_of q) = (abs_of q', n) \<and>
           capacity q' = capacity q \<and> slot_bytes q' = slot_bytes q \<and> closed q' = closed q"
proof -
  have "q_count q \<le> capacity q" using inv ring_invD(3) [of q] by simp
  then consider (shut) "closed q" | (full) "\<not> closed q" "q_count q = capacity q"
    | (room) "\<not> closed q" "q_count q < capacity q" by linarith
  then show ?thesis
  proof cases
    case shut
    with inv show ?thesis by (simp add: queue_push_def aq_push_def)
  next
    case full
    from push_full [OF inv len this] show ?thesis by blast
  next
    case room
    from push_room [OF inv len this] show ?thesis by blast
  qed
qed

lemma queue_pop_refines:
  assumes inv: "queue_inv q" and len: "slot_bytes q \<le> length dst"
  shows "\<exists>q' fo n r. aq_pop (abs_of q) = (abs_of q', fo, n, r) \<and> queue_inv q' \<and>
           queue_pop dst q =
             Inr (q', case fo of None \<Rightarrow> dst | Some f \<Rightarrow> f @ drop (slot_bytes q) dst, n, r) \<and>
           capacity q' = capacity q \<and> slot_bytes q' = slot_bytes q \<and> closed q' = closed q"
proof -
  have ring: "ring_inv q" using inv by simp
  note D = ring_invD [OF ring]
  show ?thesis
  proof (cases "q_count q = 0")
    case True
    let ?q' = "q\<lparr>q_dropped := 0\<rparr>"
    have "queue_inv ?q'" using inv by (simp add: queue_inv_def ring_inv_def size_mod_def)
    moreover have "frames q = []" "frames ?q' = []" using True by (simp_all add: frames_def)
    then have "aq_pop (abs_of q) = (abs_of ?q', None, q_dropped q, if closed q then -1 else 0)"
      by (simp add: aq_pop_def abs_of_def)
    ultimately show ?thesis using True by (auto simp: queue_pop_def)
  next
    case False
    then have pos: "0 < q_count q" by simp
    let ?q0 = "q\<lparr>read_index := size_add (read_index q) 1 mod capacity q, q_count := q_count q - 1\<rparr>"
    let ?q' = "q\<lparr>q_dropped := 0, read_index := size_add (read_index q) 1 mod capacity q,
        q_count := q_count q - 1\<rparr>"
    let ?f = "slot q (read_index q)"
    have fr: "frames q = ?f # tl (frames q)" by (rule frames_hd [OF ring pos])
    have fr': "frames ?q' = tl (frames q)"
      using frames_advance [OF ring pos] by (simp add: frames_def slot_def)
    have lf: "length ?f = slot_bytes q" using ring D by simp
    have "ring_inv ?q'"
      using ring_inv_advance [OF ring pos] by (simp add: ring_inv_def)
    then have "queue_inv ?q'" by (simp add: queue_inv_def size_mod_def)
    moreover have "aq_pop (abs_of q) = (abs_of ?q', Some ?f, q_dropped q, 1)"
      by (simp add: aq_pop_def abs_of_def fr' [simplified] arg_cong [OF fr, of "case_list a b" for a b])
    moreover have "queue_pop dst q = Inr (?q', ?f @ drop (slot_bytes q) dst, q_dropped q, 1)"
      using pos D len lf ring_inv_slot_in [OF ring D(4)]
      by (simp add: queue_pop_def Let_def ring_inv_mul [OF ring D(4)] slot_def chunk_def)
    ultimately show ?thesis by auto
  qed
qed

lemma queue_close_refines:
  "abs_of (queue_close q) = (abs_of q)\<lparr>aq_closed := True\<rparr>"
  "queue_inv q \<Longrightarrow> queue_inv (queue_close q)"
  by (simp_all add: queue_close_def abs_of_def frames_def slot_def queue_inv_def ring_inv_def)

subsection \<open>The class provides the interface\<close>

text \<open>
  The class's operations in the shape of the interface: the queue after a push, and the frame and
  the drop count a pop hands to a destination of exactly one slot.
\<close>

definition q_push :: "byte list \<Rightarrow> frame_queue \<Rightarrow> frame_queue" where
  "q_push f q = (case queue_push f q of Inl _ \<Rightarrow> q | Inr (q', _) \<Rightarrow> q')"

definition q_pop :: "frame_queue \<Rightarrow> frame_queue \<times> byte list option \<times> nat" where
  "q_pop q =
     (case queue_pop (replicate (slot_bytes q) 0) q of
        Inl _ \<Rightarrow> (q, None, 0)
      | Inr (q', out, n, r) \<Rightarrow> (q', if r = 1 then Some out else None, n))"

definition q_fits :: "frame_queue \<Rightarrow> byte list \<Rightarrow> bool" where
  "q_fits q f \<longleftrightarrow> length f = slot_bytes q"

definition q_accepts :: "frame_queue \<Rightarrow> bool" where
  "q_accepts q \<longleftrightarrow> \<not> closed q"

lemma q_push_abs:
  assumes "queue_inv q" "q_fits q f"
  shows "queue_inv (q_push f q)" and "abs_of (q_push f q) = fst (aq_push (capacity q) f (abs_of q))"
    and "capacity (q_push f q) = capacity q" "slot_bytes (q_push f q) = slot_bytes q"
    and "closed (q_push f q) = closed q"
  using queue_push_refines [of q f] assms by (auto simp: q_push_def q_fits_def)

lemma aq_pop_ret: "aq_pop a = (a', fo, n, r) \<Longrightarrow> (r = 1 \<longleftrightarrow> fo \<noteq> None)"
  by (auto simp: aq_pop_def split: list.splits if_splits)

lemma aq_pop_elem: "aq_pop a = (a', Some f, n, r) \<Longrightarrow> f \<in> set (aq_items a)"
  by (auto simp: aq_pop_def split: list.splits)

lemma q_pop_abs:
  assumes "queue_inv q"
  obtains q' fo n r where "aq_pop (abs_of q) = (abs_of q', fo, n, r)" "q_pop q = (q', fo, n)"
    "queue_inv q'" "capacity q' = capacity q" "slot_bytes q' = slot_bytes q" "closed q' = closed q"
proof -
  from queue_pop_refines [OF assms, of "replicate (slot_bytes q) 0"]
  obtain q' fo n r where *: "aq_pop (abs_of q) = (abs_of q', fo, n, r)" "queue_inv q'"
    "queue_pop (replicate (slot_bytes q) 0) q =
      Inr (q', case fo of None \<Rightarrow> replicate (slot_bytes q) 0 | Some f \<Rightarrow> f @ drop (slot_bytes q) (replicate (slot_bytes q) 0), n, r)"
    "capacity q' = capacity q" "slot_bytes q' = slot_bytes q" "closed q' = closed q"
    by auto
  have "q_pop q = (q', fo, n)"
    using *(3) aq_pop_ret [OF *(1)] by (cases fo) (simp_all add: q_pop_def)
  with * that show ?thesis by blast
qed

text \<open>A pop into any large enough destination is the same pop.\<close>

lemma queue_pop_q_pop:
  assumes "queue_inv q" "slot_bytes q \<le> length dst"
  shows "queue_pop dst q =
    Inr (fst (q_pop q),
         case fst (snd (q_pop q)) of None \<Rightarrow> dst | Some f \<Rightarrow> f @ drop (slot_bytes q) dst,
         snd (snd (q_pop q)),
         if q_count q = 0 then (if closed q then -1 else 0) else 1)"
    and "fst (snd (q_pop q)) = Some f \<Longrightarrow> length f = slot_bytes q"
proof -
  have ring: "ring_inv q" using assms(1) by simp
  note D = ring_invD [OF ring]
  show "queue_pop dst q =
    Inr (fst (q_pop q),
         case fst (snd (q_pop q)) of None \<Rightarrow> dst | Some f \<Rightarrow> f @ drop (slot_bytes q) dst,
         snd (snd (q_pop q)),
         if q_count q = 0 then (if closed q then -1 else 0) else 1)"
    using D assms(2) ring_inv_slot_in [OF ring D(4)]
    by (simp add: q_pop_def queue_pop_def Let_def ring_inv_mul [OF ring D(4)])
  show "fst (snd (q_pop q)) = Some f \<Longrightarrow> length f = slot_bytes q"
    using assms(1) by (rule q_pop_abs) (auto dest!: aq_pop_elem intro: frames_all_length [OF ring])
qed

lemma q_pop_none: "queue_inv q \<Longrightarrow> frames q = [] \<Longrightarrow>
    snd (q_pop q) = (None, q_dropped q) \<and> frames (fst (q_pop q)) = [] \<and> q_dropped (fst (q_pop q)) = 0"
  by (erule q_pop_abs) (auto simp: aq_pop_def abs_of_def)

lemma q_pop_some: "queue_inv q \<Longrightarrow> frames q = f # fs \<Longrightarrow>
    snd (q_pop q) = (Some f, q_dropped q) \<and> frames (fst (q_pop q)) = fs \<and> q_dropped (fst (q_pop q)) = 0"
  by (erule q_pop_abs) (auto simp: aq_pop_def abs_of_def)

lemma abs_of_eqD:
  "abs_of q = a \<Longrightarrow> frames q = aq_items a"
  "abs_of q = a \<Longrightarrow> q_dropped q = aq_lost a"
  by (auto simp: abs_of_def)

interpretation fq: drop_oldest_queue q_push q_pop frames q_dropped capacity q_fits q_accepts
  queue_inv size_mod
proof unfold_locales
  fix q f assume *: "queue_inv q" "q_fits q f"
  show "queue_inv (q_push f q)" using * by (rule q_push_abs)
  show "capacity (q_push f q) = capacity q \<and> q_fits (q_push f q) = q_fits q \<and>
        q_accepts (q_push f q) = q_accepts q"
    using q_push_abs [OF *] by (auto simp: q_fits_def q_accepts_def)
  note abs = q_push_abs(2) [OF *]
  { assume "q_accepts q" "length (frames q) = capacity q" "Suc (q_dropped q) < size_mod"
    then show "frames (q_push f q) = tl (frames q) @ [f] \<and> q_dropped (q_push f q) = Suc (q_dropped q)"
      using abs_of_eqD [OF abs] by (simp add: aq_push_def q_accepts_def) }
  { assume "q_accepts q" "length (frames q) \<noteq> capacity q"
    then show "frames (q_push f q) = frames q @ [f] \<and> q_dropped (q_push f q) = q_dropped q"
      using abs_of_eqD [OF abs] by (simp add: aq_push_def q_accepts_def) }
next
  fix q f assume "queue_inv q" "\<not> q_accepts q"
  then show "q_push f q = q" by (simp add: q_push_def queue_push_def q_accepts_def)
next
  fix q assume inv: "queue_inv q"
  from inv show "queue_inv (fst (q_pop q))" by (rule q_pop_abs) simp
  from inv show "capacity (fst (q_pop q)) = capacity q \<and> q_fits (fst (q_pop q)) = q_fits q \<and>
        q_accepts (fst (q_pop q)) = q_accepts q"
    by (rule q_pop_abs) (auto simp: q_fits_def q_accepts_def)
  from inv show "length (frames q) \<le> capacity q" "0 < capacity q"
    by (simp_all add: queue_inv_def ring_inv_def)
  from inv show "0 < q_dropped q \<Longrightarrow> frames q \<noteq> []"
    using ring_invD(2) [of q] by (simp add: queue_inv_def frames_Nil_iff)
qed (rule q_pop_some q_pop_none; assumption)+

end
