(* ===== verification/Frame_Period.thy ===== *)
theory Frame_Period
  imports Prelude
begin

text \<open>
  The frame period of \<open>src/capture.cpp\<close> and its rendering for the log. Both are computed in whole
  microseconds.
\<close>

lemma uint_u32_pos: "(r :: u32) \<noteq> 0 \<Longrightarrow> 0 < uint r"
  by (metis le_less unsigned_greater_eq uint_0_iff)

lemma uint_u32_less: "uint (w :: u32) < 2 ^ 32"
  using unsigned_less [of w] by simp

subsection \<open>The period\<close>

text \<open>The 64-bit product stays below \<open>2 ^ 52\<close>; the division by a zero rate is a fault.\<close>

definition frame_period :: "u32 \<Rightarrow> u32 \<Rightarrow> int outcome" where
  "frame_period frame_samples sample_rate =
     (if sample_rate = 0 then Inl DivideByZero
      else Inr (uint frame_samples * 1000000 div uint sample_rate))"

definition period_us :: "u32 \<Rightarrow> u32 \<Rightarrow> int" where
  "period_us frame_samples sample_rate = uint frame_samples * 1000000 div uint sample_rate"

lemma frame_period_ok: "r \<noteq> 0 \<Longrightarrow> frame_period n r = Inr (period_us n r)"
  by (simp add: frame_period_def period_us_def)

lemma period_us_nonneg [simp]: "0 \<le> period_us n r"
  by (simp add: period_us_def div_int_pos_iff)

lemma period_us_bounds:
  assumes "r \<noteq> 0"
  shows "period_us n r * uint r \<le> uint n * 1000000"
    and "uint n * 1000000 < (period_us n r + 1) * uint r"
proof -
  have pos: "0 < uint r" using assms by (rule uint_u32_pos)
  show "period_us n r * uint r \<le> uint n * 1000000"
    unfolding period_us_def
    using pos div_mult_mod_eq [of "uint n * 1000000" "uint r"]
      pos_mod_sign [OF pos, of "uint n * 1000000"] by linarith
  have "uint n * 1000000 mod uint r < uint r" using pos by simp
  then show "uint n * 1000000 < (period_us n r + 1) * uint r"
    unfolding period_us_def using div_mult_mod_eq [of "uint n * 1000000" "uint r"]
    by (simp only: distrib_right mult_1)
qed

lemma period_us_less: "period_us n r < 2 ^ 52"
proof (cases "r = 0")
  case False
  then have "1 \<le> uint r" using uint_u32_pos by fastforce
  then have "period_us n r \<le> uint n * 1000000 div 1"
    unfolding period_us_def by (intro zdiv_mono2) auto
  also have "\<dots> < 2 ^ 52" using uint_u32_less [of n] by simp
  finally show ?thesis .
qed (simp add: period_us_def)

text \<open>A period of at least a microsecond needs at least one sample per microsecond of rate.\<close>

lemma period_us_pos_iff:
  assumes "r \<noteq> 0"
  shows "0 < period_us n r \<longleftrightarrow> uint r \<le> uint n * 1000000"
proof -
  have "0 < uint r" using assms by (rule uint_u32_pos)
  then show ?thesis by (simp add: period_us_def pos_imp_zdiv_pos_iff)
qed

subsection \<open>The text\<close>

text \<open>
  \<open>snprintf(text, 32, "%.3f", period / 1000.0)\<close>. The period is below \<open>2 ^ 52\<close>, so its conversion to
  \<open>double\<close> is exact and the quotient is within \<open>0.0005\<close> of the true one; rounded to three places it
  is the whole and the remainder of the division by 1000. \<open>snprintf\<close> keeps 31 characters.
\<close>

definition three_digits :: "nat \<Rightarrow> string" where
  "three_digits f = [digit_char (f div 100), digit_char (f div 10 mod 10), digit_char (f mod 10)]"

definition format_thousandths :: "nat \<Rightarrow> string" where
  "format_thousandths p = take 31 (nat_dec (p div 1000) @ ''.'' @ three_digits (p mod 1000))"

fun trim_zeros :: "string \<Rightarrow> string" where
  "trim_zeros s = (if 1 < length s \<and> last s = CHR ''0'' then trim_zeros (butlast s) else s)"

declare trim_zeros.simps [simp del]

definition trim_point :: "string \<Rightarrow> string" where
  "trim_point s = (if s \<noteq> [] \<and> last s = CHR ''.'' then butlast s else s)"

definition frame_period_text :: "u32 \<Rightarrow> u32 \<Rightarrow> string outcome" where
  "frame_period_text frame_samples sample_rate =
     sum_bind (frame_period frame_samples sample_rate) (\<lambda>period.
       let whole = period div 1000 in
       if period = whole * 1000 then Inr (nat_dec (nat whole) @ '' ms'')
       else Inr (trim_point (trim_zeros (format_thousandths (nat period))) @ '' ms''))"

subsection \<open>What the text says\<close>

lemma digit_char_0: "digit_char 0 = CHR ''0''"
proof -
  have "of_char CHR ''0'' = (48 :: nat)" by simp
  then show ?thesis by (metis add.right_neutral char_of_char digit_char_def)
qed

lemma digit_char_zero_iff: "d < 10 \<Longrightarrow> digit_char d = CHR ''0'' \<longleftrightarrow> d = 0"
  using digit_val_char [of d] digit_val_char [of 0] digit_char_0 by (metis zero_less_numeral)

lemma digit_char_point: "d < 10 \<Longrightarrow> digit_char d \<noteq> CHR ''.''"
proof
  assume d: "d < 10" and eq: "digit_char d = CHR ''.''"
  have "of_char (digit_char d) = 48 + d" using d by (simp add: digit_char_def of_char_of)
  moreover have "of_char CHR ''.'' = (46 :: nat)" by simp
  ultimately show False using eq by simp
qed

lemma trim_zeros_snoc:
  "trim_zeros (s @ [c]) = (if s \<noteq> [] \<and> c = CHR ''0'' then trim_zeros s else s @ [c])"
  by (subst trim_zeros.simps) auto

lemma length_nat_dec: "0 < k \<Longrightarrow> n < 10 ^ k \<Longrightarrow> length (nat_dec n) \<le> k"
proof (induction k arbitrary: n)
  case (Suc k)
  show ?case
  proof (cases "n < 10")
    case True
    then show ?thesis by (simp add: nat_dec.simps [of n])
  next
    case False
    then have "0 < k" using Suc.prems by (cases k) auto
    moreover have "n div 10 < 10 ^ k" using Suc.prems by (simp add: less_mult_imp_div_less mult.commute)
    ultimately have "length (nat_dec (n div 10)) \<le> k" by (rule Suc.IH)
    with False show ?thesis by (simp add: nat_dec.simps [of n])
  qed
qed simp

text \<open>The digits after the point, without trailing zeros.\<close>

definition frac_of :: "nat \<Rightarrow> nat \<Rightarrow> nat \<Rightarrow> string" where
  "frac_of a b c = map digit_char (if c \<noteq> 0 then [a, b, c] else if b \<noteq> 0 then [a, b] else [a])"

definition frac_digits :: "nat \<Rightarrow> string" where
  "frac_digits f = frac_of (f div 100) (f div 10 mod 10) (f mod 10)"

lemma trim_frac:
  assumes "a < 10" "b < 10" "c < 10" "a \<noteq> 0 \<or> b \<noteq> 0 \<or> c \<noteq> 0"
  shows "trim_zeros (w @ ''.'' @ map digit_char [a, b, c]) = w @ ''.'' @ frac_of a b c"
  using assms digit_char_zero_iff
    trim_zeros_snoc [of "w @ ''.'' @ map digit_char [a, b]" "digit_char c"]
    trim_zeros_snoc [of "w @ ''.'' @ map digit_char [a]" "digit_char b"]
    trim_zeros_snoc [of "w @ ''.''" "digit_char a"]
  by (auto simp: frac_of_def)

lemma last_frac: "a < 10 \<Longrightarrow> b < 10 \<Longrightarrow> c < 10 \<Longrightarrow> last (w @ ''.'' @ frac_of a b c) \<noteq> CHR ''.''"
  using digit_char_point by (simp add: frac_of_def)

lemma frac_of_value:
  "a < 10 \<Longrightarrow> b < 10 \<Longrightarrow> c < 10 \<Longrightarrow>
     dec_val (frac_of a b c) * 10 ^ (3 - length (frac_of a b c)) = a * 100 + b * 10 + c"
  by (auto simp: frac_of_def dec_val_def)

lemma three_digits_split: "f < 1000 \<Longrightarrow> f = f div 100 * 100 + f div 10 mod 10 * 10 + f mod (10 :: nat)"
proof -
  have "f div 100 = f div 10 div 10" by (simp add: div_mult2_eq [symmetric])
  then show ?thesis
    using div_mult_mod_eq [of f 10] div_mult_mod_eq [of "f div 10" 10] by linarith
qed

lemma frac_digits_value:
  assumes "f < 1000"
  shows "dec_val (frac_digits f) * 10 ^ (3 - length (frac_digits f)) = f"
proof -
  have "f div 100 < 10" using assms by (simp add: less_mult_imp_div_less)
  from frac_of_value [OF this, of "f div 10 mod 10" "f mod 10"] three_digits_split [OF assms]
  show ?thesis by (simp add: frac_digits_def)
qed

lemma trimmed_text:
  assumes "p < 2 ^ 52" "p mod 1000 \<noteq> 0"
  shows "trim_point (trim_zeros (format_thousandths p))
    = nat_dec (p div 1000) @ ''.'' @ frac_digits (p mod 1000)"
proof -
  define w f where "w = nat_dec (p div 1000)" and "f = p mod 1000"
  define a b c where "a = f div 100" and "b = f div 10 mod 10" and "c = f mod 10"
  have f: "f < 1000" "f \<noteq> 0" using assms by (simp_all add: f_def)
  have abc: "a < 10" "b < 10" "c < 10" using f(1) by (simp_all add: a_def b_def c_def less_mult_imp_div_less)
  have nz: "a \<noteq> 0 \<or> b \<noteq> 0 \<or> c \<noteq> 0"
    using three_digits_split [OF f(1)] f(2) unfolding a_def b_def c_def by linarith
  have "p div 1000 < 10 ^ 13" using assms(1) by simp
  then have "length w \<le> 13" unfolding w_def by (intro length_nat_dec) auto
  then have fmt: "format_thousandths p = w @ ''.'' @ map digit_char [a, b, c]"
    by (simp add: format_thousandths_def three_digits_def w_def f_def a_def b_def c_def)
  show ?thesis
    unfolding fmt trim_frac [OF abc nz] trim_point_def using last_frac [OF abc, of w]
    by (simp add: frac_digits_def w_def [symmetric] f_def [symmetric] a_def b_def c_def)
qed

text \<open>The whole text, in either case.\<close>

lemma frac_digits_last:
  assumes "f < 1000" "f \<noteq> 0"
  shows "length (frac_digits f) \<le> 3" "last (frac_digits f) \<noteq> CHR ''0''" "frac_digits f \<noteq> []"
proof -
  have d: "f div 100 < 10" "f div 10 mod 10 < 10" "f mod 10 < 10"
    using assms(1) by (simp_all add: less_mult_imp_div_less)
  have "f div 100 \<noteq> 0 \<or> f div 10 mod 10 \<noteq> 0 \<or> f mod 10 \<noteq> 0"
    using three_digits_split [OF assms(1)] assms(2) by linarith
  with d show "length (frac_digits f) \<le> 3" "last (frac_digits f) \<noteq> CHR ''0''" "frac_digits f \<noteq> []"
    by (auto simp: frac_digits_def frac_of_def digit_char_zero_iff)
qed

lemma period_text_cases:
  assumes "r \<noteq> 0"
  shows "\<exists>whole frac. frame_period_text n r =
      Inr (whole @ (if frac = [] then [] else ''.'' @ frac) @ '' ms'') \<and>
    length frac \<le> 3 \<and> (frac = [] \<or> last frac \<noteq> CHR ''0'') \<and>
    int (dec_val whole * 1000 + dec_val frac * 10 ^ (3 - length frac)) = period_us n r"
proof -
  define p where "p = nat (period_us n r)"
  have per: "period_us n r = int p" by (simp add: p_def)
  have big: "p < 2 ^ 52" using period_us_less [of n r] by (simp add: per)
  have whole: "period_us n r div 1000 = int (p div 1000)" by (simp add: per zdiv_int)
  have even: "period_us n r = int (p div 1000) * 1000 \<longleftrightarrow> p mod 1000 = 0"
    unfolding per using div_mult_mod_eq [of p 1000] by linarith
  have rendered: "frame_period_text n r =
      (if p mod 1000 = 0 then Inr (nat_dec (p div 1000) @ '' ms'')
       else Inr (trim_point (trim_zeros (format_thousandths p)) @ '' ms''))"
    unfolding frame_period_text_def frame_period_ok [OF assms] sum_bind_simps Let_def whole even
    by (simp only: nat_int p_def)
  show ?thesis
  proof (cases "p mod 1000 = 0")
    case True
    then have "int (p div 1000 * 1000) = int p" by (metis add_0 mod_div_mult_eq)
    moreover have "dec_val [] = 0" by (simp add: dec_val_def)
    ultimately show ?thesis
      using True rendered by (intro exI [of _ "nat_dec (p div 1000)"] exI [of _ "[]"]) (simp add: per)
  next
    case False
    let ?f = "p mod 1000"
    have f: "?f < 1000" by simp
    have "p div 1000 * 1000 + ?f = p" by (rule div_mult_mod_eq)
    with False rendered trimmed_text [OF big False] frac_digits_last [OF f False] frac_digits_value [OF f] show ?thesis
      by (intro exI [of _ "nat_dec (p div 1000)"] exI [of _ "frac_digits ?f"]) (simp add: per)
  qed
qed

end
