(* ===== verification/Alarm.thy ===== *)
theory Alarm
  imports Prelude
begin

text \<open>
  \<open>src/primitives.h\<close>: the one-shot handoff \<open>alarm_t\<close> and the scope guard. The mutex makes each
  operation one step on the pair of flag and value; \<open>wait\<close> is the step in which the waiting thread
  holds the lock again, and is not enabled while nothing has been rung and time is left.
\<close>

subsection \<open>The alarm\<close>

record 'a alarm =
  a_raised :: bool
  a_value :: 'a

definition alarm_new :: "'a \<Rightarrow> 'a alarm" where
  "alarm_new v = \<lparr>a_raised = False, a_value = v\<rparr>"

definition alarm_ring :: "'a \<Rightarrow> 'a alarm \<Rightarrow> 'a alarm" where
  "alarm_ring v a = a\<lparr>a_value := v, a_raised := True\<rparr>"

definition alarm_try_ring :: "'a \<Rightarrow> 'a alarm \<Rightarrow> 'a alarm \<times> bool" where
  "alarm_try_ring v a =
     (if a_raised a then (a, False) else (a\<lparr>a_value := v, a_raised := True\<rparr>, True))"

text \<open>
  \<open>timeout\<close> and the time waited so far are in milliseconds; a negative timeout waits for ever. The
  result is \<open>None\<close> while the thread stays blocked, else the return value, the out-parameter
  (\<open>None\<close>: not written) and the alarm.
\<close>

definition alarm_wait :: "int \<Rightarrow> int \<Rightarrow> 'a alarm \<Rightarrow> (bool \<times> 'a option \<times> 'a alarm) option" where
  "alarm_wait timeout waited a =
     (if a_raised a then Some (True, Some (a_value a), a\<lparr>a_raised := False\<rparr>)
      else if 0 \<le> timeout \<and> timeout \<le> waited then Some (False, None, a)
      else None)"

definition alarm_reset :: "'a alarm \<Rightarrow> 'a alarm" where
  "alarm_reset a = a\<lparr>a_raised := False\<rparr>"

subsection \<open>The handoff as an interface\<close>

text \<open>
  What the queries of the control layer rely on: the first value offered stays until it is taken,
  later offers change nothing, and a value is taken once.
\<close>

locale one_shot =
  fixes offer :: "'v \<Rightarrow> 'a \<Rightarrow> 'a"
    and taken :: "'a \<Rightarrow> ('v \<times> 'a) option"
    and full :: "'a \<Rightarrow> bool"
  assumes offer_full: "full a \<Longrightarrow> offer v a = a"
    and offer_empty: "\<not> full a \<Longrightarrow> full (offer v a)"
    and taken_offer: "\<not> full a \<Longrightarrow> \<exists>a'. taken (offer v a) = Some (v, a') \<and> \<not> full a'"
    and taken_empty: "\<not> full a \<Longrightarrow> taken a = None"
begin

lemma offers_full: "full a \<Longrightarrow> fold offer vs a = a"
  by (induction vs) (simp_all add: offer_full)

lemma first_offer_wins: "\<not> full a \<Longrightarrow> fold offer (v # vs) a = offer v a"
  by (simp add: offers_full offer_empty)

lemma first_offer_taken:
  "\<not> full a \<Longrightarrow> \<exists>a'. taken (fold offer (v # vs) a) = Some (v, a') \<and> taken a' = None"
  using first_offer_wins [of a v vs] taken_offer [of a v] taken_empty by auto

lemma no_offer_untaken: "\<not> full a \<Longrightarrow> taken (fold offer [] a) = None"
  by (simp add: taken_empty)

end

definition alarm_offer :: "'a \<Rightarrow> 'a alarm \<Rightarrow> 'a alarm" where
  "alarm_offer v a = fst (alarm_try_ring v a)"

definition alarm_taken :: "int \<Rightarrow> 'a alarm \<Rightarrow> ('a \<times> 'a alarm) option" where
  "alarm_taken waited a =
     (case alarm_wait waited waited a of Some (True, Some v, a') \<Rightarrow> Some (v, a') | _ \<Rightarrow> None)"

interpretation al: one_shot alarm_offer "alarm_taken t" a_raised for t
  by unfold_locales (auto simp: alarm_offer_def alarm_taken_def alarm_try_ring_def alarm_wait_def)

subsection \<open>The scope guard\<close>

text \<open>
  A guard is its callable and whether it is armed; the callable is a state transformer. A move
  leaves the source disarmed.
\<close>

record 's scope_guard =
  g_fn :: "'s \<Rightarrow> 's"
  g_armed :: bool

definition on_scope_exit :: "('s \<Rightarrow> 's) \<Rightarrow> 's scope_guard" where
  "on_scope_exit fn = \<lparr>g_fn = fn, g_armed = True\<rparr>"

definition guard_move :: "'s scope_guard \<Rightarrow> 's scope_guard \<times> 's scope_guard" where
  "guard_move g = (\<lparr>g_fn = g_fn g, g_armed = g_armed g\<rparr>, g\<lparr>g_armed := False\<rparr>)"

definition guard_dismiss :: "'s scope_guard \<Rightarrow> 's scope_guard" where
  "guard_dismiss g = g\<lparr>g_armed := False\<rparr>"

definition guard_destroy :: "'s scope_guard \<Rightarrow> 's \<Rightarrow> 's" where
  "guard_destroy g s = (if g_armed g then g_fn g s else s)"

text \<open>A guard moved along a chain of scopes, each of which is left in turn.\<close>

fun guard_chain :: "nat \<Rightarrow> 's scope_guard \<Rightarrow> 's \<Rightarrow> 's" where
  "guard_chain 0 g s = guard_destroy g s"
| "guard_chain (Suc n) g s =
     (let (new, old) = guard_move g in guard_chain n new (guard_destroy old s))"

lemma guard_chain_once: "guard_chain n (on_scope_exit fn) s = fn s"
  by (induction n arbitrary: s)
    (simp_all add: guard_destroy_def on_scope_exit_def guard_move_def)

lemma guard_chain_disarmed: "\<not> g_armed g \<Longrightarrow> guard_chain n g s = s"
  by (induction n arbitrary: s g) (simp_all add: guard_destroy_def guard_move_def)

lemma guard_chain_dismissed: "guard_chain n (guard_dismiss g) s = s"
  by (rule guard_chain_disarmed) (simp add: guard_dismiss_def)

end
