(* ===== verification/Pulse_Control.thy ===== *)
theory Pulse_Control
  imports Abi Alarm
begin

text \<open>
  The control layer of \<open>src/pulse_control.h\<close> and \<open>src/pulse_control.cpp\<close>: connection to the audio
  server, the state callback, and the two queries that resolve what to record. What libpulse
  answers is an argument: which calls succeed, which callbacks run while a thread waits, and the
  text of \<open>pa_strerror()\<close>. Each operation runs a whole call, with the callbacks that the loop
  thread delivers during its wait.
\<close>

subsection \<open>State and error text\<close>

text \<open>The states of a context that the callback distinguishes; the rest take its default branch.\<close>

datatype pa_context_state = CtxReady | CtxFailed | CtxTerminated | CtxOther

text \<open>
  \<open>ct_mainloop\<close>, \<open>ct_ctx\<close>: the pointer is not null; \<open>ct_thread\<close>: the loop thread is joinable.
\<close>

record control =
  ct_mainloop :: bool
  ct_ctx :: bool
  ct_thread :: bool
  ct_ready :: bool
  ct_terminated :: bool
  ct_failed :: bool
  ct_error :: string

definition control_new :: control where
  "control_new = \<lparr>ct_mainloop = False, ct_ctx = False, ct_thread = False, ct_ready = False,
     ct_terminated = False, ct_failed = False, ct_error = ''''\<rparr>"

definition ct_set_error :: "string \<Rightarrow> control \<Rightarrow> control" where
  "ct_set_error msg c = c\<lparr>ct_error := msg\<rparr>"

definition pulse_error :: "string \<Rightarrow> string \<Rightarrow> string" where
  "pulse_error what strerror = what @ '' failed: '' @ strerror"

definition state_callback :: "pa_context_state \<Rightarrow> control \<Rightarrow> control" where
  "state_callback st c =
     (case st of
        CtxReady \<Rightarrow> c\<lparr>ct_ready := True\<rparr>
      | CtxFailed \<Rightarrow> c\<lparr>ct_failed := True\<rparr>
      | CtxTerminated \<Rightarrow> c\<lparr>ct_terminated := True\<rparr>
      | CtxOther \<Rightarrow> c)"

definition control_ready :: "control \<Rightarrow> bool" where
  "control_ready c \<longleftrightarrow> ct_ready c \<and> \<not> ct_failed c \<and> \<not> ct_terminated c"

subsection \<open>Connecting and disconnecting\<close>

text \<open>
  The answers to \<open>init()\<close>: whether the main loop and the context could be made, the states reported
  from within \<open>pa_context_connect()\<close>, its return value, the states reported by the loop thread
  before the wait ended, the error text, and whether a thread can be created.
\<close>

record connect_env =
  ce_mainloop :: bool
  ce_context :: bool
  ce_connect_states :: "pa_context_state list"
  ce_connect_rc :: int
  ce_wait_states :: "pa_context_state list"
  ce_strerror :: string
  ce_spawn :: bool

text \<open>
  A thread that cannot be created is an exception, which leaves the C function. Assigning a new
  thread to \<open>_thread\<close> while the old one is joinable calls \<open>std::terminate\<close>. The wait
  for the connection ends when \<open>_ready || _failed\<close> holds, or after \<open>kQueryTimeout\<close>.
\<close>

definition control_init :: "connect_env \<Rightarrow> control \<Rightarrow> (control \<times> int) outcome" where
  "control_init e c =
     (let c1 = c\<lparr>ct_mainloop := ce_mainloop e\<rparr> in
      if \<not> ct_mainloop c1 then Inr (ct_set_error ''pa_mainloop_new() failed'' c1, WEBA_ERR_PULSE)
      else
        let c2 = c1\<lparr>ct_ctx := ce_context e\<rparr> in
        if \<not> ct_ctx c2 then Inr (ct_set_error ''pa_context_new() failed'' c2, WEBA_ERR_PULSE)
        else
          let c3 = fold state_callback (ce_connect_states e) c2 in
          if ce_connect_rc e < 0
          then Inr (ct_set_error (pulse_error ''pa_context_connect()'' (ce_strerror e)) c3,
                    WEBA_ERR_PULSE)
          else if \<not> ce_spawn e then Inl SystemError
          else if ct_thread c3 then Inl Terminate
          else
            let c4 = fold state_callback (ce_wait_states e) (c3\<lparr>ct_thread := True\<rparr>);
                signalled = (ct_ready c4 \<or> ct_failed c4)
            in if \<not> signalled
               then Inr (ct_set_error ''timed out connecting to the audio server'' c4, WEBA_ERR_PULSE)
               else if \<not> ct_ready c4
               then Inr (ct_set_error ''audio server connection failed'' c4, WEBA_ERR_PULSE)
               else Inr (c4, WEBA_OK))"

text \<open>
  \<open>shutdown()\<close> quits and joins the loop thread, then disconnects; \<open>states\<close> are the states the
  callback sees from within \<open>pa_context_disconnect()\<close>.
\<close>

definition control_shutdown :: "pa_context_state list \<Rightarrow> control \<Rightarrow> control" where
  "control_shutdown states c =
     (let c1 = c\<lparr>ct_thread := False\<rparr>;
          c2 = (if ct_ctx c1 then (fold state_callback states c1)\<lparr>ct_ctx := False\<rparr> else c1);
          c3 = (if ct_mainloop c2 then c2\<lparr>ct_mainloop := False\<rparr> else c2)
      in c3\<lparr>ct_ready := False\<rparr>)"

subsection \<open>Queries\<close>

record query_result =
  qr_ok :: bool
  qr_value :: string
  qr_error :: string

definition query_result_new :: query_result where
  "query_result_new = \<lparr>qr_ok = False, qr_value = '''', qr_error = ''''\<rparr>"

definition failure :: "string \<Rightarrow> query_result" where
  "failure msg = query_result_new\<lparr>qr_error := msg\<rparr>"

definition kQueryTimeout :: int where
  "kQueryTimeout = 5000"

text \<open>
  The first callback's argument: \<open>None\<close> for a null \<open>info\<close>, \<open>Some None\<close> for a null
  \<open>default_sink_name\<close>.
\<close>

type_synonym server_info = "string option option"

definition server_info_callback :: "server_info \<Rightarrow> query_result alarm \<Rightarrow> query_result alarm" where
  "server_info_callback info a =
     (case info of
        None \<Rightarrow> alarm_offer (failure ''audio server returned no server info'') a
      | Some None \<Rightarrow> alarm_offer (failure ''audio server reports no default sink'') a
      | Some (Some name) \<Rightarrow>
          alarm_offer (query_result_new\<lparr>qr_ok := True, qr_value := name\<rparr>) a)"

text \<open>
  The second callback's arguments: the error text of the context, \<open>info\<close> with its nullable
  \<open>monitor_source_name\<close>, and \<open>eol\<close>.
\<close>

record sink_info =
  si_strerror :: string
  si_info :: "string option option"
  si_eol :: int

definition sink_info_callback :: "sink_info \<Rightarrow> query_result alarm \<Rightarrow> query_result alarm" where
  "sink_info_callback i a =
     (if si_eol i < 0 then alarm_offer (failure (''sink lookup failed: '' @ si_strerror i)) a
      else if si_eol i > 0 then a
      else
        case si_info i of
          None \<Rightarrow> alarm_offer (failure ''sink has no monitor source'') a
        | Some None \<Rightarrow> alarm_offer (failure ''sink has no monitor source'') a
        | Some (Some name) \<Rightarrow>
            alarm_offer (query_result_new\<lparr>qr_ok := True, qr_value := name\<rparr>) a)"

text \<open>
  The answers to one query: whether an operation was issued, the callbacks that have run when the
  wait ends, and the error text. A query returns the control and, on success, the value.
\<close>

record 'c query_env =
  qe_issued :: bool
  qe_calls :: "'c list"
  qe_strerror :: string

definition query_default_sink ::
  "server_info query_env \<Rightarrow> control \<Rightarrow> control \<times> string option" where
  "query_default_sink e c =
     (if \<not> qe_issued e
      then (ct_set_error (pulse_error ''pa_context_get_server_info()'' (qe_strerror e)) c, None)
      else
        let a = fold server_info_callback (qe_calls e) (alarm_new query_result_new) in
        case alarm_wait kQueryTimeout kQueryTimeout a of
          Some (True, Some result, _) \<Rightarrow>
            (if \<not> qr_ok result then (ct_set_error (qr_error result) c, None)
             else (c, Some (qr_value result)))
        | _ \<Rightarrow> (ct_set_error ''timed out querying the default sink'' c, None))"

definition query_monitor ::
  "sink_info query_env \<Rightarrow> string \<Rightarrow> control \<Rightarrow> control \<times> string option" where
  "query_monitor e sink c =
     (if \<not> qe_issued e
      then (ct_set_error (pulse_error ''pa_context_get_sink_info_by_name()'' (qe_strerror e)) c, None)
      else
        let a = fold sink_info_callback (qe_calls e) (alarm_new query_result_new) in
        case alarm_wait kQueryTimeout kQueryTimeout a of
          Some (True, Some result, _) \<Rightarrow>
            (if \<not> qr_ok result then (ct_set_error (qr_error result) c, None)
             else (c, Some (qr_value result)))
        | _ \<Rightarrow> (ct_set_error (''timed out looking up sink '' @ [CHR 0x27] @ sink @ [CHR 0x27]) c, None))"

subsection \<open>Resolving the target\<close>

record target_t =
  tg_sink :: string
  tg_monitor :: string

text \<open>The server's answers to the two queries; the second depends on the sink asked for.\<close>

record resolve_env =
  re_default :: "server_info query_env"
  re_monitor :: "string \<Rightarrow> sink_info query_env"

definition resolve_target :: "resolve_env \<Rightarrow> string \<Rightarrow> control \<Rightarrow> control \<times> target_t option" where
  "resolve_target e requested_sink c =
     (if \<not> ct_ctx c \<or> \<not> control_ready c
      then (ct_set_error ''not connected to the audio server'' c, None)
      else
        let (c1, sink) =
          (if requested_sink = [] then
             (case query_default_sink (re_default e) c of
                (c1, None) \<Rightarrow> (c1, None)
              | (c1, Some name) \<Rightarrow>
                  (if name = [] then (ct_set_error ''audio server reports an empty default sink'' c1, None)
                   else (c1, Some name)))
           else (c, Some requested_sink))
        in case sink of
             None \<Rightarrow> (c1, None)
           | Some name \<Rightarrow>
               (case query_monitor (re_monitor e name) name c1 of
                  (c2, None) \<Rightarrow> (c2, None)
                | (c2, Some monitor) \<Rightarrow> (c2, Some \<lparr>tg_sink = name, tg_monitor = monitor\<rparr>)))"

subsection \<open>What a query returns\<close>

text \<open>The value each callback offers, if any; an end-of-list call offers none.\<close>

definition server_info_result :: "server_info \<Rightarrow> query_result" where
  "server_info_result info =
     (case info of
        None \<Rightarrow> failure ''audio server returned no server info''
      | Some None \<Rightarrow> failure ''audio server reports no default sink''
      | Some (Some name) \<Rightarrow> query_result_new\<lparr>qr_ok := True, qr_value := name\<rparr>)"

definition sink_info_result :: "sink_info \<Rightarrow> query_result option" where
  "sink_info_result i =
     (if si_eol i < 0 then Some (failure (''sink lookup failed: '' @ si_strerror i))
      else if si_eol i > 0 then None
      else
        case si_info i of
          Some (Some name) \<Rightarrow> Some (query_result_new\<lparr>qr_ok := True, qr_value := name\<rparr>)
        | _ \<Rightarrow> Some (failure ''sink has no monitor source''))"

lemma server_info_callback_offers: "server_info_callback info = alarm_offer (server_info_result info)"
  by (rule ext) (auto simp: server_info_callback_def server_info_result_def split: option.splits)

lemma sink_info_callback_offers:
  "sink_info_callback i =
     (case sink_info_result i of None \<Rightarrow> id | Some r \<Rightarrow> alarm_offer r)"
  by (rule ext) (auto simp: sink_info_callback_def sink_info_result_def split: option.splits)

lemma server_calls_offer:
  "fold server_info_callback calls a = fold alarm_offer (map server_info_result calls) a"
  by (induction calls arbitrary: a) (simp_all add: server_info_callback_offers)

lemma sink_calls_offer:
  "fold sink_info_callback calls a = fold alarm_offer (List.map_filter sink_info_result calls) a"
  by (induction calls arbitrary: a)
    (simp_all add: sink_info_callback_offers map_filter_simps split: option.splits)

text \<open>Waiting on a fresh alarm gives the first value offered, or the timeout.\<close>

lemma wait_offers:
  "alarm_wait kQueryTimeout kQueryTimeout (fold alarm_offer vs (alarm_new d)) =
     (case vs of
        [] \<Rightarrow> Some (False, None, alarm_new d)
      | v # _ \<Rightarrow> Some (True, Some v, \<lparr>a_raised = False, a_value = v\<rparr>))"
proof (cases vs)
  case Nil
  then show ?thesis by (simp add: alarm_wait_def alarm_new_def kQueryTimeout_def)
next
  case (Cons v ws)
  have "\<not> a_raised (alarm_new d)" by (simp add: alarm_new_def)
  from al.first_offer_wins [OF this, of v ws] Cons show ?thesis
    by (simp add: alarm_wait_def alarm_offer_def alarm_try_ring_def alarm_new_def)
qed

definition timed_out_sink :: "string \<Rightarrow> string" where
  "timed_out_sink sink = ''timed out looking up sink '' @ [CHR 0x27] @ sink @ [CHR 0x27]"

lemma query_default_sink_eq:
  "query_default_sink e c =
     (if \<not> qe_issued e
      then (ct_set_error (pulse_error ''pa_context_get_server_info()'' (qe_strerror e)) c, None)
      else case map server_info_result (qe_calls e) of
             [] \<Rightarrow> (ct_set_error ''timed out querying the default sink'' c, None)
           | r # _ \<Rightarrow> if qr_ok r then (c, Some (qr_value r)) else (ct_set_error (qr_error r) c, None))"
  unfolding query_default_sink_def server_calls_offer wait_offers Let_def
  by (auto split: list.splits)

lemma query_monitor_eq:
  "query_monitor e sink c =
     (if \<not> qe_issued e
      then (ct_set_error (pulse_error ''pa_context_get_sink_info_by_name()'' (qe_strerror e)) c, None)
      else case List.map_filter sink_info_result (qe_calls e) of
             [] \<Rightarrow> (ct_set_error (timed_out_sink sink) c, None)
           | r # _ \<Rightarrow> if qr_ok r then (c, Some (qr_value r)) else (ct_set_error (qr_error r) c, None))"
  unfolding query_monitor_def sink_calls_offer wait_offers Let_def timed_out_sink_def
  by (auto split: list.splits)

text \<open>A failing query leaves a message, and nothing but the message changes.\<close>

lemma server_result_message: "\<not> qr_ok (server_info_result i) \<Longrightarrow> c_str (qr_error (server_info_result i)) \<noteq> []"
  by (auto simp: server_info_result_def failure_def query_result_new_def split: option.splits)

lemma sink_result_message: "sink_info_result i = Some r \<Longrightarrow> \<not> qr_ok r \<Longrightarrow> c_str (qr_error r) \<noteq> []"
  by (auto simp: sink_info_result_def failure_def query_result_new_def split: option.splits if_splits)

lemma sink_results_message:
  "r \<in> set (List.map_filter sink_info_result is) \<Longrightarrow> \<not> qr_ok r \<Longrightarrow> c_str (qr_error r) \<noteq> []"
  by (induction "is") (auto simp: map_filter_simps sink_result_message split: option.splits)

definition same_but_error :: "control \<Rightarrow> control \<Rightarrow> bool" where
  "same_but_error c c' \<longleftrightarrow> c' = c\<lparr>ct_error := ct_error c'\<rparr>"

lemma same_but_error_refl [simp]: "same_but_error c c"
  by (simp add: same_but_error_def)

lemma same_but_error_set [simp]: "same_but_error c (ct_set_error msg c)"
  by (simp add: same_but_error_def ct_set_error_def)

lemma ct_error_set [simp]: "ct_error (ct_set_error msg c) = msg"
  by (simp add: ct_set_error_def)

lemma same_but_error_set_after: "same_but_error a b \<Longrightarrow> same_but_error a (ct_set_error msg b)"
  unfolding same_but_error_def ct_set_error_def by (metis control.update_convs(7) control.surjective)

lemma same_but_error_trans: "same_but_error a b \<Longrightarrow> same_but_error b c \<Longrightarrow> same_but_error a c"
  unfolding same_but_error_def by (metis control.update_convs(7) control.surjective)

lemma same_but_errorD:
  assumes "same_but_error c c'"
  shows "ct_ctx c' = ct_ctx c" "ct_ready c' = ct_ready c" "ct_failed c' = ct_failed c"
    "ct_terminated c' = ct_terminated c" "ct_thread c' = ct_thread c"
    "ct_mainloop c' = ct_mainloop c" "control_ready c' = control_ready c"
proof -
  from assms obtain m where "c' = c\<lparr>ct_error := m\<rparr>" by (auto simp: same_but_error_def)
  then show "ct_ctx c' = ct_ctx c" "ct_ready c' = ct_ready c" "ct_failed c' = ct_failed c"
    "ct_terminated c' = ct_terminated c" "ct_thread c' = ct_thread c"
    "ct_mainloop c' = ct_mainloop c" "control_ready c' = control_ready c"
    by (simp_all add: control_ready_def)
qed

lemma query_default_sink_frame:
  assumes "query_default_sink e c = (c', v)"
  shows "same_but_error c c'" and "v = None \<Longrightarrow> c_str (ct_error c') \<noteq> []" and "v \<noteq> None \<Longrightarrow> c' = c"
  using assms server_result_message
  by (auto simp: query_default_sink_eq ct_set_error_def [of _ c] same_but_error_def pulse_error_def
      split: if_splits list.splits)

lemma query_monitor_frame:
  assumes "query_monitor e sink c = (c', v)"
  shows "same_but_error c c'" and "v = None \<Longrightarrow> c_str (ct_error c') \<noteq> []" and "v \<noteq> None \<Longrightarrow> c' = c"
  using assms sink_results_message [of _ "qe_calls e"]
  by (auto simp: query_monitor_eq ct_set_error_def [of _ c] same_but_error_def timed_out_sink_def pulse_error_def
      split: if_splits list.splits)

lemma resolve_target_frame:
  assumes "resolve_target e req c = (c', t)"
  shows "same_but_error c c'" and "t = None \<Longrightarrow> c_str (ct_error c') \<noteq> []"
proof -
  have "same_but_error c c' \<and> (t = None \<longrightarrow> c_str (ct_error c') \<noteq> [])"
    using assms
    by (auto simp: resolve_target_def Let_def split: if_splits option.splits prod.splits
        dest: query_default_sink_frame query_monitor_frame
        intro: same_but_error_trans same_but_error_set_after)
  then show "same_but_error c c'" "t = None \<Longrightarrow> c_str (ct_error c') \<noteq> []" by simp_all
qed

subsection \<open>Resolution against a server\<close>

text \<open>
  A server as its clients see it: its default sink, if any, and the sinks it knows, each with its
  monitor source, if any. \<open>serves sv e\<close>: the answers \<open>e\<close> are those of \<open>sv\<close>, given in time; after
  the first result callback anything may follow.
\<close>

record server =
  sv_default :: "string option"
  sv_sinks :: "string \<Rightarrow> string option option"

definition answers_default :: "server \<Rightarrow> server_info query_env \<Rightarrow> bool" where
  "answers_default sv q \<longleftrightarrow> qe_issued q \<and> (\<exists>rest. qe_calls q = Some (sv_default sv) # rest)"

definition answers_monitor :: "server \<Rightarrow> string \<Rightarrow> sink_info query_env \<Rightarrow> bool" where
  "answers_monitor sv sink q \<longleftrightarrow> qe_issued q \<and>
     (\<exists>i rest. qe_calls q = i # rest \<and>
        (case sv_sinks sv sink of
           None \<Rightarrow> si_eol i < 0
         | Some m \<Rightarrow> si_eol i = 0 \<and> si_info i = Some m))"

definition serves :: "server \<Rightarrow> resolve_env \<Rightarrow> bool" where
  "serves sv e \<longleftrightarrow> answers_default sv (re_default e) \<and>
     (\<forall>sink. answers_monitor sv sink (re_monitor e sink))"

text \<open>What resolution should give: the requested sink or else a non-empty default, with its monitor.\<close>

definition resolve_spec :: "server \<Rightarrow> string \<Rightarrow> target_t option" where
  "resolve_spec sv req =
     Option.bind (if req = [] then (case sv_default sv of Some (c # cs) \<Rightarrow> Some (c # cs) | _ \<Rightarrow> None)
                  else Some req)
       (\<lambda>sink. case sv_sinks sv sink of
                 Some (Some m) \<Rightarrow> Some \<lparr>tg_sink = sink, tg_monitor = m\<rparr>
               | _ \<Rightarrow> None)"

lemma query_default_sink_serves:
  "answers_default sv q \<Longrightarrow> snd (query_default_sink q c) = sv_default sv"
  by (auto simp: answers_default_def query_default_sink_eq server_info_result_def failure_def
      query_result_new_def split: option.splits)

lemma query_monitor_serves:
  "answers_monitor sv sink q \<Longrightarrow>
     snd (query_monitor q sink c) = (case sv_sinks sv sink of Some (Some m) \<Rightarrow> Some m | _ \<Rightarrow> None)"
  by (auto simp: answers_monitor_def query_monitor_eq sink_info_result_def failure_def
      query_result_new_def map_filter_simps split: option.splits)

lemma resolve_target_serves:
  assumes "serves sv e" "ct_ctx c" "control_ready c"
  shows "snd (resolve_target e req c) = resolve_spec sv req"
proof -
  have m: "answers_monitor sv sink (re_monitor e sink)" for sink
    using assms(1) by (simp add: serves_def)
  have mon: "\<exists>c'. query_monitor (re_monitor e s) s b =
      (c', case sv_sinks sv s of Some (Some m) \<Rightarrow> Some m | _ \<Rightarrow> None)" for b s
    using query_monitor_serves [OF m [of s], of b] by (cases "query_monitor (re_monitor e s) s b") auto
  obtain c1 where d: "query_default_sink (re_default e) c = (c1, sv_default sv)"
    using query_default_sink_serves [of sv "re_default e" c] assms(1)
    by (cases "query_default_sink (re_default e) c") (auto simp: serves_def)
  have last: "snd (case query_monitor (re_monitor e s) s b of
      (c2, None) \<Rightarrow> (c2, None) | (c2, Some monitor) \<Rightarrow> (c2, Some \<lparr>tg_sink = s, tg_monitor = monitor\<rparr>))
    = (case sv_sinks sv s of Some (Some m) \<Rightarrow> Some \<lparr>tg_sink = s, tg_monitor = m\<rparr> | _ \<Rightarrow> None)" for b s
    using mon [of s b] by (auto split: option.splits)
  show ?thesis
    using assms(2,3)
    by (auto simp: resolve_target_def resolve_spec_def d last Let_def neq_Nil_conv
        split: option.splits list.splits)
qed

subsection \<open>Connection life cycle\<close>

text \<open>The state callback only ever raises flags.\<close>

lemma state_callback_mono:
  "ct_failed c \<Longrightarrow> ct_failed (state_callback st c)"
  "ct_terminated c \<Longrightarrow> ct_terminated (state_callback st c)"
  "ct_ctx (state_callback st c) = ct_ctx c"
  "ct_mainloop (state_callback st c) = ct_mainloop c"
  "ct_thread (state_callback st c) = ct_thread c"
  "ct_error (state_callback st c) = ct_error c"
  by (auto simp: state_callback_def split: pa_context_state.splits)

lemma state_callbacks:
  "ct_ready (fold state_callback sts c) \<longleftrightarrow> ct_ready c \<or> CtxReady \<in> set sts"
  "ct_failed (fold state_callback sts c) \<longleftrightarrow> ct_failed c \<or> CtxFailed \<in> set sts"
  "ct_terminated (fold state_callback sts c) \<longleftrightarrow> ct_terminated c \<or> CtxTerminated \<in> set sts"
  "ct_ctx (fold state_callback sts c) = ct_ctx c"
  "ct_mainloop (fold state_callback sts c) = ct_mainloop c"
  "ct_thread (fold state_callback sts c) = ct_thread c"
  "ct_error (fold state_callback sts c) = ct_error c"
  by (induction sts arbitrary: c) (auto simp: state_callback_def split: pa_context_state.splits)

lemma ct_set_error_sel [simp]:
  "ct_ready (ct_set_error m c) = ct_ready c" "ct_failed (ct_set_error m c) = ct_failed c"
  "ct_terminated (ct_set_error m c) = ct_terminated c" "ct_ctx (ct_set_error m c) = ct_ctx c"
  "ct_mainloop (ct_set_error m c) = ct_mainloop c" "ct_thread (ct_set_error m c) = ct_thread c"
  by (simp_all add: ct_set_error_def)

lemma control_init_ok:
  assumes "control_init e c = Inr (c', WEBA_OK)"
  shows "ct_ready c'" "ct_ctx c'" "ct_mainloop c'" "ct_thread c'" "ct_error c' = ct_error c"
    "\<not> ct_thread c"
  using assms
  by (auto simp: control_init_def Let_def state_callbacks status_defs split: if_splits)

lemma control_init_status:
  "control_init e c = Inr (c', st) \<Longrightarrow> st = WEBA_OK \<or> (st = WEBA_ERR_PULSE \<and> c_str (ct_error c') \<noteq> [])"
  by (auto simp: control_init_def Let_def pulse_error_def split: if_splits)

text \<open>A loop thread that is joinable stays so, and no connection succeeds beside it.\<close>

lemma control_init_thread:
  assumes "control_init e c = Inr (c', st)"
  shows "st = WEBA_OK \<Longrightarrow> \<not> ct_thread c" "ct_thread c \<Longrightarrow> ct_thread c'"
  using assms by (auto simp: control_init_def Let_def state_callbacks status_defs split: if_splits)

text \<open>A failed or terminated connection is never forgotten.\<close>

lemma control_init_sticky:
  assumes "control_init e c = Inr (c', st)"
  shows "ct_failed c \<Longrightarrow> ct_failed c'" and "ct_terminated c \<Longrightarrow> ct_terminated c'"
  using assms by (auto simp: control_init_def Let_def state_callbacks split: if_splits)

lemma control_init_fault_iff:
  "control_init e c = Inl f \<longleftrightarrow>
     ce_mainloop e \<and> ce_context e \<and> 0 \<le> ce_connect_rc e \<and>
     (if ce_spawn e then ct_thread c \<and> f = Terminate else f = SystemError)"
  by (auto simp: control_init_def Let_def state_callbacks split: if_splits)

text \<open>\<open>error()\<close> copies the message under its lock; the destructor is a shutdown.\<close>

definition control_error :: "control \<Rightarrow> string" where
  [simp]: "control_error c = ct_error c"

definition control_destroy :: "pa_context_state list \<Rightarrow> control \<Rightarrow> control" where
  "control_destroy states c = control_shutdown states c"

lemma control_shutdown_state:
  "ct_thread (control_shutdown sts c) = False" "ct_ctx (control_shutdown sts c) = False"
  "ct_mainloop (control_shutdown sts c) = False" "ct_ready (control_shutdown sts c) = False"
  "ct_error (control_shutdown sts c) = ct_error c"
  "ct_terminated (control_shutdown sts c) \<longleftrightarrow>
     ct_terminated c \<or> ct_ctx c \<and> CtxTerminated \<in> set sts"
  "ct_failed (control_shutdown sts c) \<longleftrightarrow> ct_failed c \<or> ct_ctx c \<and> CtxFailed \<in> set sts"
  by (simp_all add: control_shutdown_def Let_def state_callbacks)

lemma control_shutdown_idem:
  "control_shutdown sts' (control_shutdown sts c) = control_shutdown sts c"
  by (simp add: control_shutdown_def Let_def state_callbacks)

lemma resolve_unready: "\<not> control_ready c \<Longrightarrow> snd (resolve_target e req c) = None"
  by (simp add: resolve_target_def)

end
