(* ===== verification/Pulse_Mic.thy ===== *)
theory Pulse_Mic
  imports Abi
begin

text \<open>
  The recording stream of \<open>src/pulse_mic.h\<close> and \<open>src/pulse_mic.cpp\<close>: the format tables, the
  request handed to \<open>pa_simple_new()\<close>, and reading one frame. \<open>pa_simple_new()\<close>,
  \<open>pa_simple_read()\<close> and \<open>pa_strerror()\<close> are arguments.
\<close>

subsection \<open>libpulse data the code fills in\<close>

datatype pa_sample_format = PA_SAMPLE_FLOAT32LE | PA_SAMPLE_S16LE | PA_SAMPLE_S32LE

datatype pa_channel_position =
    CHANNEL_POSITION_MONO
  | CHANNEL_POSITION_FRONT_LEFT | CHANNEL_POSITION_FRONT_RIGHT | CHANNEL_POSITION_FRONT_CENTER
  | CHANNEL_POSITION_LFE | CHANNEL_POSITION_REAR_LEFT | CHANNEL_POSITION_REAR_RIGHT
  | CHANNEL_POSITION_SIDE_LEFT | CHANNEL_POSITION_SIDE_RIGHT

record pa_sample_spec =
  ss_format :: pa_sample_format
  ss_rate :: u32
  ss_channels :: "8 word"

text \<open>\<open>cm_map\<close> holds the entries the code writes; the rest of the array stays zero.\<close>

record pa_channel_map =
  cm_channels :: "8 word"
  cm_map :: "pa_channel_position list"

record pa_buffer_attr =
  ba_maxlength :: u32
  ba_tlength :: u32
  ba_prebuf :: u32
  ba_minreq :: u32
  ba_fragsize :: u32

subsection \<open>Format tables\<close>

record mic_format_t =
  mf_sample_rate :: u32
  mf_channels :: u32
  mf_format :: weba_sample_format
  mf_frame_samples :: u32

definition kStereoMap :: "pa_channel_position list" where
  "kStereoMap = [CHANNEL_POSITION_FRONT_LEFT, CHANNEL_POSITION_FRONT_RIGHT]"

definition kSurround51Map :: "pa_channel_position list" where
  "kSurround51Map =
     [CHANNEL_POSITION_FRONT_LEFT, CHANNEL_POSITION_FRONT_RIGHT, CHANNEL_POSITION_FRONT_CENTER,
      CHANNEL_POSITION_LFE, CHANNEL_POSITION_REAR_LEFT, CHANNEL_POSITION_REAR_RIGHT]"

definition kSurround71Map :: "pa_channel_position list" where
  "kSurround71Map =
     [CHANNEL_POSITION_FRONT_LEFT, CHANNEL_POSITION_FRONT_RIGHT, CHANNEL_POSITION_FRONT_CENTER,
      CHANNEL_POSITION_LFE, CHANNEL_POSITION_REAR_LEFT, CHANNEL_POSITION_REAR_RIGHT,
      CHANNEL_POSITION_SIDE_LEFT, CHANNEL_POSITION_SIDE_RIGHT]"

text \<open>
  \<open>std::copy_n(source, channels, map.map)\<close>: past the end of the source table it would read out of
  bounds, which the lemma \<open>channel_map_table\<close> excludes.
\<close>

definition build_channel_map :: "u32 \<Rightarrow> pa_channel_map option" where
  "build_channel_map channels =
     (if channels = 1 then Some \<lparr>cm_channels = 1, cm_map = [CHANNEL_POSITION_MONO]\<rparr>
      else
        case (if channels = 2 then Some kStereoMap
              else if channels = 6 then Some kSurround51Map
              else if channels = 8 then Some kSurround71Map
              else None) of
          None \<Rightarrow> None
        | Some source \<Rightarrow>
            Some \<lparr>cm_channels = ucast channels, cm_map = take (unat channels) source\<rparr>)"

definition map_sample_format :: "weba_sample_format \<Rightarrow> (pa_sample_format \<times> u32) option" where
  "map_sample_format format =
     (case format of
        WEBA_SAMPLE_F32LE \<Rightarrow> Some (PA_SAMPLE_FLOAT32LE, 4)
      | WEBA_SAMPLE_S16LE \<Rightarrow> Some (PA_SAMPLE_S16LE, 2)
      | WEBA_SAMPLE_S32LE \<Rightarrow> Some (PA_SAMPLE_S32LE, 4)
      | SampleOther _ \<Rightarrow> None)"

definition bytes_per_sample_of :: "weba_sample_format \<Rightarrow> nat" where
  "bytes_per_sample_of format =
     (case format of
        WEBA_SAMPLE_S16LE \<Rightarrow> 2
      | WEBA_SAMPLE_F32LE \<Rightarrow> 4
      | WEBA_SAMPLE_S32LE \<Rightarrow> 4
      | SampleOther _ \<Rightarrow> 0)"

definition channels_supported :: "u32 \<Rightarrow> bool" where
  "channels_supported channels \<longleftrightarrow> channels = 1 \<or> channels = 2 \<or> channels = 6 \<or> channels = 8"

definition mic_frame_bytes :: "mic_format_t \<Rightarrow> nat" where
  "mic_frame_bytes f =
     size_mul (size_mul (unat (mf_frame_samples f)) (unat (mf_channels f)))
       (bytes_per_sample_of (mf_format f))"

subsection \<open>Opening and reading\<close>

text \<open>
  What \<open>pa_simple_new()\<close> is asked for, beside its constant arguments. It answers with an error
  status or with a stream, named by a number.
\<close>

record open_request =
  or_source :: string
  or_spec :: pa_sample_spec
  or_map :: pa_channel_map
  or_attr :: pa_buffer_attr

type_synonym simple_new = "open_request \<Rightarrow> int + nat"

text \<open>A \<open>mic_t\<close> is its stream pointer, \<open>None\<close> when null.\<close>

type_synonym mic = "nat option"

definition mic_open ::
  "simple_new \<Rightarrow> (int \<Rightarrow> string) \<Rightarrow> string \<Rightarrow> mic_format_t \<Rightarrow> string + mic" where
  "mic_open pa_simple_new strerror monitor f =
     (if monitor = [] then Inl ''empty monitor source name''
      else if \<not> channels_supported (mf_channels f) then
        Inl (''unsupported channel count '' @ nat_dec (unat (mf_channels f))
             @ '' (expected 1, 2, 6 or 8)'')
      else if mf_frame_samples f = 0 then Inl ''frame size must not be zero''
      else
        case map_sample_format (mf_format f) of
          None \<Rightarrow> Inl ''unsupported sample format''
        | Some (pa_format, bytes_per_sample) \<Rightarrow>
            let spec = \<lparr>ss_format = pa_format, ss_rate = mf_sample_rate f,
                        ss_channels = ucast (mf_channels f)\<rparr>
            in case build_channel_map (mf_channels f) of
                 None \<Rightarrow> Inl (''no channel map for '' @ nat_dec (unat (mf_channels f)) @ '' channels'')
               | Some channel_map \<Rightarrow>
                   let fragsize = mf_frame_samples f * mf_channels f * bytes_per_sample;
                       attr = \<lparr>ba_maxlength = -1, ba_tlength = -1, ba_prebuf = -1, ba_minreq = -1,
                               ba_fragsize = fragsize\<rparr>
                   in case pa_simple_new \<lparr>or_source = c_str monitor, or_spec = spec,
                                          or_map = channel_map, or_attr = attr\<rparr> of
                        Inl status \<Rightarrow> Inl (''pa_simple_new() failed: '' @ strerror status)
                      | Inr stream \<Rightarrow> Inr (Some stream))"

text \<open>
  \<open>pa_simple_read\<close> blocks until it fails with a status or has filled the \<open>n\<close> bytes of the buffer;
  \<open>answer\<close> is the status, or what byte \<open>i\<close> of the buffer holds afterwards.
\<close>

type_synonym read_answer = "int + (nat \<Rightarrow> byte)"

definition mic_read ::
  "read_answer \<Rightarrow> (int \<Rightarrow> string) \<Rightarrow> mic \<Rightarrow> nat \<Rightarrow> string + byte list" where
  "mic_read answer strerror m n =
     (case m of
        None \<Rightarrow> Inl ''recording stream is not open''
      | Some _ \<Rightarrow>
          (case answer of
             Inl status \<Rightarrow> Inl (''pa_simple_read() failed: '' @ strerror status)
           | Inr data \<Rightarrow> Inr (map data [0..<n])))"

subsection \<open>Lemmas\<close>

lemma channels_supported_unat: "channels_supported c \<longleftrightarrow> unat c \<in> {1, 2, 6, 8}"
  by (auto simp: channels_supported_def word_unat_eq_iff)

lemma bytes_per_sample_cases: "bytes_per_sample_of f \<in> {0, 2, 4}"
  by (cases f) (simp_all add: bytes_per_sample_of_def)

lemma map_sample_format_bytes:
  "map_sample_format f = Some (p, b) \<Longrightarrow> unat b = bytes_per_sample_of f \<and> b \<noteq> 0"
  by (cases f) (auto simp: map_sample_format_def bytes_per_sample_of_def)

lemma map_sample_format_None_iff: "map_sample_format f = None \<longleftrightarrow> bytes_per_sample_of f = 0"
  by (cases f) (auto simp: map_sample_format_def bytes_per_sample_of_def)

lemma build_channel_map_cases:
  "build_channel_map c = Some m \<Longrightarrow> channels_supported c \<and> unat (cm_channels m) = unat c
     \<and> length (cm_map m) = unat c \<and> distinct (cm_map m)"
  by (auto simp: build_channel_map_def channels_supported_def kStereoMap_def kSurround51Map_def
      kSurround71Map_def split: if_splits)

lemma build_channel_map_None_iff: "build_channel_map c = None \<longleftrightarrow> \<not> channels_supported c"
  by (auto simp: build_channel_map_def channels_supported_def)

text \<open>The tables are long enough for the copy.\<close>

lemma channel_map_table:
  "length kStereoMap = 2" "length kSurround51Map = 6" "length kSurround71Map = 8"
  by (simp_all add: kStereoMap_def kSurround51Map_def kSurround71Map_def)

text \<open>With a supported format, the size of a frame in bytes never wraps.\<close>

lemma frame_product_bound:
  assumes "channels_supported c" "b \<in> {0, 2, 4 :: nat}"
  shows "unat (n :: u32) * unat c * b < 2 ^ 37"
proof -
  have "unat c \<le> 8" "b \<le> 4" using assms by (auto simp: channels_supported_unat)
  then have "unat n * unat c * b \<le> unat n * 8 * 4"
    by (intro mult_le_mono) auto
  also have "\<dots> < 2 ^ 37" using unat_u32_less [of n] by simp
  finally show ?thesis .
qed

lemma frame_product_no_wrap:
  assumes "channels_supported c" "b \<in> {0, 2, 4 :: nat}"
  shows "size_mul (size_mul (unat (n :: u32)) (unat c)) b = unat n * unat c * b"
proof -
  have "unat c \<le> 8" using assms(1) by (auto simp: channels_supported_unat)
  then have "unat n * unat c \<le> unat n * 8" by simp
  also have "\<dots> < size_mod" using unat_u32_less [of n] by (simp add: size_mod_def)
  finally have "unat n * unat c < size_mod" .
  moreover have "unat n * unat c * b < size_mod"
    using frame_product_bound [OF assms, of n] by (simp add: size_mod_def)
  ultimately show ?thesis by simp
qed

lemma mic_frame_bytes_eq:
  "channels_supported (mf_channels f) \<Longrightarrow>
     mic_frame_bytes f = unat (mf_frame_samples f) * unat (mf_channels f) * bytes_per_sample_of (mf_format f)"
  unfolding mic_frame_bytes_def using bytes_per_sample_cases by (intro frame_product_no_wrap) auto

text \<open>The fragment size is a 32-bit product: the frame size modulo \<open>2 ^ 32\<close>.\<close>

lemma fragsize_eq:
  assumes "channels_supported (mf_channels f)" "map_sample_format (mf_format f) = Some (p, b)"
  shows "unat (mf_frame_samples f * mf_channels f * b) = mic_frame_bytes f mod 2 ^ 32"
  using map_sample_format_bytes [OF assms(2)] mic_frame_bytes_eq [OF assms(1)]
  by (simp add: unat_word_ariths mod_mult_left_eq)

text \<open>A valid format reaches \<open>pa_simple_new()\<close> with exactly this request.\<close>

definition mic_format_valid :: "mic_format_t \<Rightarrow> bool" where
  "mic_format_valid f \<longleftrightarrow> channels_supported (mf_channels f) \<and> mf_frame_samples f \<noteq> 0 \<and>
     bytes_per_sample_of (mf_format f) \<noteq> 0"

lemma mic_open_invalid:
  "\<not> mic_format_valid f \<or> monitor = [] \<Longrightarrow> \<exists>msg. mic_open new strerr monitor f = Inl msg \<and> msg \<noteq> []"
  using map_sample_format_None_iff [of "mf_format f"]
  by (auto simp: mic_open_def mic_format_valid_def split: option.splits)

lemma mic_open_valid:
  assumes "mic_format_valid f" "monitor \<noteq> []"
  obtains spec cmap attr p b where
    "map_sample_format (mf_format f) = Some (p, b)"
    "spec = \<lparr>ss_format = p, ss_rate = mf_sample_rate f, ss_channels = ucast (mf_channels f)\<rparr>"
    "build_channel_map (mf_channels f) = Some cmap"
    "unat (ba_fragsize attr) = mic_frame_bytes f mod 2 ^ 32"
    "mic_open new strerr monitor f =
       (case new \<lparr>or_source = c_str monitor, or_spec = spec, or_map = cmap, or_attr = attr\<rparr> of
          Inl status \<Rightarrow> Inl (''pa_simple_new() failed: '' @ strerr status)
        | Inr stream \<Rightarrow> Inr (Some stream))"
proof -
  have ch: "channels_supported (mf_channels f)" and nz: "mf_frame_samples f \<noteq> 0"
    using assms(1) by (simp_all add: mic_format_valid_def)
  obtain p b where pb: "map_sample_format (mf_format f) = Some (p, b)"
    using assms(1) map_sample_format_None_iff [of "mf_format f"]
    by (cases "map_sample_format (mf_format f)") (auto simp: mic_format_valid_def)
  obtain cmap where cm: "build_channel_map (mf_channels f) = Some cmap"
    using ch build_channel_map_None_iff [of "mf_channels f"] by (cases "build_channel_map (mf_channels f)") auto
  show ?thesis
    by (rule that [OF pb refl cm, of "\<lparr>ba_maxlength = -1, ba_tlength = -1, ba_prebuf = -1,
          ba_minreq = -1, ba_fragsize = mf_frame_samples f * mf_channels f * b\<rparr>"])
      (use assms(2) ch nz pb cm fragsize_eq [OF ch pb] in \<open>simp_all add: mic_open_def Let_def\<close>)
qed

end
