(* ===== verification/Handle.thy ===== *)
theory Handle
  imports Frame_Queue Frame_Period Pulse_Control Pulse_Mic
begin

text \<open>
  The object behind \<open>weba_capture\<close> in \<open>src/capture.cpp\<close>: its fields, its small member functions,
  its creation from a configuration, and the entry points that only read it. The invariant says
  what creation establishes and every other operation relies on: a valid format, and a queue whose
  slots are exactly one frame.
\<close>

subsection \<open>The object\<close>

text \<open>
  \<open>h_thread\<close> is whether \<open>thread\<close> is joinable. The time points \<open>h_next_sink_check\<close> and
  \<open>h_next_deadline\<close> are nanoseconds of the steady clock. The mutexes and the condition variable
  have no field: each operation below is what one critical section does.
\<close>

record weba_capture =
  h_sample_rate :: u32
  h_channels :: u32
  h_frame_samples :: u32
  h_format :: weba_sample_format
  h_requested_sink :: string
  h_queue_frames :: u32
  h_fixed_rate :: bool
  h_sink_recheck_ms :: u32
  h_current_monitor :: string
  h_next_sink_check :: ns
  h_control :: control
  h_queue :: frame_queue
  h_thread :: bool
  h_running :: bool
  h_stop_requested :: bool
  h_pending_flags :: u32
  h_format_info :: weba_format_info
  h_error :: string
  h_next_deadline :: ns
  h_deadline_valid :: bool
  h_thread_abandoned :: bool

definition weba_capture_new :: weba_capture where
  "weba_capture_new =
     \<lparr>h_sample_rate = kDefaultSampleRate, h_channels = kDefaultChannels,
      h_frame_samples = kDefaultFrameSamples, h_format = WEBA_SAMPLE_F32LE,
      h_requested_sink = '''', h_queue_frames = kDefaultQueueFrames, h_fixed_rate = True,
      h_sink_recheck_ms = kDefaultSinkRecheckMs, h_current_monitor = '''', h_next_sink_check = 0,
      h_control = control_new, h_queue = queue_new, h_thread = False, h_running = False,
      h_stop_requested = False, h_pending_flags = 0,
      h_format_info = \<lparr>fi_sample_rate = 0, fi_channels = 0, fi_frame_samples = 0,
        fi_format = WEBA_SAMPLE_F32LE, fi_sink_name = '''', fi_monitor_name = ''''\<rparr>,
      h_error = '''', h_next_deadline = 0, h_deadline_valid = False, h_thread_abandoned = False\<rparr>"

definition frame_bytes :: "weba_capture \<Rightarrow> nat" where
  "frame_bytes c =
     (let bytes_per_sample =
        (case h_format c of
           WEBA_SAMPLE_S16LE \<Rightarrow> 2
         | WEBA_SAMPLE_F32LE \<Rightarrow> 4
         | WEBA_SAMPLE_S32LE \<Rightarrow> 4
         | SampleOther _ \<Rightarrow> 0)
      in size_mul (size_mul (unat (h_frame_samples c)) (unat (h_channels c))) bytes_per_sample)"

definition set_error :: "string \<Rightarrow> weba_capture \<Rightarrow> weba_capture" where
  "set_error msg c = c\<lparr>h_error := msg\<rparr>"

definition get_error :: "weba_capture \<Rightarrow> string" where
  [simp]: "get_error c = h_error c"

text \<open>\<open>snprintf\<close> into 256 characters keeps 255.\<close>

definition fixed_name :: "string \<Rightarrow> string" where
  "fixed_name s = take 255 (c_str s)"

definition publish_format :: "target_t \<Rightarrow> weba_capture \<Rightarrow> weba_capture" where
  "publish_format target c = c\<lparr>h_format_info :=
     \<lparr>fi_sample_rate = h_sample_rate c, fi_channels = h_channels c,
      fi_frame_samples = h_frame_samples c, fi_format = h_format c,
      fi_sink_name = fixed_name (tg_sink target),
      fi_monitor_name = fixed_name (tg_monitor target)\<rparr>\<rparr>"

definition mic_format_of :: "weba_capture \<Rightarrow> mic_format_t" where
  "mic_format_of c = \<lparr>mf_sample_rate = h_sample_rate c, mf_channels = h_channels c,
     mf_format = h_format c, mf_frame_samples = h_frame_samples c\<rparr>"

subsection \<open>Creation\<close>

definition or_default :: "u32 \<Rightarrow> u32 \<Rightarrow> u32" where
  "or_default v d = (if v \<noteq> 0 then v else d)"

definition apply_config :: "weba_config \<Rightarrow> weba_capture \<Rightarrow> weba_capture" where
  "apply_config cfg c =
     c\<lparr>h_sample_rate := or_default (cfg_sample_rate cfg) kDefaultSampleRate,
       h_channels := or_default (cfg_channels cfg) kDefaultChannels,
       h_frame_samples := or_default (cfg_frame_samples cfg) kDefaultFrameSamples,
       h_format := cfg_format cfg,
       h_requested_sink := (case cfg_sink cfg of Some s \<Rightarrow> c_str s | None \<Rightarrow> ''''),
       h_queue_frames := or_default (cfg_ring_frames cfg) kDefaultQueueFrames,
       h_fixed_rate := (cfg_fixed_rate cfg \<noteq> 0),
       h_sink_recheck_ms := or_default (cfg_sink_recheck_ms cfg) kDefaultSinkRecheckMs\<rparr>"

definition configured :: "weba_config option \<Rightarrow> weba_capture" where
  "configured cfg = (case cfg of None \<Rightarrow> weba_capture_new | Some g \<Rightarrow> apply_config g weba_capture_new)"

text \<open>
  \<open>out\<close>: the pointer is not null; \<open>handle_ok\<close>: \<open>new (std::nothrow)\<close> succeeds; \<open>alloc_ok\<close>: as for
  the queue. The result is the status and what \<open>*out\<close> holds.
\<close>

definition weba_capture_create ::
  "bool \<Rightarrow> bool \<Rightarrow> (nat \<Rightarrow> bool) \<Rightarrow> weba_config option \<Rightarrow> (int \<times> weba_capture option) outcome" where
  "weba_capture_create out handle_ok alloc_ok cfg =
     (if \<not> out then Inr (WEBA_ERR_INVAL, None)
      else if \<not> handle_ok then Inr (WEBA_ERR_NOMEM, None)
      else
        let c = configured cfg in
        if h_sample_rate c = 0 \<or> h_frame_samples c = 0 \<or> h_channels c = 0
        then Inr (WEBA_ERR_INVAL, None)
        else if \<not> channels_supported (h_channels c) then Inr (WEBA_ERR_FORMAT, None)
        else if h_format c \<noteq> WEBA_SAMPLE_F32LE \<and> h_format c \<noteq> WEBA_SAMPLE_S16LE \<and>
                h_format c \<noteq> WEBA_SAMPLE_S32LE
        then Inr (WEBA_ERR_FORMAT, None)
        else
          sum_bind (queue_init alloc_ok (frame_bytes c) (unat (h_queue_frames c)) (h_queue c))
            (\<lambda>(q, ok). if \<not> ok then Inr (WEBA_ERR_NOMEM, None)
                       else Inr (WEBA_OK, Some (c\<lparr>h_queue := q\<rparr>))))"

subsection \<open>Reading the handle\<close>

definition weba_capture_get_format ::
  "weba_capture option \<Rightarrow> bool \<Rightarrow> int \<times> weba_format_info option" where
  "weba_capture_get_format c out =
     (case c of
        None \<Rightarrow> (WEBA_ERR_INVAL, None)
      | Some h \<Rightarrow> if \<not> out then (WEBA_ERR_INVAL, None) else (WEBA_OK, Some (h_format_info h)))"

definition weba_capture_is_running :: "weba_capture option \<Rightarrow> int" where
  "weba_capture_is_running c = (case c of Some h \<Rightarrow> if h_running h then 1 else 0 | None \<Rightarrow> 0)"

text \<open>
  \<open>weba_capture_last_error()\<close> returns a pointer, to a static empty string or to the calling
  thread's buffer, which it overwrites; \<open>read_ptr\<close> is what the pointer shows while the buffer holds
  the given text.
\<close>

datatype error_ptr = StaticEmpty | ThreadBuffer

definition weba_capture_last_error :: "weba_capture option \<Rightarrow> string \<Rightarrow> error_ptr \<times> string" where
  "weba_capture_last_error c buffer =
     (case c of None \<Rightarrow> (StaticEmpty, buffer) | Some h \<Rightarrow> (ThreadBuffer, get_error h))"

definition read_ptr :: "error_ptr \<Rightarrow> string \<Rightarrow> string" where
  "read_ptr p buffer = (case p of StaticEmpty \<Rightarrow> '''' | ThreadBuffer \<Rightarrow> c_str buffer)"

subsection \<open>The invariant\<close>

definition format_wf :: "weba_capture \<Rightarrow> bool" where
  "format_wf c \<longleftrightarrow> h_sample_rate c \<noteq> 0 \<and> mic_format_valid (mic_format_of c)"

definition handle_wf :: "weba_capture \<Rightarrow> bool" where
  "handle_wf c \<longleftrightarrow> format_wf c \<and> queue_inv (h_queue c) \<and> slot_bytes (h_queue c) = frame_bytes c"

lemma frame_bytes_mic: "frame_bytes c = mic_frame_bytes (mic_format_of c)"
  by (simp add: frame_bytes_def mic_frame_bytes_def mic_format_of_def bytes_per_sample_of_def)

lemma frame_bytes_eq:
  "channels_supported (h_channels c) \<Longrightarrow>
     frame_bytes c = unat (h_frame_samples c) * unat (h_channels c) * bytes_per_sample_of (h_format c)"
  by (simp add: frame_bytes_mic mic_frame_bytes_eq mic_format_of_def)

lemma frame_bytes_pos: "mic_format_valid (mic_format_of c) \<Longrightarrow> 0 < frame_bytes c"
  by (auto simp: mic_format_valid_def mic_format_of_def frame_bytes_eq channels_supported_unat
      unat_gt_0)

lemma frame_bytes_less:
  assumes "mic_format_valid (mic_format_of c)"
  shows "frame_bytes c < 2 ^ 37"
proof -
  have sup: "channels_supported (h_channels c)"
    using assms by (simp add: mic_format_valid_def mic_format_of_def)
  show ?thesis
    unfolding frame_bytes_eq [OF sup] using sup bytes_per_sample_cases by (rule frame_product_bound)
qed

text \<open>Neither depends on what the threads write while capturing.\<close>

lemma frame_bytes_frame [simp]:
  "frame_bytes (c\<lparr>h_control := a\<rparr>) = frame_bytes c"
  "frame_bytes (c\<lparr>h_current_monitor := b\<rparr>) = frame_bytes c"
  "frame_bytes (c\<lparr>h_next_sink_check := d\<rparr>) = frame_bytes c"
  "frame_bytes (c\<lparr>h_running := e\<rparr>) = frame_bytes c"
  "frame_bytes (c\<lparr>h_stop_requested := e\<rparr>) = frame_bytes c"
  "frame_bytes (c\<lparr>h_pending_flags := f\<rparr>) = frame_bytes c"
  "frame_bytes (c\<lparr>h_format_info := g\<rparr>) = frame_bytes c"
  "frame_bytes (c\<lparr>h_error := h\<rparr>) = frame_bytes c"
  "frame_bytes (c\<lparr>h_next_deadline := d\<rparr>) = frame_bytes c"
  "frame_bytes (c\<lparr>h_deadline_valid := e\<rparr>) = frame_bytes c"
  "frame_bytes (c\<lparr>h_thread := e\<rparr>) = frame_bytes c"
  "frame_bytes (c\<lparr>h_thread_abandoned := e\<rparr>) = frame_bytes c"
  "frame_bytes (c\<lparr>h_queue := q\<rparr>) = frame_bytes c"
  "frame_bytes (set_error h c) = frame_bytes c"
  "frame_bytes (publish_format t c) = frame_bytes c"
  by (simp_all add: frame_bytes_def set_error_def publish_format_def)

lemma handle_wf_frame [simp]:
  "handle_wf (c\<lparr>h_control := a\<rparr>) = handle_wf c"
  "handle_wf (c\<lparr>h_current_monitor := b\<rparr>) = handle_wf c"
  "handle_wf (c\<lparr>h_next_sink_check := d\<rparr>) = handle_wf c"
  "handle_wf (c\<lparr>h_running := e\<rparr>) = handle_wf c"
  "handle_wf (c\<lparr>h_stop_requested := e\<rparr>) = handle_wf c"
  "handle_wf (c\<lparr>h_pending_flags := f\<rparr>) = handle_wf c"
  "handle_wf (c\<lparr>h_format_info := g\<rparr>) = handle_wf c"
  "handle_wf (c\<lparr>h_error := h\<rparr>) = handle_wf c"
  "handle_wf (c\<lparr>h_next_deadline := d\<rparr>) = handle_wf c"
  "handle_wf (c\<lparr>h_deadline_valid := e\<rparr>) = handle_wf c"
  "handle_wf (c\<lparr>h_thread := e\<rparr>) = handle_wf c"
  "handle_wf (c\<lparr>h_thread_abandoned := e\<rparr>) = handle_wf c"
  "handle_wf (set_error h c) = handle_wf c"
  "handle_wf (publish_format t c) = handle_wf c"
  by (simp_all add: handle_wf_def format_wf_def mic_format_of_def set_error_def publish_format_def)

lemma handle_wf_queue:
  "handle_wf c \<Longrightarrow> queue_inv q \<Longrightarrow> slot_bytes q = slot_bytes (h_queue c) \<Longrightarrow> handle_wf (c\<lparr>h_queue := q\<rparr>)"
  by (simp add: handle_wf_def format_wf_def mic_format_of_def)

text \<open>Which configurations have a valid format: the test of the code, on the effective values.\<close>

definition config_supported :: "weba_config option \<Rightarrow> bool" where
  "config_supported cfg \<longleftrightarrow>
     (case cfg of
        None \<Rightarrow> True
      | Some g \<Rightarrow> (cfg_channels g = 0 \<or> channels_supported (cfg_channels g)) \<and>
          bytes_per_sample_of (cfg_format g) \<noteq> 0)"

lemma bytes_per_sample_known:
  "bytes_per_sample_of f \<noteq> 0 \<longleftrightarrow>
     f = WEBA_SAMPLE_F32LE \<or> f = WEBA_SAMPLE_S16LE \<or> f = WEBA_SAMPLE_S32LE"
  by (cases f) (simp_all add: bytes_per_sample_of_def)

lemma or_default_nonzero: "d \<noteq> 0 \<Longrightarrow> or_default v d \<noteq> 0"
  by (simp add: or_default_def)

lemma configured_nonzero:
  "h_sample_rate (configured cfg) \<noteq> 0" "h_frame_samples (configured cfg) \<noteq> 0"
  "h_channels (configured cfg) \<noteq> 0" "h_queue_frames (configured cfg) \<noteq> 0"
  by (simp_all add: configured_def apply_config_def weba_capture_new_def or_default_nonzero
      default_defs split: option.splits)

lemma configured_supported:
  "config_supported cfg \<longleftrightarrow>
     channels_supported (h_channels (configured cfg)) \<and>
     bytes_per_sample_of (h_format (configured cfg)) \<noteq> 0"
  by (auto simp: config_supported_def configured_def apply_config_def weba_capture_new_def
      or_default_def default_defs channels_supported_def bytes_per_sample_of_def split: option.splits)

lemma configured_valid:
  "config_supported cfg \<Longrightarrow> format_wf (configured cfg)"
  using configured_nonzero [of cfg]
  by (simp add: configured_supported format_wf_def mic_format_valid_def mic_format_of_def)

lemma configured_queue [simp]: "h_queue (configured cfg) = queue_new"
  by (simp add: configured_def apply_config_def weba_capture_new_def split: option.splits)

text \<open>Creation, with every check that can fire resolved.\<close>

lemma create_eq:
  "weba_capture_create out handle_ok alloc_ok cfg =
     (if \<not> out then Inr (WEBA_ERR_INVAL, None)
      else if \<not> handle_ok then Inr (WEBA_ERR_NOMEM, None)
      else if \<not> config_supported cfg then Inr (WEBA_ERR_FORMAT, None)
      else
        let n = size_mul (unat (h_queue_frames (configured cfg))) (frame_bytes (configured cfg)) in
        if n > vector_max_size then Inl LengthError
        else if \<not> alloc_ok n then Inr (WEBA_ERR_NOMEM, None)
        else Inr (WEBA_OK, Some ((configured cfg)\<lparr>h_queue :=
          \<lparr>storage = replicate n 0, slot_bytes = frame_bytes (configured cfg),
           capacity = unat (h_queue_frames (configured cfg)), q_count = 0, read_index = 0,
           q_dropped = 0, closed = False\<rparr>\<rparr>)))"
proof (cases "out \<and> handle_ok \<and> config_supported cfg")
  case True
  then have "0 < frame_bytes (configured cfg)"
    using configured_valid [of cfg] by (simp add: format_wf_def frame_bytes_pos)
  moreover have "0 < unat (h_queue_frames (configured cfg))"
    using configured_nonzero(4) [of cfg] by (simp add: unat_gt_0)
  then have "max (unat (h_queue_frames (configured cfg))) 1 = unat (h_queue_frames (configured cfg))"
    by simp
  ultimately show ?thesis
    using True configured_nonzero [of cfg] configured_supported [of cfg]
      bytes_per_sample_known [of "h_format (configured cfg)"]
    by (auto simp: weba_capture_create_def queue_init_def Let_def)
next
  case False
  then show ?thesis
    using configured_nonzero [of cfg] configured_supported [of cfg]
      bytes_per_sample_known [of "h_format (configured cfg)"]
    by (auto simp: weba_capture_create_def Let_def)
qed

lemma create_wf:
  assumes "weba_capture_create out handle_ok alloc_ok cfg = Inr (st, Some c)"
    and no_wrap: "unat (h_queue_frames (configured cfg)) * frame_bytes (configured cfg) < 2 ^ 64"
  shows "handle_wf c" and "frames (h_queue c) = []" and "q_dropped (h_queue c) = 0"
    and "\<not> closed (h_queue c)" and "c = (configured cfg)\<lparr>h_queue := h_queue c\<rparr>"
proof -
  let ?d = "configured cfg"
  let ?n = "unat (h_queue_frames ?d) * frame_bytes ?d"
  have n: "size_mul (unat (h_queue_frames ?d)) (frame_bytes ?d) = ?n"
    using no_wrap by (simp add: size_mod_def)
  have sup: "config_supported cfg" and le: "?n \<le> vector_max_size"
    and c: "c = ?d\<lparr>h_queue := \<lparr>storage = replicate ?n 0, slot_bytes = frame_bytes ?d,
           capacity = unat (h_queue_frames ?d), q_count = 0, read_index = 0,
           q_dropped = 0, closed = False\<rparr>\<rparr>"
    using assms(1) by (auto simp: create_eq n Let_def split: if_splits)
  have valid: "format_wf ?d" by (rule configured_valid [OF sup])
  have fb: "frame_bytes c = frame_bytes ?d" by (simp add: c frame_bytes_def)
  have "format_wf c" using valid by (simp add: c format_wf_def mic_format_of_def)
  moreover have "queue_inv (h_queue c)"
    using le configured_nonzero(4) [of cfg] valid frame_bytes_pos [of ?d]
    by (simp add: c queue_inv_def ring_inv_def format_wf_def unat_gt_0 size_mod_def)
  ultimately show "handle_wf c" by (simp add: handle_wf_def fb) (simp add: c)
  show "frames (h_queue c) = []" "q_dropped (h_queue c) = 0" "\<not> closed (h_queue c)"
    "c = ?d\<lparr>h_queue := h_queue c\<rparr>"
    by (simp_all add: c frames_def)
qed

end
