(* ===== verification/Read_Frame.thy ===== *)
theory Read_Frame
  imports Handle
begin

text \<open>
  The consumer: \<open>weba_capture_read_frame()\<close> of \<open>src/capture.cpp\<close>. The checks at entry are one
  function; the loop after them is a machine whose program counter names the statements between two
  accesses to the shared handle, as for the capture thread. A step gets a reading of the steady
  clock and how long its wait has lasted.
\<close>

subsection \<open>State\<close>

datatype read_pc =
    RTop
  | RPopWait int
  | RTimeoutCheck
  | RSleep int
  | RPop
  | RFlags int
  | RAfter u32
  | RInfo
  | RReturn int

text \<open>
  \<open>rd_info\<close> is \<open>None\<close> for a null \<open>info\<close>; \<open>rd_period\<close> and the waits are in microseconds.
\<close>

record read_state =
  rd_pc :: read_pc
  rd_dst :: "byte list"
  rd_info :: "weba_frame_info option"
  rd_period :: int
  rd_call_deadline :: ns
  rd_total :: nat

record read_in =
  ri_now :: ns
  ri_waited :: int

subsection \<open>Entry\<close>

text \<open>
  \<open>dst\<close> is the caller's buffer, \<open>None\<close> for a null pointer; \<open>now\<close> is the clock at entry. A refused
  call returns at once, without touching the buffer.
\<close>

definition read_refused :: "int \<Rightarrow> byte list option \<Rightarrow> weba_frame_info option \<Rightarrow> read_state" where
  "read_refused st dst info = \<lparr>rd_pc = RReturn st, rd_dst = (case dst of None \<Rightarrow> [] | Some d \<Rightarrow> d),
     rd_info = info, rd_period = 0, rd_call_deadline = 0, rd_total = 0\<rparr>"

definition read_frame_entry ::
  "weba_capture option \<Rightarrow> byte list option \<Rightarrow> u32 \<Rightarrow> weba_frame_info option \<Rightarrow> int \<Rightarrow> ns \<Rightarrow>
   read_state outcome" where
  "read_frame_entry capture dst dst_capacity_frames info timeout_ms now =
     (case (capture, dst) of
        (Some c, Some d) \<Rightarrow>
          (if \<not> h_running c then Inr (read_refused WEBA_ERR_STATE dst info)
           else if dst_capacity_frames < h_frame_samples c
           then Inr (read_refused WEBA_ERR_INVAL dst info)
           else
             let timeout_ms = (if timeout_ms < 0 then 0 else timeout_ms) in
             sum_bind (frame_period (h_frame_samples c) (h_sample_rate c)) (\<lambda>period.
             Inr \<lparr>rd_pc = RTop, rd_dst = d, rd_info = info, rd_period = period,
                  rd_call_deadline = now + ms_to_ns timeout_ms, rd_total = 0\<rparr>))
      | _ \<Rightarrow> Inr (read_refused WEBA_ERR_INVAL dst info))"

subsection \<open>Steps\<close>

text \<open>
  The head of the loop. Without \<open>fixed_rate\<close> the wait for a frame is what is left of the caller's
  timeout; with it the deadline of the next frame decides between sleeping, giving up and taking a
  frame.
\<close>

definition step_top :: "read_in \<Rightarrow> read_state \<Rightarrow> weba_capture \<Rightarrow> read_state \<times> weba_capture" where
  "step_top i r c =
     (let now = ri_now i in
      if \<not> h_fixed_rate c then
        let w = ns_to_us (rd_call_deadline r - now);
            wait = (if w < 0 then 0 else w)
        in (r\<lparr>rd_pc := RPopWait wait\<rparr>, c)
      else
        let c1 = (if \<not> h_deadline_valid c
                  then c\<lparr>h_next_deadline := now + us_to_ns (rd_period r), h_deadline_valid := True\<rparr>
                  else c)
        in if now < h_next_deadline c1 then
             let w = ns_to_us (h_next_deadline c1 - now) + 1000;
                 until_call_deadline = ns_to_us (rd_call_deadline r - now);
                 wait = (if until_call_deadline < w then until_call_deadline else w)
             in if wait \<le> 0 then (r\<lparr>rd_pc := RReturn 0\<rparr>, c1)
                else (r\<lparr>rd_pc := RSleep wait\<rparr>, c1)
           else (r\<lparr>rd_pc := RPop\<rparr>, c1))"

text \<open>The pop of either mode, once its wait is over; \<open>go\<close> is where a non-negative result leads.\<close>

definition step_pop ::
  "(int \<Rightarrow> read_pc) \<Rightarrow> read_state \<Rightarrow> weba_capture \<Rightarrow> (read_state \<times> weba_capture) outcome" where
  "step_pop go r c =
     sum_bind (queue_pop (rd_dst r) (h_queue c)) (\<lambda>(q, dst, discarded, result).
       Inr (if result < 0
            then (r\<lparr>rd_dst := dst, rd_pc := RReturn WEBA_ERR_STATE\<rparr>, c\<lparr>h_queue := q\<rparr>)
            else (r\<lparr>rd_dst := dst, rd_total := size_add (rd_total r) discarded, rd_pc := go result\<rparr>,
                  c\<lparr>h_queue := q\<rparr>)))"

text \<open>The flags of a due frame; a frame that did not arrive is replaced by zeros.\<close>

definition step_flags :: "int \<Rightarrow> read_state \<Rightarrow> weba_capture \<Rightarrow> (read_state \<times> weba_capture) outcome" where
  "step_flags result r c =
     (let f0 = h_pending_flags c;
          c1 = c\<lparr>h_pending_flags := 0\<rparr>;
          f1 = (if rd_total r > 0 then f0 OR WEBA_FRAME_DISCONTINUITY else f0)
      in if result = 0
         then sum_bind (mem_write (rd_dst r) 0 (replicate (frame_bytes c) 0)) (\<lambda>dst.
                Inr (r\<lparr>rd_dst := dst,
                       rd_pc := RAfter (f1 OR (WEBA_FRAME_SILENCE OR WEBA_FRAME_UNDERRUN))\<rparr>, c1))
         else Inr (r\<lparr>rd_pc := RAfter f1\<rparr>, c1))"

text \<open>The deadline moves on by one period, or restarts from now when it has been missed by more.\<close>

definition step_after :: "read_in \<Rightarrow> u32 \<Rightarrow> read_state \<Rightarrow> weba_capture \<Rightarrow> read_state \<times> weba_capture" where
  "step_after i flags r c =
     (let nd = h_next_deadline c + us_to_ns (rd_period r);
          after = ri_now i;
          nd' = (if nd < after then after + us_to_ns (rd_period r) else nd)
      in (r\<lparr>rd_info := map_option (\<lambda>_. \<lparr>timestamp_ns = word_of_int after, fr_flags = flags,
              dropped_frames = word_of_nat (rd_total r)\<rparr>) (rd_info r),
            rd_pc := RReturn 1\<rparr>,
          c\<lparr>h_next_deadline := nd'\<rparr>))"

text \<open>The last lines, reached without \<open>fixed_rate\<close>: the pending flags are taken only for a non-null \<open>info\<close>.\<close>

definition step_info :: "read_in \<Rightarrow> read_state \<Rightarrow> weba_capture \<Rightarrow> read_state \<times> weba_capture" where
  "step_info i r c =
     (case rd_info r of
        None \<Rightarrow> (r\<lparr>rd_pc := RReturn 1\<rparr>, c)
      | Some _ \<Rightarrow>
          (r\<lparr>rd_info := Some \<lparr>timestamp_ns = word_of_int (ri_now i),
               fr_flags = h_pending_flags c OR (if rd_total r > 0 then WEBA_FRAME_DISCONTINUITY else 0),
               dropped_frames = word_of_nat (rd_total r)\<rparr>,
             rd_pc := RReturn 1\<rparr>,
           c\<lparr>h_pending_flags := 0\<rparr>))"

text \<open>\<open>delay\<close> and \<open>waited\<close> in microseconds: whether the sleep is over.\<close>

definition sleep_interruptible :: "int \<Rightarrow> int \<Rightarrow> weba_capture \<Rightarrow> bool" where
  [simp]: "sleep_interruptible delay waited c \<longleftrightarrow> h_stop_requested c \<or> delay \<le> waited"

definition read_step :: "read_in \<Rightarrow> read_state \<times> weba_capture \<Rightarrow> (read_state \<times> weba_capture) outcome" where
  "read_step i s =
     (let (r, c) = s in
      case rd_pc r of
        RTop \<Rightarrow> Inr (step_top i r c)
      | RPopWait wait \<Rightarrow>
          (if pop_wait wait (ri_waited i) (h_queue c)
           then step_pop (\<lambda>result. if result = 0 then RTimeoutCheck else RInfo) r c
           else Inr (r, c))
      | RTimeoutCheck \<Rightarrow>
          Inr (if ri_now i \<ge> rd_call_deadline r then (r\<lparr>rd_pc := RReturn 0\<rparr>, c)
               else (r\<lparr>rd_pc := RTop\<rparr>, c))
      | RSleep wait \<Rightarrow>
          Inr (if sleep_interruptible wait (ri_waited i) c then (r\<lparr>rd_pc := RTop\<rparr>, c) else (r, c))
      | RPop \<Rightarrow> step_pop RFlags r c
      | RFlags result \<Rightarrow> step_flags result r c
      | RAfter flags \<Rightarrow> Inr (step_after i flags r c)
      | RInfo \<Rightarrow> Inr (step_info i r c)
      | RReturn _ \<Rightarrow> Inr (r, c))"

lemmas [read_steps] = read_step_def step_top_def step_pop_def step_flags_def step_after_def
  step_info_def Let_def

fun read_run :: "read_in list \<Rightarrow> read_state \<times> weba_capture \<Rightarrow> (read_state \<times> weba_capture) outcome" where
  "read_run [] s = Inr s"
| "read_run (i # is) s = sum_bind (read_step i s) (read_run is)"

subsection \<open>What the consumer keeps\<close>

definition read_frame_rel :: "weba_capture \<Rightarrow> weba_capture \<Rightarrow> bool" where
  "read_frame_rel c c' \<longleftrightarrow>
     mic_format_of c' = mic_format_of c \<and> h_requested_sink c' = h_requested_sink c \<and>
     h_fixed_rate c' = h_fixed_rate c \<and> h_sink_recheck_ms c' = h_sink_recheck_ms c \<and>
     h_stop_requested c' = h_stop_requested c \<and> h_running c' = h_running c \<and>
     h_control c' = h_control c \<and> h_error c' = h_error c \<and> h_format_info c' = h_format_info c \<and>
     h_current_monitor c' = h_current_monitor c \<and> h_next_sink_check c' = h_next_sink_check c \<and>
     h_thread c' = h_thread c \<and> h_thread_abandoned c' = h_thread_abandoned c \<and>
     slot_bytes (h_queue c') = slot_bytes (h_queue c) \<and>
     capacity (h_queue c') = capacity (h_queue c) \<and> closed (h_queue c') = closed (h_queue c)"

lemma read_frame_rel_refl [simp]: "read_frame_rel c c"
  by (simp add: read_frame_rel_def)

lemma read_frame_rel_trans: "read_frame_rel a b \<Longrightarrow> read_frame_rel b c \<Longrightarrow> read_frame_rel a c"
  by (simp add: read_frame_rel_def)

text \<open>The destination holds a frame, and is never resized.\<close>

definition read_inv :: "read_state \<Rightarrow> weba_capture \<Rightarrow> bool" where
  "read_inv r c \<longleftrightarrow> handle_wf c \<and> frame_bytes c \<le> length (rd_dst r) \<and>
     rd_period r = period_us (h_frame_samples c) (h_sample_rate c)"

lemma pop_wf:
  assumes "handle_wf c" "frame_bytes c \<le> length dst"
  obtains q fo n where
    "q_pop (h_queue c) = (q, fo, n)"
    "queue_pop dst (h_queue c) =
       Inr (q, case fo of None \<Rightarrow> dst | Some f \<Rightarrow> f @ drop (frame_bytes c) dst, n,
            if q_count (h_queue c) = 0 then (if closed (h_queue c) then -1 else 0) else 1)"
    "handle_wf (c\<lparr>h_queue := q\<rparr>)" "slot_bytes q = slot_bytes (h_queue c)"
    "capacity q = capacity (h_queue c)" "closed q = closed (h_queue c)"
    "\<And>f. fo = Some f \<Longrightarrow> length f = frame_bytes c"
    "fo = None \<longleftrightarrow> q_count (h_queue c) = 0"
proof -
  have inv: "queue_inv (h_queue c)" and sb: "slot_bytes (h_queue c) = frame_bytes c"
    using assms(1) by (simp_all add: handle_wf_def)
  have len: "slot_bytes (h_queue c) \<le> length dst" using assms(2) sb by simp
  obtain q fo n r where q: "aq_pop (abs_of (h_queue c)) = (abs_of q, fo, n, r)"
    "q_pop (h_queue c) = (q, fo, n)" "queue_inv q" "capacity q = capacity (h_queue c)"
    "slot_bytes q = slot_bytes (h_queue c)" "closed q = closed (h_queue c)"
    by (rule q_pop_abs [OF inv])
  have "fo = None \<longleftrightarrow> frames (h_queue c) = []"
    using q(1) by (auto simp: aq_pop_def split: list.splits)
  then have none: "fo = None \<longleftrightarrow> q_count (h_queue c) = 0" by (simp add: frames_Nil_iff)
  have pop: "queue_pop dst (h_queue c) =
      Inr (q, case fo of None \<Rightarrow> dst | Some f \<Rightarrow> f @ drop (frame_bytes c) dst, n,
           if q_count (h_queue c) = 0 then (if closed (h_queue c) then -1 else 0) else 1)"
    using queue_pop_q_pop(1) [OF inv len] unfolding sb q(2) by simp
  have el: "length f = frame_bytes c" if "fo = Some f" for f
    using queue_pop_q_pop(2) [OF inv len, of f] that q(2) sb by simp
  show ?thesis
    by (rule that [OF q(2) pop handle_wf_queue [OF assms(1) q(3,5)] q(5,4,6) el none])
qed

text \<open>No step faults, and every step keeps the invariant and the frame.\<close>

lemma step_pop_inv:
  assumes inv: "read_inv r c"
  shows "\<exists>r' c'. step_pop go r c = Inr (r', c') \<and> read_inv r' c' \<and> read_frame_rel c c' \<and>
           length (rd_dst r') = length (rd_dst r)"
proof -
  have wf: "handle_wf c" and len: "frame_bytes c \<le> length (rd_dst r)"
    using inv by (simp_all add: read_inv_def)
  from wf len obtain q fo n where p:
    "queue_pop (rd_dst r) (h_queue c) =
       Inr (q, case fo of None \<Rightarrow> rd_dst r | Some f \<Rightarrow> f @ drop (frame_bytes c) (rd_dst r), n,
            if q_count (h_queue c) = 0 then (if closed (h_queue c) then -1 else 0) else 1)"
    "handle_wf (c\<lparr>h_queue := q\<rparr>)" "slot_bytes q = slot_bytes (h_queue c)"
    "capacity q = capacity (h_queue c)" "closed q = closed (h_queue c)"
    "\<And>f. fo = Some f \<Longrightarrow> length f = frame_bytes c"
    by (rule pop_wf) (rule that; assumption)
  have "length (case fo of None \<Rightarrow> rd_dst r | Some f \<Rightarrow> f @ drop (frame_bytes c) (rd_dst r))
      = length (rd_dst r)"
    using p(6) len by (cases fo) auto
  with p inv show ?thesis
    by (auto simp: step_pop_def read_inv_def read_frame_rel_def mic_format_of_def)
qed

lemma step_flags_inv:
  assumes inv: "read_inv r c"
  shows "\<exists>r' c'. step_flags res r c = Inr (r', c') \<and> read_inv r' c' \<and> read_frame_rel c c' \<and>
           length (rd_dst r') = length (rd_dst r)"
  using inv by (auto simp: step_flags_def read_inv_def read_frame_rel_def mic_format_of_def Let_def)

lemma read_step_inv:
  assumes inv: "read_inv r c"
  shows "\<exists>r' c'. read_step i (r, c) = Inr (r', c') \<and> read_inv r' c' \<and> read_frame_rel c c' \<and>
           length (rd_dst r') = length (rd_dst r)"
proof (cases "rd_pc r")
  case RTop
  with inv show ?thesis
    by (auto simp: read_step_def step_top_def read_inv_def read_frame_rel_def mic_format_of_def Let_def)
next
  case (RPopWait w)
  with step_pop_inv [OF inv] inv show ?thesis by (auto simp: read_step_def)
next
  case RPop
  with step_pop_inv [OF inv] show ?thesis by (simp add: read_step_def)
next
  case (RFlags res)
  with step_flags_inv [OF inv] show ?thesis by (simp add: read_step_def)
next
  case (RAfter fl)
  with inv show ?thesis
    by (auto simp: read_step_def step_after_def read_inv_def read_frame_rel_def mic_format_of_def Let_def)
next
  case RInfo
  with inv show ?thesis
    by (auto simp: read_step_def step_info_def read_inv_def read_frame_rel_def mic_format_of_def
        split: option.splits)
qed (use inv in \<open>auto simp: read_step_def read_inv_def\<close>)

lemma read_run_inv:
  "read_inv r c \<Longrightarrow> \<exists>r' c'. read_run is (r, c) = Inr (r', c') \<and> read_inv r' c' \<and>
     read_frame_rel c c' \<and> length (rd_dst r') = length (rd_dst r)"
proof (induction "is" arbitrary: r c)
  case (Cons i "is")
  from read_step_inv [OF Cons.prems, of i] obtain r1 c1 where
    1: "read_step i (r, c) = Inr (r1, c1)" "read_inv r1 c1" "read_frame_rel c c1"
      "length (rd_dst r1) = length (rd_dst r)" by blast
  from Cons.IH [OF 1(2)] 1 show ?case by (auto intro: read_frame_rel_trans)
qed simp

text \<open>An accepted call starts in the invariant, if the caller's buffer is as large as it says.\<close>

lemma read_entry_cases:
  assumes "handle_wf c"
  shows "read_frame_entry (Some c) (Some d) cap info timeout now =
    Inr (if \<not> h_running c then read_refused WEBA_ERR_STATE (Some d) info
         else if cap < h_frame_samples c then read_refused WEBA_ERR_INVAL (Some d) info
         else \<lparr>rd_pc = RTop, rd_dst = d, rd_info = info,
               rd_period = period_us (h_frame_samples c) (h_sample_rate c),
               rd_call_deadline = now + ms_to_ns (max timeout 0), rd_total = 0\<rparr>)"
  using assms by (auto simp: read_frame_entry_def frame_period_ok handle_wf_def format_wf_def max_def)

end
