(* ===== verification/Capture_Loop.thy ===== *)
theory Capture_Loop
  imports Handle
begin

text \<open>
  The capture thread: \<open>weba_capture::capture_loop()\<close> of \<open>src/capture.cpp\<close>, as a machine whose
  program counter names the statements between two accesses to the shared handle. A step runs one
  of them with the answers of its surroundings (\<open>loop_in\<close>): the server, the stream, the clock, and
  whether a wait ran out. What the consumer and \<open>weba_capture_stop()\<close> do happens between steps.
\<close>

subsection \<open>State\<close>

datatype loop_pc =
    LTop
  | LResolve
  | LPublish target_t
  | LOpen target_t
  | LOpenFailed
  | LOpened target_t
  | LReopened
  | LRead
  | LReadFailed
  | LPush
  | LFollow
  | LWait
  | LExit
  | LDone

text \<open>\<open>lp_mic\<close> is the \<open>unique_ptr\<close>, \<open>None\<close> when empty.\<close>

record loop_state =
  lp_pc :: loop_pc
  lp_mic :: "mic option"
  lp_had_stream :: bool
  lp_buffer :: "byte list"

record loop_in =
  li_resolve :: resolve_env
  li_simple_new :: simple_new
  li_strerror :: "int \<Rightarrow> string"
  li_read :: read_answer
  li_now :: ns
  li_now' :: ns
  li_waited :: int

definition kReinitDelay :: int where "kReinitDelay = 1000"

definition reinit_flags :: u32 where
  "reinit_flags = WEBA_FRAME_REINIT OR WEBA_FRAME_DISCONTINUITY"

definition pending_or :: "u32 \<Rightarrow> weba_capture \<Rightarrow> weba_capture" where
  "pending_or f c = c\<lparr>h_pending_flags := h_pending_flags c OR f\<rparr>"

text \<open>The locals before the first iteration.\<close>

definition loop_start :: "weba_capture \<Rightarrow> loop_state" where
  "loop_start c = \<lparr>lp_pc = LTop, lp_mic = None, lp_had_stream = False,
     lp_buffer = replicate (frame_bytes c) 0\<rparr>"

text \<open>
  The thread's first act is to allocate its buffer; \<open>alloc_ok\<close> says whether \<open>operator new\<close> can. An
  exception that leaves the function of a \<open>std::thread\<close> ends the process.
\<close>

definition thread_begin :: "(nat \<Rightarrow> bool) \<Rightarrow> weba_capture \<Rightarrow> loop_state outcome" where
  "thread_begin alloc_ok c = (if alloc_ok (frame_bytes c) then Inr (loop_start c) else Inl Terminate)"

lemma thread_begin_iff [simp]:
  "thread_begin alloc_ok c = Inr l \<longleftrightarrow> alloc_ok (frame_bytes c) \<and> l = loop_start c"
  "thread_begin alloc_ok c = Inl f \<longleftrightarrow> \<not> alloc_ok (frame_bytes c) \<and> f = Terminate"
  by (auto simp: thread_begin_def)

text \<open>
  \<open>wait_for_stop(delay)\<close> returns the predicate once it holds or the delay, in microseconds, has
  passed; until then the thread stays where it is.
\<close>

definition wait_for_stop :: "int \<Rightarrow> int \<Rightarrow> weba_capture \<Rightarrow> bool option" where
  "wait_for_stop delay waited c =
     (if h_stop_requested c then Some True else if delay \<le> waited then Some False else None)"

subsection \<open>Steps\<close>

definition step_resolve :: "loop_in \<Rightarrow> loop_state \<Rightarrow> weba_capture \<Rightarrow> loop_state \<times> weba_capture" where
  "step_resolve i l c =
     (case resolve_target (li_resolve i) (h_requested_sink c) (h_control c) of
        (ct, None) \<Rightarrow> (l\<lparr>lp_pc := LWait\<rparr>, set_error (control_error ct) (c\<lparr>h_control := ct\<rparr>))
      | (ct, Some target) \<Rightarrow> (l\<lparr>lp_pc := LPublish target\<rparr>, c\<lparr>h_control := ct\<rparr>))"

definition step_open :: "loop_in \<Rightarrow> target_t \<Rightarrow> loop_state \<Rightarrow> weba_capture \<Rightarrow> loop_state \<times> weba_capture" where
  "step_open i target l c =
     (case mic_open (li_simple_new i) (li_strerror i) (tg_monitor target) (mic_format_of c) of
        Inl open_error \<Rightarrow> (l\<lparr>lp_mic := None, lp_pc := LOpenFailed\<rparr>, set_error open_error c)
      | Inr m \<Rightarrow> (l\<lparr>lp_mic := Some m, lp_pc := LOpened target\<rparr>, c))"

definition step_opened :: "loop_in \<Rightarrow> target_t \<Rightarrow> loop_state \<Rightarrow> weba_capture \<Rightarrow> loop_state \<times> weba_capture" where
  "step_opened i target l c =
     (let c1 = c\<lparr>h_current_monitor := tg_monitor target,
                 h_next_sink_check := li_now i + ms_to_ns (uint (h_sink_recheck_ms c))\<rparr>
      in if lp_had_stream l then (l\<lparr>lp_pc := LReopened\<rparr>, c1)
         else (l\<lparr>lp_had_stream := True, lp_pc := LRead\<rparr>, c1))"

definition step_read :: "loop_in \<Rightarrow> loop_state \<Rightarrow> weba_capture \<Rightarrow> loop_state \<times> weba_capture" where
  "step_read i l c =
     (case mic_read (li_read i) (li_strerror i) (Option.bind (lp_mic l) id) (frame_bytes c) of
        Inl read_error \<Rightarrow> (l\<lparr>lp_mic := None, lp_pc := LReadFailed\<rparr>, set_error read_error c)
      | Inr bytes \<Rightarrow> (l\<lparr>lp_buffer := bytes, lp_pc := LPush\<rparr>, c))"

text \<open>The poll for a moved default sink reads the clock twice and resolves the empty name.\<close>

definition step_follow :: "loop_in \<Rightarrow> loop_state \<Rightarrow> weba_capture \<Rightarrow> loop_state \<times> weba_capture" where
  "step_follow i l c =
     (if h_requested_sink c = [] \<and> h_sink_recheck_ms c > 0 \<and> li_now i \<ge> h_next_sink_check c then
        let c1 = c\<lparr>h_next_sink_check := li_now' i + ms_to_ns (uint (h_sink_recheck_ms c))\<rparr>
        in case resolve_target (li_resolve i) '''' (h_control c1) of
             (ct, None) \<Rightarrow> (l\<lparr>lp_pc := LTop\<rparr>, c1\<lparr>h_control := ct\<rparr>)
           | (ct, Some target) \<Rightarrow>
               (if tg_monitor target \<noteq> h_current_monitor c1
                then (l\<lparr>lp_mic := None, lp_pc := LTop\<rparr>, c1\<lparr>h_control := ct\<rparr>)
                else (l\<lparr>lp_pc := LTop\<rparr>, c1\<lparr>h_control := ct\<rparr>))
      else (l\<lparr>lp_pc := LTop\<rparr>, c))"

text \<open>
  The whole loop. \<open>LExit\<close> is the end of the function: \<open>running\<close> is cleared, the waiter notified, the
  exit logged, and only then do the destructors of the locals drop the stream. They are one step here:
  the stream is the thread's own, and whoever sees \<open>running\<close> cleared in a stop joins the thread, which
  waits for them.
\<close>

definition loop_step :: "loop_in \<Rightarrow> loop_state \<times> weba_capture \<Rightarrow> (loop_state \<times> weba_capture) outcome" where
  "loop_step i s =
     (let (l, c) = s in
      case lp_pc l of
        LTop \<Rightarrow>
          Inr (if h_stop_requested c then (l\<lparr>lp_pc := LExit\<rparr>, c)
               else if lp_mic l = None then (l\<lparr>lp_pc := LResolve\<rparr>, c)
               else (l\<lparr>lp_pc := LRead\<rparr>, c))
      | LResolve \<Rightarrow> Inr (step_resolve i l c)
      | LPublish target \<Rightarrow> Inr (l\<lparr>lp_pc := LOpen target\<rparr>, publish_format target c)
      | LOpen target \<Rightarrow> Inr (step_open i target l c)
      | LOpenFailed \<Rightarrow> Inr (l\<lparr>lp_pc := LWait\<rparr>, pending_or reinit_flags c)
      | LOpened target \<Rightarrow> Inr (step_opened i target l c)
      | LReopened \<Rightarrow> Inr (l\<lparr>lp_had_stream := True, lp_pc := LRead\<rparr>, pending_or reinit_flags c)
      | LRead \<Rightarrow> Inr (step_read i l c)
      | LReadFailed \<Rightarrow> Inr (l\<lparr>lp_pc := LWait\<rparr>, pending_or reinit_flags c)
      | LPush \<Rightarrow>
          sum_bind (queue_push (lp_buffer l) (h_queue c))
            (\<lambda>(q, _). Inr (l\<lparr>lp_pc := LFollow\<rparr>, c\<lparr>h_queue := q\<rparr>))
      | LFollow \<Rightarrow> Inr (step_follow i l c)
      | LWait \<Rightarrow>
          Inr (case wait_for_stop (1000 * kReinitDelay) (li_waited i) c of
                 None \<Rightarrow> (l, c)
               | Some True \<Rightarrow> (l\<lparr>lp_pc := LExit\<rparr>, c)
               | Some False \<Rightarrow> (l\<lparr>lp_pc := LTop\<rparr>, c))
      | LExit \<Rightarrow> Inr (l\<lparr>lp_mic := None, lp_pc := LDone\<rparr>, c\<lparr>h_running := False\<rparr>)
      | LDone \<Rightarrow> Inr (l, c))"

lemmas [loop_steps] = loop_step_def step_resolve_def step_open_def step_opened_def step_read_def
  step_follow_def wait_for_stop_def set_error_def pending_or_def publish_format_def Let_def

text \<open>A run of the thread alone, with one answer per step.\<close>

fun loop_run :: "loop_in list \<Rightarrow> loop_state \<times> weba_capture \<Rightarrow> (loop_state \<times> weba_capture) outcome" where
  "loop_run [] s = Inr s"
| "loop_run (i # is) s = sum_bind (loop_step i s) (loop_run is)"

lemma loop_run_append: "loop_run (xs @ ys) = (\<lambda>s. sum_bind (loop_run xs s) (loop_run ys))"
proof (induction xs)
  case (Cons x xs)
  then show ?case by (intro ext) (simp add: sum_bind_assoc)
qed simp

subsection \<open>What the thread keeps\<close>

text \<open>
  Every field the thread has no business with: the configuration, the consumer's pacing state, the
  life-cycle flags but \<open>running\<close>, and the shape of the queue.
\<close>

definition loop_frame :: "weba_capture \<Rightarrow> weba_capture \<Rightarrow> bool" where
  "loop_frame c c' \<longleftrightarrow>
     mic_format_of c' = mic_format_of c \<and> h_requested_sink c' = h_requested_sink c \<and>
     h_fixed_rate c' = h_fixed_rate c \<and> h_sink_recheck_ms c' = h_sink_recheck_ms c \<and>
     h_stop_requested c' = h_stop_requested c \<and> h_thread c' = h_thread c \<and>
     h_thread_abandoned c' = h_thread_abandoned c \<and>
     h_next_deadline c' = h_next_deadline c \<and> h_deadline_valid c' = h_deadline_valid c \<and>
     slot_bytes (h_queue c') = slot_bytes (h_queue c) \<and>
     capacity (h_queue c') = capacity (h_queue c) \<and> closed (h_queue c') = closed (h_queue c)"

text \<open>
  The thread's own invariant: the buffer is one frame; it reads and pushes only with a stream; a
  stream that is open has been counted; and with a pinned sink no other sink is ever opened.
\<close>

definition mic_states :: "loop_pc \<Rightarrow> bool" where
  "mic_states pc \<longleftrightarrow> (case pc of LOpened _ \<Rightarrow> True | LReopened \<Rightarrow> True | LRead \<Rightarrow> True | LPush \<Rightarrow> True
     | LFollow \<Rightarrow> True | _ \<Rightarrow> False)"

definition pc_target :: "loop_pc \<Rightarrow> target_t option" where
  "pc_target pc = (case pc of LPublish t \<Rightarrow> Some t | LOpen t \<Rightarrow> Some t | LOpened t \<Rightarrow> Some t | _ \<Rightarrow> None)"

definition loop_inv :: "loop_state \<Rightarrow> weba_capture \<Rightarrow> bool" where
  "loop_inv l c \<longleftrightarrow> handle_wf c \<and>
     length (lp_buffer l) = frame_bytes c \<and>
     (mic_states (lp_pc l) \<longrightarrow> lp_mic l \<noteq> None) \<and>
     (lp_mic l \<noteq> None \<and> pc_target (lp_pc l) = None \<longrightarrow> lp_had_stream l) \<and>
     (\<forall>t. pc_target (lp_pc l) = Some t \<longrightarrow> h_requested_sink c \<noteq> [] \<longrightarrow> tg_sink t = h_requested_sink c)"

lemma resolve_target_named:
  "resolve_target e req ct = (ct', Some t) \<Longrightarrow> req \<noteq> [] \<Longrightarrow> tg_sink t = req"
  by (auto simp: resolve_target_def Let_def split: if_splits option.splits prod.splits)

lemma loop_inv_start: "handle_wf c \<Longrightarrow> loop_inv (loop_start c) c"
  by (simp add: loop_inv_def loop_start_def mic_states_def pc_target_def)

lemma push_wf:
  assumes "handle_wf c" "length f = frame_bytes c"
  obtains q n where "queue_push f (h_queue c) = Inr (q, n)" "handle_wf (c\<lparr>h_queue := q\<rparr>)"
    "queue_inv q" "slot_bytes q = slot_bytes (h_queue c)" "capacity q = capacity (h_queue c)"
    "closed q = closed (h_queue c)" "q = q_push f (h_queue c)"
proof -
  have inv: "queue_inv (h_queue c)" and sb: "slot_bytes (h_queue c) = frame_bytes c"
    using assms(1) by (simp_all add: handle_wf_def)
  from queue_push_refines [OF inv, of f] assms(2) sb
  obtain q n where "queue_push f (h_queue c) = Inr (q, n)" "queue_inv q"
    "capacity q = capacity (h_queue c)" "slot_bytes q = slot_bytes (h_queue c)"
    "closed q = closed (h_queue c)"
    by auto
  with that handle_wf_queue [OF assms(1)] show ?thesis by (simp add: q_push_def)
qed

text \<open>No step faults, and every step keeps the invariant and the frame.\<close>

lemma loop_step_inv:
  assumes inv: "loop_inv l c"
  shows "\<exists>l' c'. loop_step i (l, c) = Inr (l', c') \<and> loop_inv l' c' \<and> loop_frame c c'"
proof -
  have wf: "handle_wf c" and len: "length (lp_buffer l) = frame_bytes c"
    using inv by (simp_all add: loop_inv_def)
  from wf len obtain q n where push: "queue_push (lp_buffer l) (h_queue c) = Inr (q, n)"
    "handle_wf (c\<lparr>h_queue := q\<rparr>)" "slot_bytes q = slot_bytes (h_queue c)"
    "capacity q = capacity (h_queue c)" "closed q = closed (h_queue c)"
    by (rule push_wf)
  note defs = loop_inv_def loop_frame_def mic_states_def pc_target_def mic_format_of_def
  show ?thesis
  proof (cases "lp_pc l")
    case LResolve
    with inv show ?thesis
      by (auto simp: loop_step_def step_resolve_def set_error_def defs
          split: prod.splits option.splits dest: resolve_target_named)
  next
    case (LOpen t)
    with inv show ?thesis
      by (auto simp: loop_step_def step_open_def set_error_def defs split: sum.splits)
  next
    case (LOpened t)
    with inv show ?thesis
      by (auto simp: loop_step_def step_opened_def Let_def defs)
  next
    case LRead
    with inv show ?thesis
      by (auto simp: loop_step_def step_read_def set_error_def mic_read_def defs
          split: sum.splits option.splits)
  next
    case LPush
    with inv push show ?thesis by (auto simp: loop_step_def defs)
  next
    case LFollow
    with inv show ?thesis
      by (auto simp: loop_step_def step_follow_def Let_def defs split: prod.splits option.splits)
  next
    case LWait
    with inv show ?thesis
      by (auto simp: loop_step_def wait_for_stop_def defs)
  qed (use inv in \<open>auto simp: loop_step_def pending_or_def publish_format_def defs\<close>)
qed

lemma loop_frame_refl [simp]: "loop_frame c c"
  by (simp add: loop_frame_def)

lemma loop_frame_trans: "loop_frame a b \<Longrightarrow> loop_frame b c \<Longrightarrow> loop_frame a c"
  by (simp add: loop_frame_def)

lemma loop_run_inv:
  "loop_inv l c \<Longrightarrow>
     \<exists>l' c'. loop_run is (l, c) = Inr (l', c') \<and> loop_inv l' c' \<and> loop_frame c c'"
proof (induction "is" arbitrary: l c)
  case (Cons i "is")
  from loop_step_inv [OF Cons.prems, of i] obtain l1 c1 where
    1: "loop_step i (l, c) = Inr (l1, c1)" "loop_inv l1 c1" "loop_frame c c1" by blast
  from Cons.IH [OF 1(2)] 1 show ?case by (auto intro: loop_frame_trans)
qed simp

text \<open>The thread leaves its loop, and clears \<open>running\<close>, only after a stop request.\<close>

definition exiting :: "loop_pc \<Rightarrow> bool" where
  "exiting pc \<longleftrightarrow> pc = LExit \<or> pc = LDone"

lemma loop_step_exit:
  assumes "loop_step i (l, c) = Inr (l', c')"
  shows "exiting (lp_pc l') \<Longrightarrow> exiting (lp_pc l) \<or> h_stop_requested c"
    and "h_running c' \<noteq> h_running c \<Longrightarrow> lp_pc l = LExit"
  using assms
  by (auto simp: loop_steps exiting_def
      sum_bind_eq_Inr split: loop_pc.splits prod.splits option.splits sum.splits if_splits)

lemma loop_run_exit:
  "loop_run is (l, c) = Inr (l', c') \<Longrightarrow> loop_inv l c \<Longrightarrow> \<not> h_stop_requested c \<Longrightarrow>
     \<not> exiting (lp_pc l) \<Longrightarrow> \<not> exiting (lp_pc l') \<and> h_running c' = h_running c"
proof (induction "is" arbitrary: l c)
  case (Cons i "is")
  from loop_step_inv [OF Cons.prems(2), of i] obtain l1 c1 where
    1: "loop_step i (l, c) = Inr (l1, c1)" "loop_inv l1 c1" "loop_frame c c1" by blast
  have "\<not> h_stop_requested c1" using 1(3) Cons.prems(3) by (simp add: loop_frame_def)
  moreover have "\<not> exiting (lp_pc l1)" "h_running c1 = h_running c"
    using loop_step_exit [OF 1(1)] Cons.prems(3,4) by (auto simp: exiting_def)
  ultimately show ?case using Cons.IH [OF _ 1(2)] Cons.prems(1) 1(1) by simp
qed simp

subsection \<open>Opening a stream and delivering a frame\<close>

text \<open>
  Answers under which a capture can proceed: the server resolves the target \<open>t\<close>, the stream opens,
  and the read fills the buffer with \<open>data\<close>.
\<close>

definition healthy :: "loop_in \<Rightarrow> weba_capture \<Rightarrow> target_t \<Rightarrow> (nat \<Rightarrow> byte) \<Rightarrow> bool" where
  "healthy i c t data \<longleftrightarrow>
     ct_ctx (h_control c) \<and> control_ready (h_control c) \<and>
     (\<exists>sv. serves sv (li_resolve i) \<and> resolve_spec sv (h_requested_sink c) = Some t) \<and>
     tg_monitor t \<noteq> [] \<and> (\<forall>r. \<exists>n. li_simple_new i r = Inr n) \<and> li_read i = Inr data"

lemma step_resolve_healthy:
  assumes "healthy i c t data"
  obtains ct where "step_resolve i l c = (l\<lparr>lp_pc := LPublish t\<rparr>, c\<lparr>h_control := ct\<rparr>)"
    "same_but_error (h_control c) ct"
proof -
  from assms obtain sv where sv: "serves sv (li_resolve i)" "resolve_spec sv (h_requested_sink c) = Some t"
    "ct_ctx (h_control c)" "control_ready (h_control c)"
    by (auto simp: healthy_def)
  obtain ct r where r: "resolve_target (li_resolve i) (h_requested_sink c) (h_control c) = (ct, r)"
    by fastforce
  with resolve_target_serves [OF sv(1,3,4), of "h_requested_sink c"] sv(2) have "r = Some t" by simp
  with r that resolve_target_frame(1) [OF r] show ?thesis by (simp add: step_resolve_def)
qed

lemma step_open_healthy:
  assumes "healthy i c t data" "handle_wf c'" "mic_format_of c' = mic_format_of c"
  obtains n where "step_open i t l c' = (l\<lparr>lp_mic := Some (Some n), lp_pc := LOpened t\<rparr>, c')"
proof -
  have v: "mic_format_valid (mic_format_of c')" using assms(2) by (simp add: handle_wf_def format_wf_def)
  have m: "tg_monitor t \<noteq> []" using assms(1) by (simp add: healthy_def)
  from v m obtain spec cmap attr where
    "mic_open (li_simple_new i) (li_strerror i) (tg_monitor t) (mic_format_of c') =
       (case li_simple_new i \<lparr>or_source = c_str (tg_monitor t), or_spec = spec, or_map = cmap, or_attr = attr\<rparr> of
          Inl status \<Rightarrow> Inl (''pa_simple_new() failed: '' @ li_strerror i status)
        | Inr stream \<Rightarrow> Inr (Some stream))"
    by (rule mic_open_valid)
  moreover obtain n where "li_simple_new i \<lparr>or_source = c_str (tg_monitor t), or_spec = spec,
      or_map = cmap, or_attr = attr\<rparr> = Inr n"
    using assms(1) by (auto simp: healthy_def)
  ultimately show ?thesis using that by (simp add: step_open_def)
qed

end
