(* ===== verification/Read_Call.thy ===== *)
theory Read_Call
  imports Read_Frame Capture_Loop
begin

text \<open>
  Whole calls of \<open>weba_capture_read_frame()\<close>: what a due frame is and how it is flagged, in each
  mode, and that a call returns. The capture thread runs between the consumer's steps; what it may
  do there is its guarantee (\<open>loop_frame\<close> and a well-formed handle), on which \<open>read_exec\<close> relies.
\<close>

subsection \<open>A frame that is due\<close>

definition next_deadline :: "ns \<Rightarrow> int \<Rightarrow> ns \<Rightarrow> ns" where
  "next_deadline d period after =
     (if d + us_to_ns period < after then after + us_to_ns period else d + us_to_ns period)"

definition frame_info :: "ns \<Rightarrow> u32 \<Rightarrow> nat \<Rightarrow> weba_frame_info" where
  "frame_info t flags dropped =
     \<lparr>timestamp_ns = word_of_int t, fr_flags = flags, dropped_frames = word_of_nat dropped\<rparr>"

definition gap_flag :: "nat \<Rightarrow> u32" where
  "gap_flag dropped = (if dropped > 0 then WEBA_FRAME_DISCONTINUITY else 0)"

lemma step_pop_frame:
  assumes wf: "handle_wf c" "frame_bytes c \<le> length (rd_dst r)" and q: "frames (h_queue c) = f # fs"
  shows "step_pop go r c = Inr
    (r\<lparr>rd_dst := f @ drop (frame_bytes c) (rd_dst r),
       rd_total := size_add (rd_total r) (q_dropped (h_queue c)), rd_pc := go 1\<rparr>,
     c\<lparr>h_queue := fst (q_pop (h_queue c))\<rparr>)"
proof -
  have inv: "queue_inv (h_queue c)" and sb: "slot_bytes (h_queue c) = frame_bytes c"
    using wf(1) by (simp_all add: handle_wf_def)
  have len: "slot_bytes (h_queue c) \<le> length (rd_dst r)" using wf(2) sb by simp
  have "q_count (h_queue c) \<noteq> 0" using q frames_Nil_iff [of "h_queue c"] by simp
  then show ?thesis
    using queue_pop_q_pop(1) [OF inv len] q_pop_some [OF inv q] sb by (simp add: step_pop_def)
qed

lemma step_pop_empty:
  assumes wf: "handle_wf c" "frame_bytes c \<le> length (rd_dst r)" and q: "frames (h_queue c) = []"
  shows "step_pop go r c = Inr
    (if closed (h_queue c) then (r\<lparr>rd_pc := RReturn WEBA_ERR_STATE\<rparr>, c\<lparr>h_queue := fst (q_pop (h_queue c))\<rparr>)
     else (r\<lparr>rd_total := size_add (rd_total r) 0, rd_pc := go 0\<rparr>, c\<lparr>h_queue := fst (q_pop (h_queue c))\<rparr>))"
proof -
  have inv: "queue_inv (h_queue c)" and sb: "slot_bytes (h_queue c) = frame_bytes c"
    using wf(1) by (simp_all add: handle_wf_def)
  have len: "slot_bytes (h_queue c) \<le> length (rd_dst r)" using wf(2) sb by simp
  have "q_count (h_queue c) = 0" using q frames_Nil_iff [of "h_queue c"] by simp
  moreover have "q_dropped (h_queue c) = 0"
    using fq.lost_full [OF inv] q by auto
  ultimately show ?thesis
    using queue_pop_q_pop(1) [OF inv len] q_pop_none [OF inv q] by (simp add: step_pop_def)
qed

lemma step_top_due:
  "h_fixed_rate c \<Longrightarrow> h_deadline_valid c \<Longrightarrow> h_next_deadline c \<le> ri_now i \<Longrightarrow>
     step_top i r c = (r\<lparr>rd_pc := RPop\<rparr>, c)"
  by (simp add: step_top_def Let_def)

text \<open>Real audio is waiting: the oldest frame is handed out, with what was lost before it.\<close>

lemma due_read_frame:
  assumes "read_inv r c" "rd_pc r = RTop" "rd_total r = 0"
    and fixed: "h_fixed_rate c" "h_deadline_valid c" "h_next_deadline c \<le> ri_now i1"
    and q: "frames (h_queue c) = f # fs"
  shows "read_run [i1, i2, i3, i4] (r, c) = Inr
    (r\<lparr>rd_pc := RReturn 1, rd_dst := f @ drop (frame_bytes c) (rd_dst r),
       rd_total := q_dropped (h_queue c),
       rd_info := map_option (\<lambda>_. frame_info (ri_now i4)
         (h_pending_flags c OR gap_flag (q_dropped (h_queue c))) (q_dropped (h_queue c))) (rd_info r)\<rparr>,
     c\<lparr>h_queue := fst (q_pop (h_queue c)), h_pending_flags := 0,
       h_next_deadline := next_deadline (h_next_deadline c) (rd_period r) (ri_now i4)\<rparr>)"
proof -
  have wf: "handle_wf c" "frame_bytes c \<le> length (rd_dst r)" using assms(1) by (simp_all add: read_inv_def)
  have "q_dropped (h_queue c) < size_mod" using wf(1) by (simp add: handle_wf_def queue_inv_def)
  then have tot: "size_add (rd_total r) (q_dropped (h_queue c)) = q_dropped (h_queue c)"
    using assms(3) by simp
  let ?r1 = "r\<lparr>rd_pc := RPop\<rparr>"
  have 1: "read_step i1 (r, c) = Inr (?r1, c)"
    using assms(2) fixed by (simp add: read_step_def step_top_due)
  have 2: "read_step i2 (?r1, c) = Inr
     (?r1\<lparr>rd_dst := f @ drop (frame_bytes c) (rd_dst r), rd_total := q_dropped (h_queue c),
          rd_pc := RFlags 1\<rparr>, c\<lparr>h_queue := fst (q_pop (h_queue c))\<rparr>)"
    using step_pop_frame [of c ?r1 f fs RFlags] wf q tot by (simp add: read_step_def)
  show ?thesis
    by (simp add: 1 2)
      (simp add: read_step_def step_flags_def step_after_def next_deadline_def frame_info_def
        gap_flag_def Let_def)
qed

text \<open>Nothing is waiting: the frame is zeros, flagged as silence and underrun; no loss is reported.\<close>

lemma due_read_silence:
  assumes "read_inv r c" "rd_pc r = RTop" "rd_total r = 0"
    and fixed: "h_fixed_rate c" "h_deadline_valid c" "h_next_deadline c \<le> ri_now i1"
    and q: "frames (h_queue c) = []" "\<not> closed (h_queue c)"
  shows "read_run [i1, i2, i3, i4] (r, c) = Inr
    (r\<lparr>rd_pc := RReturn 1, rd_dst := replicate (frame_bytes c) 0 @ drop (frame_bytes c) (rd_dst r),
       rd_info := map_option (\<lambda>_. frame_info (ri_now i4)
         (h_pending_flags c OR (WEBA_FRAME_SILENCE OR WEBA_FRAME_UNDERRUN)) 0) (rd_info r)\<rparr>,
     c\<lparr>h_queue := fst (q_pop (h_queue c)), h_pending_flags := 0,
       h_next_deadline := next_deadline (h_next_deadline c) (rd_period r) (ri_now i4)\<rparr>)"
proof -
  have wf: "handle_wf c" "frame_bytes c \<le> length (rd_dst r)" using assms(1) by (simp_all add: read_inv_def)
  have tot: "size_add (rd_total r) 0 = 0" using assms(3) by (simp add: size_add_def)
  let ?r1 = "r\<lparr>rd_pc := RPop\<rparr>"
  have 1: "read_step i1 (r, c) = Inr (?r1, c)"
    using assms(2) fixed by (simp add: read_step_def step_top_due)
  have 2: "read_step i2 (?r1, c) = Inr
     (?r1\<lparr>rd_total := 0, rd_pc := RFlags 0\<rparr>, c\<lparr>h_queue := fst (q_pop (h_queue c))\<rparr>)"
    using step_pop_empty [of c ?r1 RFlags] wf q tot by (simp add: read_step_def)
  show ?thesis
    using wf(2) assms(3)
    by (simp add: 1 2)
      (simp add: read_step_def step_flags_def step_after_def next_deadline_def frame_info_def Let_def)
qed

subsection \<open>The head of the loop at fixed rate\<close>

definition due_at :: "weba_capture \<Rightarrow> ns \<Rightarrow> int \<Rightarrow> ns" where
  "due_at c now period = (if h_deadline_valid c then h_next_deadline c else now + us_to_ns period)"

definition with_deadline :: "ns \<Rightarrow> weba_capture \<Rightarrow> weba_capture" where
  "with_deadline d c = c\<lparr>h_next_deadline := d, h_deadline_valid := True\<rparr>"

lemma with_deadline_wf [simp]:
  "handle_wf (with_deadline d c) = handle_wf c" "frame_bytes (with_deadline d c) = frame_bytes c"
  "h_queue (with_deadline d c) = h_queue c" "h_fixed_rate (with_deadline d c) = h_fixed_rate c"
  "h_stop_requested (with_deadline d c) = h_stop_requested c"
  "h_next_deadline (with_deadline d c) = d" "h_deadline_valid (with_deadline d c)"
  by (simp_all add: with_deadline_def)

lemma ns_to_us_bounds: "0 \<le> t \<Longrightarrow> ns_to_us t * 1000 \<le> t \<and> t < ns_to_us t * 1000 + 1000"
proof (intro conjI)
  assume "0 \<le> t"
  then have eq: "ns_to_us t = t div 1000" by (rule ns_to_us_nonneg)
  have "t div 1000 * 1000 + t mod 1000 = t" "0 \<le> t mod 1000" "t mod 1000 < 1000" by simp_all
  then show "ns_to_us t * 1000 \<le> t" "t < ns_to_us t * 1000 + 1000"
    unfolding eq by linarith+
qed

lemma ns_to_us_pos_iff: "0 < ns_to_us t \<longleftrightarrow> 1000 \<le> t"
  using ns_to_us_neg [of t] ns_to_us_bounds [of t] by (cases "0 \<le> t") auto

definition sleep_wait :: "ns \<Rightarrow> ns \<Rightarrow> ns \<Rightarrow> int" where
  "sleep_wait nd cd now = min (ns_to_us (nd - now) + 1000) (ns_to_us (cd - now))"

lemma step_top_fixed:
  assumes "h_fixed_rate c"
  shows "step_top i r c =
    (let now = ri_now i; nd = due_at c now (rd_period r); w = sleep_wait nd (rd_call_deadline r) now
     in (r\<lparr>rd_pc := if nd \<le> now then RPop else if w \<le> 0 then RReturn 0 else RSleep w\<rparr>,
         with_deadline nd c))"
  using assms by (auto simp: step_top_def due_at_def sleep_wait_def with_deadline_def min_def Let_def)

text \<open>
  Once a stop is requested a sleep ends at once, so a call that waits for its deadline goes round
  between the sleep and the head of its loop, as often as it is scheduled before the deadline.
\<close>

lemma stopped_call_spins:
  assumes "h_stop_requested c" "h_fixed_rate c" "h_deadline_valid c"
  shows "rd_pc r = RSleep w \<Longrightarrow>
     (\<And>i. i \<in> set is \<Longrightarrow> ri_now i < h_next_deadline c \<and>
        0 < sleep_wait (h_next_deadline c) (rd_call_deadline r) (ri_now i)) \<Longrightarrow>
     \<exists>w'. read_run (concat (map (\<lambda>i. [i, i]) is)) (r, c) = Inr (r\<lparr>rd_pc := RSleep w'\<rparr>, c)"
proof (induction "is" arbitrary: r w)
  case Nil
  then have "r\<lparr>rd_pc := RSleep w\<rparr> = r" by simp
  then show ?case by (intro exI [of _ w]) simp
next
  case (Cons i "is")
  let ?w = "sleep_wait (h_next_deadline c) (rd_call_deadline r) (ri_now i)"
  have due: "due_at c (ri_now i) p = h_next_deadline c" for p using assms(3) by (simp add: due_at_def)
  have same: "with_deadline (h_next_deadline c) c = c" using assms(3) by (simp add: with_deadline_def)
  have i: "ri_now i < h_next_deadline c" "0 < ?w" using Cons.prems(2) [of i] by simp_all
  from Cons.IH [of "r\<lparr>rd_pc := RSleep ?w\<rparr>"] Cons.prems(2) obtain w' where
    "read_run (concat (map (\<lambda>i. [i, i]) is)) (r\<lparr>rd_pc := RSleep ?w\<rparr>, c) = Inr (r\<lparr>rd_pc := RSleep w'\<rparr>, c)"
    by force
  moreover have "read_step i (r, c) = Inr (r\<lparr>rd_pc := RTop\<rparr>, c)"
    using Cons.prems(1) assms(1) by (simp add: read_step_def)
  moreover have "read_step i (r\<lparr>rd_pc := RTop\<rparr>, c) = Inr (r\<lparr>rd_pc := RSleep ?w\<rparr>, c)"
    using i by (simp add: read_step_def step_top_fixed [OF assms(2)] due same Let_def)
  ultimately show ?case by auto
qed

text \<open>After one full sleep the frame is due or the caller's time is up.\<close>

lemma one_sleep:
  assumes "now < nd" and w: "w = sleep_wait nd cd now" "0 < w" and later: "now + us_to_ns w \<le> now'"
  shows "nd \<le> now' \<or> sleep_wait nd cd now' \<le> 0"
proof (cases "w = ns_to_us (nd - now) + 1000")
  case True
  have "nd - now < ns_to_us (nd - now) * 1000 + 1000" using assms(1) ns_to_us_bounds [of "nd - now"] by simp
  with True later have "nd \<le> now'" by (simp add: us_to_ns_def)
  then show ?thesis ..
next
  case False
  then have w': "w = ns_to_us (cd - now)" using w(1) by (auto simp: sleep_wait_def min_def split: if_splits)
  then have "1000 \<le> cd - now" using w(2) by (simp add: ns_to_us_pos_iff)
  then have "cd - now < w * 1000 + 1000" using ns_to_us_bounds [of "cd - now"] w' by simp
  then have "cd - now' < 1000" using later by (simp add: us_to_ns_def)
  then have "ns_to_us (cd - now') \<le> 0" using ns_to_us_pos_iff [of "cd - now'"] by linarith
  then show ?thesis by (simp add: sleep_wait_def min_le_iff_disj)
qed

text \<open>With enough of the caller's time left, the sleep lasts until the frame is due.\<close>

lemma long_sleep:
  assumes "now < nd" and time: "nd + 1001000 \<le> cd"
  shows "sleep_wait nd cd now = ns_to_us (nd - now) + 1000" "0 < sleep_wait nd cd now"
    and "now + us_to_ns (sleep_wait nd cd now) \<le> now' \<Longrightarrow> nd \<le> now'"
proof -
  have b: "ns_to_us (nd - now) * 1000 \<le> nd - now" "nd - now < ns_to_us (nd - now) * 1000 + 1000"
    using assms(1) ns_to_us_bounds [of "nd - now"] by simp_all
  have b': "cd - now < ns_to_us (cd - now) * 1000 + 1000"
    using assms ns_to_us_bounds [of "cd - now"] by simp
  show eq: "sleep_wait nd cd now = ns_to_us (nd - now) + 1000"
    using b b' time by (simp add: sleep_wait_def)
  show "0 < sleep_wait nd cd now" using eq b assms(1) by simp
  show "now + us_to_ns (sleep_wait nd cd now) \<le> now' \<Longrightarrow> nd \<le> now'"
    using eq b by (simp add: us_to_ns_def)
qed

subsection \<open>Calls while the capture thread runs\<close>

text \<open>
  Before each step of the consumer the capture thread may have changed the handle, within its
  guarantee.
\<close>

definition capture_guarantee :: "(weba_capture \<Rightarrow> weba_capture) \<Rightarrow> bool" where
  "capture_guarantee g \<longleftrightarrow> (\<forall>c. handle_wf c \<longrightarrow> handle_wf (g c) \<and> loop_frame c (g c))"

fun read_exec :: "(read_in \<times> (weba_capture \<Rightarrow> weba_capture)) list \<Rightarrow>
    read_state \<times> weba_capture \<Rightarrow> (read_state \<times> weba_capture) outcome" where
  "read_exec [] s = Inr s"
| "read_exec ((i, g) # es) (r, c) = sum_bind (read_step i (r, g c)) (read_exec es)"

lemma loop_frame_bytes: "loop_frame c c' \<Longrightarrow> frame_bytes c' = frame_bytes c"
  by (simp add: loop_frame_def frame_bytes_mic)

lemma loop_frame_period:
  "loop_frame c c' \<Longrightarrow>
     h_frame_samples c' = h_frame_samples c \<and> h_sample_rate c' = h_sample_rate c"
  by (simp add: loop_frame_def mic_format_of_def)

lemma read_inv_guarantee: "read_inv r c \<Longrightarrow> capture_guarantee g \<Longrightarrow> read_inv r (g c)"
  using loop_frame_bytes loop_frame_period by (auto simp: read_inv_def capture_guarantee_def)

text \<open>What decides the course of a call: not touched by the capture thread, kept by the consumer.\<close>

definition pace_of :: "weba_capture \<Rightarrow> bool \<times> bool \<times> bool \<times> ns \<times> bool" where
  "pace_of c = (h_fixed_rate c, h_stop_requested c, h_deadline_valid c, h_next_deadline c,
     closed (h_queue c))"

lemma pace_guarantee: "handle_wf c \<Longrightarrow> capture_guarantee g \<Longrightarrow> pace_of (g c) = pace_of c"
  by (auto simp: capture_guarantee_def loop_frame_def pace_of_def)

lemma read_exec_returned:
  "rd_pc r = RReturn st \<Longrightarrow> \<exists>c'. read_exec es (r, c) = Inr (r, c')"
proof (induction es arbitrary: c)
  case (Cons e es)
  then show ?case by (cases e) (simp add: read_step_def)
qed simp

text \<open>From the pop on, three steps end the call, in every case.\<close>

definition returned :: "int set \<Rightarrow> (read_state \<times> weba_capture) outcome \<Rightarrow> bool" where
  "returned sts o' \<longleftrightarrow> (\<exists>r c st. o' = Inr (r, c) \<and> rd_pc r = RReturn st \<and> st \<in> sts)"

lemma step_pop_fixed:
  assumes inv: "read_inv r c"
  obtains r' c' st where "step_pop RFlags r c = Inr (r', c')" "read_inv r' c'"
    "rd_pc r' = RFlags st \<or> rd_pc r' = RReturn WEBA_ERR_STATE \<and> closed (h_queue c)"
    "pace_of c' = pace_of c"
proof -
  from step_pop_inv [OF inv, of RFlags] obtain r' c' where
    1: "step_pop RFlags r c = Inr (r', c')" "read_inv r' c'" "read_frame_rel c c'" by blast
  have wf: "handle_wf c" "frame_bytes c \<le> length (rd_dst r)" using inv by (simp_all add: read_inv_def)
  have "(\<exists>st. rd_pc r' = RFlags st) \<or> rd_pc r' = RReturn WEBA_ERR_STATE \<and> closed (h_queue c)"
    using step_pop_frame [OF wf, of _ _ RFlags] step_pop_empty [OF wf, of RFlags] 1(1)
    by (cases "frames (h_queue c)") (auto split: if_splits)
  moreover have "h_next_deadline c' = h_next_deadline c" "h_deadline_valid c' = h_deadline_valid c"
    using 1(1) by (auto simp: step_pop_def sum_bind_eq_Inr split: if_splits)
  ultimately show ?thesis
    using that [OF 1(1,2)] 1(3) by (auto simp: read_frame_rel_def pace_of_def)
qed

lemma pop_exec_returns:
  assumes inv: "read_inv r c" and pc: "rd_pc r = RPop"
    and g: "capture_guarantee g1" "capture_guarantee g2" "capture_guarantee g3"
  shows "returned ({1} \<union> (if closed (h_queue c) then {WEBA_ERR_STATE} else {}))
           (read_exec ((i1, g1) # (i2, g2) # (i3, g3) # es) (r, c))"
proof -
  note wf = inv [unfolded read_inv_def, THEN conjunct1]
  have inv1: "read_inv r (g1 c)" by (rule read_inv_guarantee [OF inv g(1)])
  obtain r' c' st where p: "step_pop RFlags r (g1 c) = Inr (r', c')" "read_inv r' c'"
    "rd_pc r' = RFlags st \<or> rd_pc r' = RReturn WEBA_ERR_STATE \<and> closed (h_queue (g1 c))"
    "pace_of c' = pace_of (g1 c)"
    by (rule step_pop_fixed [OF inv1])
  have closed: "closed (h_queue (g1 c)) = closed (h_queue c)"
    using pace_guarantee [OF wf g(1)] by (simp add: pace_of_def)
  have s1: "read_step i1 (r, g1 c) = Inr (r', c')" using p(1) pc by (simp add: read_step_def)
  show ?thesis
  proof (cases "rd_pc r' = RReturn WEBA_ERR_STATE")
    case True
    from read_exec_returned [OF True] obtain c'' where
      "read_exec ((i2, g2) # (i3, g3) # es) (r', c') = Inr (r', c'')" by blast
    with s1 True closed p(3) show ?thesis by (simp add: returned_def)
  next
    case False
    with p(3) have pc': "rd_pc r' = RFlags st" by simp
    have inv2: "read_inv r' (g2 c')" by (rule read_inv_guarantee [OF p(2) g(2)])
    from step_flags_inv [OF inv2, of st] obtain r2 c2 where
      f: "step_flags st r' (g2 c') = Inr (r2, c2)" by blast
    then obtain fl where fl: "rd_pc r2 = RAfter fl"
      by (auto simp: step_flags_def Let_def sum_bind_eq_Inr split: if_splits)
    have s2: "read_step i2 (r', g2 c') = Inr (r2, c2)" using f pc' by (simp add: read_step_def)
    obtain r3 c3 where a: "step_after i3 fl r2 (g3 c2) = (r3, c3)" "rd_pc r3 = RReturn 1"
      by (simp add: step_after_def Let_def)
    have s3: "read_step i3 (r2, g3 c2) = Inr (r3, c3)" using a fl by (simp add: read_step_def)
    from read_exec_returned [OF a(2), of es c3] obtain c4 where "read_exec es (r3, c3) = Inr (r3, c4)" by blast
    with s1 s2 s3 a(2) show ?thesis by (simp add: returned_def)
  qed
qed

subsection \<open>Every call returns\<close>

text \<open>
  The one thing asked of the surroundings: a sleep lasts as long as it was asked to, on the clock
  the loop reads next.
\<close>

definition sleep_honoured :: "weba_capture \<Rightarrow> read_state \<Rightarrow> read_in \<Rightarrow> read_in \<Rightarrow> read_in \<Rightarrow> bool" where
  "sleep_honoured c r i0 i1 i2 \<longleftrightarrow>
     (let w = sleep_wait (due_at c (ri_now i0) (rd_period r)) (rd_call_deadline r) (ri_now i0)
      in w \<le> ri_waited i1 \<and> ri_now i0 + us_to_ns w \<le> ri_now i2)"

definition six_steps :: "(nat \<Rightarrow> read_in) \<Rightarrow> (nat \<Rightarrow> weba_capture \<Rightarrow> weba_capture) \<Rightarrow>
    (read_in \<times> (weba_capture \<Rightarrow> weba_capture)) list" where
  "six_steps i g = [(i 0, g 0), (i 1, g 1), (i 2, g 2), (i 3, g 3), (i 4, g 4), (i 5, g 5)]"

lemma read_inv_with_deadline: "read_inv r c \<Longrightarrow> read_inv (r\<lparr>rd_pc := pc\<rparr>) (with_deadline d c)"
  by (simp add: read_inv_def) (simp add: with_deadline_def)

lemma due_at_pace: "pace_of c = pace_of c' \<Longrightarrow> due_at c now p = due_at c' now p"
  by (simp add: due_at_def pace_of_def)

text \<open>The course of a call that finds its frame not yet due.\<close>

lemma exec_early:
  assumes inv: "read_inv r c" and pc: "rd_pc r = RTop"
    and fixed: "h_fixed_rate c" "\<not> h_stop_requested c"
    and g: "\<And>k. capture_guarantee (g k)"
    and honoured: "sleep_honoured c r (i 0) (i 1) (i 2)"
    and nd: "nd = due_at c (ri_now (i 0)) (rd_period r)" "ri_now (i 0) < nd"
    and w: "w = sleep_wait nd (rd_call_deadline r) (ri_now (i 0))" "0 < w"
  obtains c2 where "read_exec (six_steps i g) (r, c) =
      sum_bind (read_step (i 2) (r, c2)) (read_exec [(i 3, g 3), (i 4, g 4), (i 5, g 5)])"
    "read_inv r c2" "h_fixed_rate c2" "\<not> h_stop_requested c2" "h_deadline_valid c2"
    "h_next_deadline c2 = nd" "closed (h_queue c2) = closed (h_queue c)"
proof -
  have wf: "handle_wf c" using inv by (simp add: read_inv_def)
  have inv0: "read_inv r (g 0 c)" by (rule read_inv_guarantee [OF inv g])
  have p0: "pace_of (g 0 c) = pace_of c" by (rule pace_guarantee [OF wf g])
  let ?r1 = "r\<lparr>rd_pc := RSleep w\<rparr>"
  let ?c1 = "with_deadline nd (g 0 c)"
  have s0: "read_step (i 0) (r, g 0 c) = Inr (?r1, ?c1)"
    using pc fixed p0 nd w due_at_pace [OF p0] by (simp add: read_step_def step_top_fixed pace_of_def Let_def)
  have inv1: "read_inv ?r1 ?c1" by (rule read_inv_with_deadline [OF inv0])
  then have inv1': "read_inv ?r1 (g 1 ?c1)" by (rule read_inv_guarantee [OF _ g])
  have wf1: "handle_wf ?c1" using inv1 by (simp add: read_inv_def)
  have p1: "pace_of (g 1 ?c1) = pace_of ?c1" by (rule pace_guarantee [OF wf1 g])
  have "w \<le> ri_waited (i 1)" using honoured nd(1) w(1) by (simp add: sleep_honoured_def Let_def)
  then have s1: "read_step (i 1) (?r1, g 1 ?c1) = Inr (r, g 1 ?c1)"
    using pc by (simp add: read_step_def)
  have inv2: "read_inv r (g 1 ?c1)"
    using inv1' by (simp add: read_inv_def)
  have wf2: "handle_wf (g 1 ?c1)" using inv2 by (simp add: read_inv_def)
  have p2: "pace_of (g 2 (g 1 ?c1)) = pace_of (g 1 ?c1)" by (rule pace_guarantee [OF wf2 g])
  show ?thesis
  proof (rule that [of "g 2 (g 1 ?c1)"])
    show "read_exec (six_steps i g) (r, c) = sum_bind (read_step (i 2) (r, g 2 (g 1 ?c1)))
        (read_exec [(i 3, g 3), (i 4, g 4), (i 5, g 5)])"
      by (simp add: six_steps_def s0 s1 del: One_nat_def)
    show "read_inv r (g 2 (g 1 ?c1))" by (rule read_inv_guarantee [OF inv2 g])
  qed (use p0 p1 p2 fixed in \<open>simp_all add: pace_of_def\<close>)
qed

lemma exec_due:
  assumes inv: "read_inv r c" and pc: "rd_pc r = RTop" and fixed: "h_fixed_rate c"
    and g: "\<And>k. capture_guarantee (g k)"
    and nd: "nd = due_at c (ri_now (i 0)) (rd_period r)" "nd \<le> ri_now (i 0)"
  shows "returned ({1} \<union> (if closed (h_queue c) then {WEBA_ERR_STATE} else {}))
           (read_exec (six_steps i g) (r, c))"
proof -
  have wf: "handle_wf c" using inv by (simp add: read_inv_def)
  have inv0: "read_inv r (g 0 c)" by (rule read_inv_guarantee [OF inv g])
  have p0: "pace_of (g 0 c) = pace_of c" by (rule pace_guarantee [OF wf g])
  let ?r1 = "r\<lparr>rd_pc := RPop\<rparr>"
  have s0: "read_step (i 0) (r, g 0 c) = Inr (?r1, with_deadline nd (g 0 c))"
    using pc fixed p0 nd due_at_pace [OF p0] by (simp add: read_step_def step_top_fixed pace_of_def Let_def)
  have "closed (h_queue (g 0 c)) = closed (h_queue c)" using p0 by (simp add: pace_of_def)
  with pop_exec_returns [OF read_inv_with_deadline [OF inv0, of RPop nd], where ?g1.0 = "g 1"
      and ?g2.0 = "g 2" and ?g3.0 = "g 3" and ?i1.0 = "i 1" and ?i2.0 = "i 2" and ?i3.0 = "i 3"
      and es = "[(i 4, g 4), (i 5, g 5)]"] g
  show ?thesis by (simp add: six_steps_def s0)
qed

text \<open>The second visit to the head, and what follows it.\<close>

lemma exec_second_due:
  assumes inv: "read_inv r c2" and pc: "rd_pc r = RTop" and c2: "h_fixed_rate c2" "h_deadline_valid c2"
    and g: "\<And>k. capture_guarantee (g k)" and due: "h_next_deadline c2 \<le> ri_now i2"
  shows "returned ({1} \<union> (if closed (h_queue c2) then {WEBA_ERR_STATE} else {}))
    (sum_bind (read_step i2 (r, c2)) (read_exec [(i3, g 3), (i4, g 4), (i5, g 5)]))"
proof -
  have "read_inv (r\<lparr>rd_pc := RPop\<rparr>) c2" using inv by (simp add: read_inv_def)
  from pop_exec_returns [OF this _ g g g, of i3 3 i4 4 i5 5 "[]"] c2 pc due
  show ?thesis by (simp add: read_step_def step_top_due)
qed

lemma exec_second_late:
  assumes pc: "rd_pc r = RTop" and c2: "h_fixed_rate c2" "h_deadline_valid c2"
    and late: "\<not> h_next_deadline c2 \<le> ri_now i2"
      "sleep_wait (h_next_deadline c2) (rd_call_deadline r) (ri_now i2) \<le> 0"
  shows "returned {0} (sum_bind (read_step i2 (r, c2)) (read_exec es))"
proof -
  let ?r = "r\<lparr>rd_pc := RReturn 0\<rparr>"
  have "read_step i2 (r, c2) = Inr (?r, with_deadline (h_next_deadline c2) c2)"
    using pc c2 late by (simp add: read_step_def step_top_fixed due_at_def Let_def)
  moreover obtain c3 where "read_exec es (?r, with_deadline (h_next_deadline c2) c2) = Inr (?r, c3)"
    using read_exec_returned [of ?r 0 es] by auto
  ultimately show ?thesis by (simp add: returned_def)
qed

lemma returned_mono: "returned A s \<Longrightarrow> A \<subseteq> B \<Longrightarrow> returned B s"
  by (auto simp: returned_def)

text \<open>A call that may not wait any more, and one that sleeps first.\<close>

lemma exec_out:
  assumes inv: "read_inv r c" and pc: "rd_pc r = RTop" and fixed: "h_fixed_rate c"
    and g: "\<And>k. capture_guarantee (g k)"
    and nd: "nd = due_at c (ri_now (i 0)) (rd_period r)" "ri_now (i 0) < nd"
    and out: "sleep_wait nd (rd_call_deadline r) (ri_now (i 0)) \<le> 0"
  shows "returned {0} (read_exec (six_steps i g) (r, c))"
proof -
  have wf: "handle_wf c" using inv by (simp add: read_inv_def)
  have p0: "pace_of (g 0 c) = pace_of c" by (rule pace_guarantee [OF wf g])
  let ?r = "r\<lparr>rd_pc := RReturn 0\<rparr>" and ?es = "[(i 1, g 1), (i 2, g 2), (i 3, g 3), (i 4, g 4), (i 5, g 5)]"
  have "read_step (i 0) (r, g 0 c) = Inr (?r, with_deadline nd (g 0 c))"
    using pc fixed p0 out due_at_pace [OF p0] nd by (simp add: read_step_def step_top_fixed pace_of_def Let_def)
  moreover obtain c3 where "read_exec ?es (?r, with_deadline nd (g 0 c)) = Inr (?r, c3)"
    using read_exec_returned [of ?r 0 ?es] by auto
  ultimately show ?thesis by (simp add: six_steps_def returned_def)
qed

lemma exec_sleeps:
  assumes inv: "read_inv r c" and pc: "rd_pc r = RTop"
    and fixed: "h_fixed_rate c" "\<not> h_stop_requested c"
    and g: "\<And>k. capture_guarantee (g k)"
    and honoured: "sleep_honoured c r (i 0) (i 1) (i 2)"
    and nd: "nd = due_at c (ri_now (i 0)) (rd_period r)" "ri_now (i 0) < nd"
    and w: "w = sleep_wait nd (rd_call_deadline r) (ri_now (i 0))" "0 < w"
  shows "returned ({0, 1} \<union> (if closed (h_queue c) then {WEBA_ERR_STATE} else {}))
           (read_exec (six_steps i g) (r, c))"
proof -
  have later: "ri_now (i 0) + us_to_ns w \<le> ri_now (i 2)"
    using honoured by (simp add: sleep_honoured_def nd(1) w(1) Let_def)
  obtain c2 where e: "read_exec (six_steps i g) (r, c) =
      sum_bind (read_step (i 2) (r, c2)) (read_exec [(i 3, g 3), (i 4, g 4), (i 5, g 5)])"
    "read_inv r c2" "h_fixed_rate c2" "\<not> h_stop_requested c2" "h_deadline_valid c2"
    "h_next_deadline c2 = nd" "closed (h_queue c2) = closed (h_queue c)"
    by (rule exec_early [where i = i and g = g, OF inv pc fixed g honoured nd w])
  show ?thesis
  proof (cases "nd \<le> ri_now (i 2)")
    case True
    then have "h_next_deadline c2 \<le> ri_now (i 2)" by (simp add: e(6))
    from exec_second_due [where g = g, OF e(2) pc e(3,5) g this] show ?thesis
      unfolding e(1) by (rule returned_mono) (simp add: e(7))
  next
    case False
    with one_sleep [OF nd(2) w later]
    have "\<not> h_next_deadline c2 \<le> ri_now (i 2)"
      "sleep_wait (h_next_deadline c2) (rd_call_deadline r) (ri_now (i 2)) \<le> 0" by (simp_all add: e(6))
    from exec_second_late [OF pc e(3,5) this] show ?thesis
      unfolding e(1) by (rule returned_mono) simp
  qed
qed

lemma exec_returns:
  assumes inv: "read_inv r c" and pc: "rd_pc r = RTop"
    and fixed: "h_fixed_rate c" "\<not> h_stop_requested c"
    and g: "\<And>k. capture_guarantee (g k)"
    and honoured: "sleep_honoured c r (i 0) (i 1) (i 2)"
  shows "returned ({0, 1} \<union> (if closed (h_queue c) then {WEBA_ERR_STATE} else {}))
           (read_exec (six_steps i g) (r, c))"
proof -
  define nd where "nd = due_at c (ri_now (i 0)) (rd_period r)"
  define w where "w = sleep_wait nd (rd_call_deadline r) (ri_now (i 0))"
  consider (due) "nd \<le> ri_now (i 0)" | (out) "ri_now (i 0) < nd" "w \<le> 0" | (sleep) "ri_now (i 0) < nd" "0 < w"
    by linarith
  then show ?thesis
  proof cases
    case due
    from exec_due [where i = i and g = g, OF inv pc fixed(1) g nd_def this] show ?thesis
      by (rule returned_mono) auto
  next
    case out
    from exec_out [where i = i and g = g, OF inv pc fixed(1) g nd_def out(1) out(2) [unfolded w_def]] show ?thesis
      by (rule returned_mono) simp
  next
    case sleep
    show ?thesis by (rule exec_sleeps [where i = i and g = g, OF inv pc fixed g honoured nd_def sleep(1) w_def sleep(2)])
  qed
qed

text \<open>With a timeout that reaches past the deadline by a little over a millisecond, it is a frame.\<close>

lemma exec_delivers:
  assumes inv: "read_inv r c" and pc: "rd_pc r = RTop"
    and fixed: "h_fixed_rate c" "\<not> h_stop_requested c" and op: "\<not> closed (h_queue c)"
    and g: "\<And>k. capture_guarantee (g k)"
    and honoured: "sleep_honoured c r (i 0) (i 1) (i 2)"
    and time: "due_at c (ri_now (i 0)) (rd_period r) + 1001000 \<le> rd_call_deadline r"
  shows "returned {1} (read_exec (six_steps i g) (r, c))"
proof -
  let ?now = "ri_now (i 0)" and ?cd = "rd_call_deadline r"
  define nd where "nd = due_at c ?now (rd_period r)"
  show ?thesis
  proof (cases "nd \<le> ?now")
    case True
    from exec_due [where i = i and g = g, OF inv pc fixed(1) g nd_def this] op show ?thesis by simp
  next
    case False
    then have early: "?now < nd" by simp
    have time': "nd + 1001000 \<le> ?cd" using time by (simp add: nd_def)
    note long = long_sleep [OF early time']
    have later: "?now + us_to_ns (sleep_wait nd ?cd ?now) \<le> ri_now (i 2)"
      using honoured by (simp add: sleep_honoured_def nd_def Let_def)
    obtain c2 where e: "read_exec (six_steps i g) (r, c) =
        sum_bind (read_step (i 2) (r, c2)) (read_exec [(i 3, g 3), (i 4, g 4), (i 5, g 5)])"
      "read_inv r c2" "h_fixed_rate c2" "\<not> h_stop_requested c2" "h_deadline_valid c2"
      "h_next_deadline c2 = nd" "closed (h_queue c2) = closed (h_queue c)"
      by (rule exec_early [where i = i and g = g, OF inv pc fixed g honoured nd_def early refl long(2)])
    with exec_second_due [where g = g, OF e(2) pc e(3,5) g, of "i 2" "i 3" "i 4" "i 5"] long(3) [OF later] op
    show ?thesis by simp
  qed
qed

subsection \<open>Without a fixed rate\<close>

text \<open>Once the caller's time is up, one more round ends the call, in every case.\<close>

lemma nonfixed_exec_returns:
  assumes inv: "read_inv r c" and pc: "rd_pc r = RTop" and mode: "\<not> h_fixed_rate c"
    and g: "\<And>k. capture_guarantee (g k)"
    and late: "rd_call_deadline r \<le> ri_now i0" "rd_call_deadline r \<le> ri_now i2" "0 \<le> ri_waited i1"
  shows "returned ({0, 1} \<union> (if closed (h_queue c) then {WEBA_ERR_STATE} else {}))
           (read_exec [(i0, g 0), (i1, g 1), (i2, g 2)] (r, c))"
proof -
  note wf = inv [unfolded read_inv_def, THEN conjunct1]
  have inv0: "read_inv r (g 0 c)" by (rule read_inv_guarantee [OF inv g])
  have wf0: "handle_wf (g 0 c)" using inv0 by (simp add: read_inv_def)
  have p0: "pace_of (g 0 c) = pace_of c" by (rule pace_guarantee [OF wf g])
  have p1: "pace_of (g 1 (g 0 c)) = pace_of c" using pace_guarantee [OF wf0 g] p0 by simp
  have neg: "ns_to_us (rd_call_deadline r - ri_now i0) \<le> 0" using late(1) by (intro ns_to_us_neg) simp
  let ?r1 = "r\<lparr>rd_pc := RPopWait 0\<rparr>" and ?c1 = "g 1 (g 0 c)"
  have s0: "read_step i0 (r, g 0 c) = Inr (?r1, g 0 c)"
    using pc mode p0 neg by (simp add: read_step_def step_top_def pace_of_def Let_def)
  have inv1: "read_inv ?r1 ?c1" using read_inv_guarantee [OF inv0 g, of 1] by (simp add: read_inv_def)
  let ?go = "\<lambda>result. if result = 0 then RTimeoutCheck else RInfo"
  from step_pop_inv [OF inv1, of ?go] obtain r2 c2 where
    2: "step_pop ?go ?r1 ?c1 = Inr (r2, c2)" "read_inv r2 c2" "read_frame_rel ?c1 c2" by blast
  have s1: "read_step i1 (?r1, ?c1) = Inr (r2, c2)"
    using 2(1) late(3) by (simp add: read_step_def pop_wait_def)
  have wf1: "handle_wf ?c1" "frame_bytes ?c1 \<le> length (rd_dst ?r1)"
    using inv1 by (simp_all add: read_inv_def)
  have r2: "rd_pc r2 = RTimeoutCheck \<or> rd_pc r2 = RInfo \<or> rd_pc r2 = RReturn WEBA_ERR_STATE \<and> closed (h_queue c)"
    "rd_call_deadline r2 = rd_call_deadline r"
    using step_pop_frame [OF wf1, of _ _ ?go] step_pop_empty [OF wf1, of ?go] 2(1) p1
    by (cases "frames (h_queue ?c1)"; auto simp: pace_of_def split: if_splits)+
  have "\<exists>r3 c3 st. read_step i2 (r2, g 2 c2) = Inr (r3, c3) \<and> rd_pc r3 = RReturn st \<and>
      (st = 0 \<or> st = 1 \<or> st = WEBA_ERR_STATE \<and> closed (h_queue c))"
    using r2 late(2) by (auto simp: read_step_def step_info_def split: option.splits)
  with s0 s1 show ?thesis by (auto simp: returned_def)
qed

end
