(* ===== verification/Transition.thy ===== *)
theory Transition
  imports Main
begin

text \<open>
  Labelled transition systems: reachable states and invariants. Every state machine of the
  development is an instance; an invariant is proved by giving its two obligations to the locale.
\<close>

inductive reachable :: "('s \<Rightarrow> bool) \<Rightarrow> ('s \<Rightarrow> 'a \<Rightarrow> 's \<Rightarrow> bool) \<Rightarrow> 's \<Rightarrow> bool" for init step where
  reach_init: "init s \<Longrightarrow> reachable init step s"
| reach_step: "reachable init step s \<Longrightarrow> step s a t \<Longrightarrow> reachable init step t"

lemma reachable_mono:
  "reachable init step s \<Longrightarrow> (\<And>s. init s \<Longrightarrow> init' s) \<Longrightarrow> reachable init' step s"
  by (induction rule: reachable.induct) (auto intro: reachable.intros)

locale invariant_rule =
  fixes init :: "'s \<Rightarrow> bool"
    and step :: "'s \<Rightarrow> 'a \<Rightarrow> 's \<Rightarrow> bool"
    and inv :: "'s \<Rightarrow> bool"
  assumes inv_init: "init s \<Longrightarrow> inv s"
    and inv_step: "inv s \<Longrightarrow> step s a t \<Longrightarrow> inv t"
begin

lemma invariant: "reachable init step s \<Longrightarrow> inv s"
  by (induction rule: reachable.induct) (auto intro: inv_init inv_step)

end

text \<open>A second invariant whose preservation rests on the first.\<close>

locale relative_invariant = invariant_rule init step inv
  for init :: "'s \<Rightarrow> bool" and step :: "'s \<Rightarrow> 'a \<Rightarrow> 's \<Rightarrow> bool" and inv :: "'s \<Rightarrow> bool" +
  fixes rel :: "'s \<Rightarrow> bool"
  assumes rel_init: "init s \<Longrightarrow> rel s"
    and rel_step: "inv s \<Longrightarrow> rel s \<Longrightarrow> step s a t \<Longrightarrow> rel t"

sublocale relative_invariant \<subseteq> both: invariant_rule init step "\<lambda>s. inv s \<and> rel s"
  by unfold_locales (auto intro: inv_init inv_step rel_init rel_step)

text \<open>A finite execution, by its labels.\<close>

inductive execution :: "('s \<Rightarrow> 'a \<Rightarrow> 's \<Rightarrow> bool) \<Rightarrow> 's \<Rightarrow> 'a list \<Rightarrow> 's \<Rightarrow> bool" for step where
  exec_nil: "execution step s [] s"
| exec_cons: "step s a t \<Longrightarrow> execution step t as u \<Longrightarrow> execution step s (a # as) u"

inductive_simps execution_Nil: "execution step s [] t"
inductive_simps execution_Cons: "execution step s (a # as) t"

lemma execution_append:
  "execution step s (as @ bs) u \<longleftrightarrow> (\<exists>t. execution step s as t \<and> execution step t bs u)"
  by (induction as arbitrary: s) (auto simp: execution_Nil execution_Cons)

lemma execution_reachable:
  "execution step s as t \<Longrightarrow> reachable init step s \<Longrightarrow> reachable init step t"
  by (induction rule: execution.induct) (auto intro: reach_step)

subsection \<open>Fair schedules\<close>

text \<open>
  Liveness needs a schedule in which every thread gets its turns; a thread that cannot move lets its
  turn pass. While the rank is not zero, one thread is the one that matters: a turn of it lowers the
  rank, and the turns of the others do not raise it and leave the choice as it is as long as the rank is.
  Then every round in which all threads have had a turn lowers the rank.
\<close>

locale ranked_turns =
  fixes turn :: "'a \<Rightarrow> 's \<Rightarrow> 's"
    and owner :: "'a \<Rightarrow> 'p"
    and inv :: "'s \<Rightarrow> bool"
    and rank :: "'s \<Rightarrow> nat"
    and helpful :: "'s \<Rightarrow> 'p"
  assumes turn_inv: "inv s \<Longrightarrow> inv (turn a s)"
    and turn_rank: "inv s \<Longrightarrow> rank (turn a s) \<le> rank s"
    and turn_helps: "inv s \<Longrightarrow> 0 < rank s \<Longrightarrow> owner a = helpful s \<Longrightarrow> rank (turn a s) < rank s"
    and turn_stays: "inv s \<Longrightarrow> rank (turn a s) = rank s \<Longrightarrow> helpful (turn a s) = helpful s"
begin

lemma turns_rank: "inv s \<Longrightarrow> inv (fold turn as s) \<and> rank (fold turn as s) \<le> rank s"
proof (induction as arbitrary: s)
  case (Cons a as)
  with turn_inv [OF Cons.prems, of a] turn_rank [OF Cons.prems, of a] show ?case
    by (auto intro: le_trans)
qed simp

lemma round_lowers:
  "inv s \<Longrightarrow> 0 < rank s \<Longrightarrow> helpful s \<in> owner ` set as \<Longrightarrow> rank (fold turn as s) < rank s"
proof (induction as arbitrary: s)
  case (Cons a as)
  note inv = turn_inv [OF Cons.prems(1), of a]
  show ?case
  proof (cases "rank (turn a s) = rank s")
    case True
    with turn_helps [OF Cons.prems(1,2), of a] have "owner a \<noteq> helpful s" by auto
    with Cons.IH [OF inv] Cons.prems turn_stays [OF Cons.prems(1) True] True show ?thesis by auto
  next
    case False
    with turn_rank [OF Cons.prems(1), of a] turns_rank [OF inv, of as] show ?thesis by simp
  qed
qed simp

lemma rounds_finish:
  assumes "inv s" "rank s \<le> length rs" "\<And>r. r \<in> set rs \<Longrightarrow> owner ` set r = UNIV"
  shows "inv (fold turn (concat rs) s)" "rank (fold turn (concat rs) s) = 0"
proof -
  have "rank (fold turn (concat rs) s) \<le> rank s - length rs" using assms(1,3)
  proof (induction rs arbitrary: s)
    case (Cons r rs)
    have "rank (fold turn r s) \<le> rank s - 1"
      using round_lowers [OF Cons.prems(1), of r] Cons.prems(2) [of r] turns_rank [OF Cons.prems(1), of r]
      by (cases "rank s = 0") auto
    with Cons.IH [of "fold turn r s"] turns_rank [OF Cons.prems(1), of r] Cons.prems(2) show ?case by auto
  qed simp
  with assms(2) turns_rank [OF assms(1)] show "inv (fold turn (concat rs) s)" "rank (fold turn (concat rs) s) = 0"
    by simp_all
qed

end

end
