(* ===== verification/System.thy ===== *)
theory System
  imports Read_Call Transition
begin

text \<open>
  The running capture as one system: the shared handle, the capture thread, the consumer's thread,
  the first two effects of \<open>weba_capture_stop()\<close>, and the state callback of the connection, which
  libpulse's thread runs whenever the server goes away. A step is one step of one thread, so the
  machines interleave in every way. Four components are not in the code but record its history:
  the frames pushed, the frames handed to the caller with their drop counts, and, for each frame at
  fixed rate, the deadline it met and the time it was handed out.
\<close>

subsection \<open>The system\<close>

record sys =
  s_h :: weba_capture
  s_loop :: loop_state
  s_read :: "read_state option"
  s_clock :: ns
  s_pushed :: "byte list list"
  s_got :: "(nat \<times> byte list) list"
  s_released :: "(ns \<times> ns) list"

text \<open>A call carries its buffer, capacity, \<open>info\<close>, timeout and the clock at entry.\<close>

datatype act =
    Capture loop_in
  | Consume read_in
  | Call "byte list" u32 "weba_frame_info option" int ns
  | RequestStop
  | CloseQueue
  | Event pa_context_state

text \<open>\<open>control_t::state_callback\<close>, as the loop thread of the connection runs it.\<close>

abbreviation server_event :: "pa_context_state \<Rightarrow> weba_capture \<Rightarrow> weba_capture" where
  "server_event st c \<equiv> c\<lparr>h_control := state_callback st (h_control c)\<rparr>"

text \<open>What a step of either thread adds to the history.\<close>

definition newly_pushed :: "loop_state \<Rightarrow> weba_capture \<Rightarrow> byte list list" where
  "newly_pushed l c = (if lp_pc l = LPush \<and> \<not> closed (h_queue c) then [lp_buffer l] else [])"

definition popping :: "read_pc \<Rightarrow> bool" where
  "popping pc \<longleftrightarrow> (case pc of RPop \<Rightarrow> True | RPopWait _ \<Rightarrow> True | _ \<Rightarrow> False)"

definition got_frame :: "read_pc \<Rightarrow> bool" where
  "got_frame pc \<longleftrightarrow> (case pc of RFlags res \<Rightarrow> res \<noteq> 0 | RInfo \<Rightarrow> True | _ \<Rightarrow> False)"

definition newly_got :: "read_state \<Rightarrow> read_state \<Rightarrow> weba_capture \<Rightarrow> (nat \<times> byte list) list" where
  "newly_got r r' c = (if popping (rd_pc r) \<and> got_frame (rd_pc r')
     then [(rd_total r', take (frame_bytes c) (rd_dst r'))] else [])"

definition newly_released :: "read_state \<Rightarrow> weba_capture \<Rightarrow> ns \<Rightarrow> (ns \<times> ns) list" where
  "newly_released r c now = (case rd_pc r of RAfter _ \<Rightarrow> [(h_next_deadline c, now)] | _ \<Rightarrow> [])"

definition idle :: "read_state option \<Rightarrow> bool" where
  "idle ro \<longleftrightarrow> (case ro of None \<Rightarrow> True | Some r \<Rightarrow> (case rd_pc r of RReturn _ \<Rightarrow> True | _ \<Rightarrow> False))"

text \<open>
  A call is made by a caller that keeps the contract of the header: one consumer at a time, and a
  buffer that holds as many frames as it says.
\<close>

definition honest_buffer :: "weba_capture \<Rightarrow> byte list \<Rightarrow> u32 \<Rightarrow> bool" where
  "honest_buffer c d cap \<longleftrightarrow>
     unat cap * unat (h_channels c) * bytes_per_sample_of (h_format c) \<le> length d"

inductive sys_step :: "sys \<Rightarrow> act \<Rightarrow> sys \<Rightarrow> bool" where
  sys_capture: "loop_step i (s_loop s, s_h s) = Inr (l', c') \<Longrightarrow>
     sys_step s (Capture i) (s\<lparr>s_loop := l', s_h := c',
       s_pushed := s_pushed s @ newly_pushed (s_loop s) (s_h s)\<rparr>)"
| sys_consume: "s_read s = Some r \<Longrightarrow> s_clock s \<le> ri_now i \<Longrightarrow> read_step i (r, s_h s) = Inr (r', c') \<Longrightarrow>
     sys_step s (Consume i) (s\<lparr>s_read := Some r', s_h := c', s_clock := ri_now i,
       s_got := s_got s @ newly_got r r' (s_h s),
       s_released := s_released s @ newly_released r (s_h s) (ri_now i)\<rparr>)"
| sys_call: "idle (s_read s) \<Longrightarrow> s_clock s \<le> now \<Longrightarrow> honest_buffer (s_h s) d cap \<Longrightarrow>
     read_frame_entry (Some (s_h s)) (Some d) cap info timeout now = Inr r \<Longrightarrow>
     sys_step s (Call d cap info timeout now) (s\<lparr>s_read := Some r, s_clock := now\<rparr>)"
| sys_request: "sys_step s RequestStop (s\<lparr>s_h := (s_h s)\<lparr>h_stop_requested := True\<rparr>\<rparr>)"
| sys_close: "h_stop_requested (s_h s) \<Longrightarrow>
     sys_step s CloseQueue (s\<lparr>s_h := (s_h s)\<lparr>h_queue := queue_close (h_queue (s_h s))\<rparr>\<rparr>)"
| sys_event: "ct_thread (h_control (s_h s)) \<Longrightarrow> sys_step s (Event st) (s\<lparr>s_h := server_event st (s_h s)\<rparr>)"

inductive_cases sys_captureE: "sys_step s (Capture i) t"
inductive_cases sys_consumeE: "sys_step s (Consume i) t"
inductive_cases sys_callE: "sys_step s (Call d cap info timeout now) t"

inductive_simps sys_request_iff: "sys_step s RequestStop t"
inductive_simps sys_close_iff: "sys_step s CloseQueue t"

text \<open>A handle as \<open>weba_capture_start()\<close> leaves it, and the system that starts from it.\<close>

definition started :: "weba_capture \<Rightarrow> bool" where
  "started c \<longleftrightarrow> handle_wf c \<and> frames (h_queue c) = [] \<and> q_dropped (h_queue c) = 0 \<and>
     \<not> closed (h_queue c) \<and> h_running c \<and> \<not> h_stop_requested c \<and> h_pending_flags c = 0 \<and>
     \<not> h_deadline_valid c"

definition sys_of :: "weba_capture \<Rightarrow> sys" where
  "sys_of c = \<lparr>s_h = c, s_loop = loop_start c, s_read = None, s_clock = 0, s_pushed = [],
     s_got = [], s_released = []\<rparr>"

definition sys_init :: "sys \<Rightarrow> bool" where
  "sys_init s \<longleftrightarrow> started (s_h s) \<and> s = (sys_of (s_h s))\<lparr>s_clock := s_clock s\<rparr>"

subsection \<open>No step faults\<close>

definition active_inv :: "read_state option \<Rightarrow> weba_capture \<Rightarrow> bool" where
  "active_inv ro c \<longleftrightarrow> (case ro of None \<Rightarrow> True | Some r \<Rightarrow> (\<exists>st. rd_pc r = RReturn st) \<or> read_inv r c)"

definition sys_safe :: "sys \<Rightarrow> bool" where
  "sys_safe s \<longleftrightarrow> handle_wf (s_h s) \<and> loop_inv (s_loop s) (s_h s) \<and> active_inv (s_read s) (s_h s)"

lemma active_inv_frame:
  assumes "active_inv ro c" "handle_wf c'" "mic_format_of c' = mic_format_of c"
  shows "active_inv ro c'"
proof -
  have "frame_bytes c' = frame_bytes c" "h_frame_samples c' = h_frame_samples c"
    "h_sample_rate c' = h_sample_rate c"
    using assms(3) by (simp_all add: frame_bytes_mic) (simp_all add: mic_format_of_def)
  with assms show ?thesis by (auto simp: active_inv_def read_inv_def split: option.splits)
qed

lemma loop_inv_frame:
  "loop_inv l c \<Longrightarrow> handle_wf c' \<Longrightarrow> mic_format_of c' = mic_format_of c \<Longrightarrow>
     h_requested_sink c' = h_requested_sink c \<Longrightarrow> loop_inv l c'"
  by (simp add: loop_inv_def frame_bytes_mic)

lemma honest_buffer_size:
  assumes "handle_wf c" "honest_buffer c d cap" "\<not> cap < h_frame_samples c"
  shows "frame_bytes c \<le> length d"
proof -
  have sup: "channels_supported (h_channels c)"
    using assms(1) by (simp add: handle_wf_def format_wf_def mic_format_valid_def mic_format_of_def)
  have "unat (h_frame_samples c) \<le> unat cap" using assms(3) by (simp add: word_less_nat_alt)
  then have "frame_bytes c \<le> unat cap * unat (h_channels c) * bytes_per_sample_of (h_format c)"
    unfolding frame_bytes_eq [OF sup] by (intro mult_le_mono1)
  with assms(2) show ?thesis by (simp add: honest_buffer_def)
qed

lemma active_call:
  assumes wf: "handle_wf c" and buffer: "honest_buffer c d cap"
    and entry: "read_frame_entry (Some c) (Some d) cap info timeout now = Inr r"
  shows "active_inv (Some r) c"
  using entry honest_buffer_size [OF wf buffer] wf
  by (auto simp: read_entry_cases active_inv_def read_inv_def read_refused_def split: if_splits)

lemma active_read:
  assumes "handle_wf c" "active_inv (Some r) c" "read_step i (r, c) = Inr (r', c')"
  shows "active_inv (Some r') c'" "handle_wf c'" "read_frame_rel c c'"
proof -
  have "active_inv (Some r') c' \<and> handle_wf c' \<and> read_frame_rel c c'"
  proof (cases "\<exists>st. rd_pc r = RReturn st")
    case True
    with assms show ?thesis by (auto simp: read_step_def)
  next
    case False
    with assms(2) have "read_inv r c" by (auto simp: active_inv_def)
    from read_step_inv [OF this, of i] assms(3) show ?thesis by (auto simp: active_inv_def read_inv_def)
  qed
  then show "active_inv (Some r') c'" "handle_wf c'" "read_frame_rel c c'" by simp_all
qed

lemma active_read_total: "handle_wf c \<Longrightarrow> active_inv (Some r) c \<Longrightarrow> \<exists>x. read_step i (r, c) = Inr x"
  using read_step_inv [of r c i] by (cases "rd_pc r") (auto simp: active_inv_def read_step_def)

lemma sys_safe_init: "sys_init s \<Longrightarrow> sys_safe s"
proof -
  assume init: "sys_init s"
  then obtain k where s: "s = (sys_of (s_h s))\<lparr>s_clock := k\<rparr>" and st: "started (s_h s)"
    by (auto simp: sys_init_def)
  have "s_loop s = loop_start (s_h s)" "s_read s = None"
    by (subst s, simp add: sys_of_def)+
  with st show ?thesis by (simp add: sys_safe_def started_def loop_inv_start active_inv_def)
qed

lemma sys_safe_step: "sys_safe s \<Longrightarrow> sys_step s a t \<Longrightarrow> sys_safe t"
proof -
  assume safe: "sys_safe s" and "sys_step s a t"
  from this(2) show "sys_safe t"
  proof cases
    case (sys_capture i l' c')
    have inv: "loop_inv (s_loop s) (s_h s)" using safe by (simp add: sys_safe_def)
    from loop_step_inv [OF inv, of i] sys_capture(3) have "loop_inv l' c'" "loop_frame (s_h s) c'"
      by auto
    with safe active_inv_frame [of "s_read s" "s_h s" c'] show ?thesis
      unfolding sys_capture(2) by (simp add: sys_safe_def loop_inv_def loop_frame_def)
  next
    case (sys_consume r i r' c')
    have "handle_wf (s_h s)" "active_inv (Some r) (s_h s)" using safe sys_consume(3) by (simp_all add: sys_safe_def)
    note read = active_read [OF this sys_consume(5)]
    with safe loop_inv_frame [of "s_loop s" "s_h s" c'] show ?thesis unfolding sys_consume(2)
      by (simp add: sys_safe_def read_frame_rel_def)
  next
    case (sys_call now d cap info timeout r)
    have "handle_wf (s_h s)" using safe by (simp add: sys_safe_def)
    from active_call [OF this sys_call(5,6)] safe show ?thesis unfolding sys_call(2) by (simp add: sys_safe_def)
  next
    case sys_request
    let ?c = "(s_h s)\<lparr>h_stop_requested := True\<rparr>"
    have "handle_wf ?c" "mic_format_of ?c = mic_format_of (s_h s)"
      using safe by (simp_all add: sys_safe_def mic_format_of_def)
    then show ?thesis
      using safe active_inv_frame [of "s_read s" "s_h s" ?c] loop_inv_frame [of "s_loop s" "s_h s" ?c]
      unfolding sys_request(2) by (simp add: sys_safe_def)
  next
    case sys_close
    let ?c = "(s_h s)\<lparr>h_queue := queue_close (h_queue (s_h s))\<rparr>"
    have "handle_wf (s_h s)" using safe by (simp add: sys_safe_def)
    then have "handle_wf ?c"
      by (intro handle_wf_queue queue_close_refines) (auto simp: handle_wf_def queue_close_def)
    moreover have "mic_format_of ?c = mic_format_of (s_h s)" by (simp add: mic_format_of_def)
    ultimately show ?thesis
      using safe active_inv_frame [of "s_read s" "s_h s" ?c] loop_inv_frame [of "s_loop s" "s_h s" ?c]
      unfolding sys_close(2) by (simp add: sys_safe_def)
  next
    case (sys_event st)
    let ?c = "server_event st (s_h s)"
    have "handle_wf ?c" "mic_format_of ?c = mic_format_of (s_h s)"
      using safe by (simp_all add: sys_safe_def mic_format_of_def)
    then show ?thesis
      using safe active_inv_frame [of "s_read s" "s_h s" ?c] loop_inv_frame [of "s_loop s" "s_h s" ?c]
      unfolding sys_event(2) by (simp add: sys_safe_def)
  qed
qed

interpretation safe: invariant_rule sys_init sys_step sys_safe
  by unfold_locales (auto intro: sys_safe_init sys_safe_step)

end
