(* ===== verification/Delivery.thy ===== *)
theory Delivery
  imports System
begin

text \<open>
  What reaches the caller. Three invariants of the running system: every frame captured is
  delivered, reported as dropped, or still queued, in order; a frame handed out is either captured
  audio or flagged zeros, never one for the other; and at fixed rate the deadlines follow one law.
\<close>

subsection \<open>Steps of the two threads, as the queue sees them\<close>

lemma loop_step_queue:
  assumes inv: "loop_inv l c" and step: "loop_step i (l, c) = Inr (l', c')"
  shows "h_queue c' = (if lp_pc l = LPush then q_push (lp_buffer l) (h_queue c) else h_queue c)"
proof (cases "lp_pc l = LPush")
  case True
  have wf: "handle_wf c" "length (lp_buffer l) = frame_bytes c"
    using inv by (simp_all add: loop_inv_def)
  obtain q n where "queue_push (lp_buffer l) (h_queue c) = Inr (q, n)" "q = q_push (lp_buffer l) (h_queue c)"
    by (rule push_wf [OF wf]) (rule that; assumption)
  with step True show ?thesis by (auto simp: loop_step_def)
next
  case False
  with step show ?thesis
    by (auto simp: loop_steps
        split: loop_pc.splits prod.splits option.splits sum.splits if_splits)
qed

lemma loop_step_pending:
  assumes "loop_step i (l, c) = Inr (l', c')"
  shows "h_pending_flags c' = h_pending_flags c \<or> h_pending_flags c' = h_pending_flags c OR reinit_flags"
  using assms
  by (auto simp: loop_steps
      sum_bind_eq_Inr split: loop_pc.splits prod.splits option.splits sum.splits if_splits)

text \<open>A step of the consumer that does not pop leaves the queue alone.\<close>

lemma read_step_quiet:
  assumes "read_step i (r, c) = Inr (r', c')" "\<not> popping (rd_pc r)"
  shows "h_queue c' = h_queue c" "newly_got r r' c = []"
  using assms
  by (auto simp: read_steps popping_def
      newly_got_def sum_bind_eq_Inr split: read_pc.splits option.splits if_splits)

text \<open>Where a pop leads, by its result.\<close>

definition pop_leads :: "read_pc \<Rightarrow> int \<Rightarrow> read_pc" where
  "pop_leads pc result = (case pc of RPop \<Rightarrow> RFlags result
     | _ \<Rightarrow> if result = 0 then RTimeoutCheck else RInfo)"

lemma read_step_pop:
  assumes "read_step i (r, c) = Inr (r', c')" "popping (rd_pc r)"
  obtains (blocked) "r' = r" "c' = c"
    | (pop) "step_pop (pop_leads (rd_pc r)) r c = Inr (r', c')"
proof (cases "rd_pc r")
  case (RPopWait w)
  have leads: "pop_leads (RPopWait w) = (\<lambda>result. if result = 0 then RTimeoutCheck else RInfo)"
    by (rule ext) (simp add: pop_leads_def)
  with RPopWait assms have "r' = r \<and> c' = c \<or> step_pop (pop_leads (rd_pc r)) r c = Inr (r', c')"
    by (auto simp: read_step_def split: if_splits)
  with that show ?thesis by blast
next
  case RPop
  have "pop_leads RPop = RFlags" by (rule ext) (simp add: pop_leads_def)
  with assms RPop that show ?thesis by (simp add: read_step_def)
qed (use assms in \<open>simp_all add: popping_def\<close>)

text \<open>The cases of a pop: a frame, nothing, or the end of a closed queue.\<close>

lemma step_pop_cases:
  assumes inv: "read_inv r c" and step: "step_pop go r c = Inr (r', c')"
  obtains (frame) f fs where "frames (h_queue c) = f # fs"
      "r' = r\<lparr>rd_dst := f @ drop (frame_bytes c) (rd_dst r),
         rd_total := size_add (rd_total r) (q_dropped (h_queue c)), rd_pc := go 1\<rparr>"
      "c' = c\<lparr>h_queue := fst (q_pop (h_queue c))\<rparr>" "length f = frame_bytes c"
    | (none) "frames (h_queue c) = []" "\<not> closed (h_queue c)"
      "r' = r\<lparr>rd_total := size_add (rd_total r) 0, rd_pc := go 0\<rparr>"
      "c' = c\<lparr>h_queue := fst (q_pop (h_queue c))\<rparr>"
    | (ended) "frames (h_queue c) = []" "closed (h_queue c)" "r' = r\<lparr>rd_pc := RReturn WEBA_ERR_STATE\<rparr>"
      "c' = c\<lparr>h_queue := fst (q_pop (h_queue c))\<rparr>"
proof (cases "frames (h_queue c)")
  case Nil
  have wf: "handle_wf c" "frame_bytes c \<le> length (rd_dst r)" using inv by (simp_all add: read_inv_def)
  from step_pop_empty [OF wf Nil, of go] step Nil none ended show ?thesis by (auto split: if_splits)
next
  case (Cons f fs)
  have wf: "handle_wf c" "frame_bytes c \<le> length (rd_dst r)" using inv by (simp_all add: read_inv_def)
  have q: "queue_inv (h_queue c)" "slot_bytes (h_queue c) = frame_bytes c"
    using wf(1) by (simp_all add: handle_wf_def)
  have "length f = frame_bytes c"
    using queue_pop_q_pop(2) [OF q(1), of "rd_dst r" f] q_pop_some [OF q(1) Cons] q(2) wf(2) by simp
  with step_pop_frame [OF wf Cons, of go] step Cons frame show ?thesis by auto
qed

subsection \<open>Every frame is accounted for\<close>

text \<open>Until a call has popped a frame, it has no loss to report.\<close>

definition unpopped :: "read_pc \<Rightarrow> bool" where
  "unpopped pc \<longleftrightarrow> (case pc of RFlags res \<Rightarrow> res = 0 | RAfter _ \<Rightarrow> False | RInfo \<Rightarrow> False
     | RReturn _ \<Rightarrow> False | _ \<Rightarrow> True)"

definition no_loss_yet :: "read_state option \<Rightarrow> bool" where
  "no_loss_yet ro \<longleftrightarrow> (\<forall>r. ro = Some r \<longrightarrow> unpopped (rd_pc r) \<longrightarrow> rd_total r = 0)"

definition accounted :: "sys \<Rightarrow> bool" where
  "accounted s \<longleftrightarrow> no_loss_yet (s_read s) \<and>
     (length (s_pushed s) < size_mod \<longrightarrow>
        explains (s_pushed s) (s_got s) (q_dropped (h_queue (s_h s))) (frames (h_queue (s_h s))))"

lemma sys_init_sel:
  assumes "sys_init s"
  shows "started (s_h s)" "s_loop s = loop_start (s_h s)" "s_read s = None" "s_pushed s = []"
    "s_got s = []" "s_released s = []"
proof -
  from assms obtain k where s: "s = (sys_of (s_h s))\<lparr>s_clock := k\<rparr>" and st: "started (s_h s)"
    by (auto simp: sys_init_def)
  show "started (s_h s)" by (rule st)
  show "s_loop s = loop_start (s_h s)" "s_read s = None" "s_pushed s = []" "s_got s = []" "s_released s = []"
    by (subst s, simp add: sys_of_def)+
qed

lemma no_loss_yet_step:
  assumes inv: "read_inv r c" and fresh: "unpopped (rd_pc r) \<longrightarrow> rd_total r = 0"
    and step: "read_step i (r, c) = Inr (r', c')"
  shows "unpopped (rd_pc r') \<longrightarrow> rd_total r' = 0"
proof (cases "popping (rd_pc r)")
  case True
  then have tot: "rd_total r = 0" using fresh by (auto simp: popping_def unpopped_def split: read_pc.splits)
  from step True show ?thesis
  proof (cases rule: read_step_pop)
    case pop
    from inv pop show ?thesis
      by (cases rule: step_pop_cases)
        (use True tot in \<open>auto simp: pop_leads_def unpopped_def popping_def size_add_def split: read_pc.splits\<close>)
  qed (use fresh in simp)
next
  case False
  with step fresh show ?thesis
    by (auto simp: read_steps popping_def
        unpopped_def sum_bind_eq_Inr split: read_pc.splits option.splits if_splits)
qed

text \<open>A pop adds to the history exactly what the queue's interface says it hands out.\<close>

lemma newly_got_pop:
  assumes inv: "read_inv r c" and fresh: "rd_total r = 0" and pc: "popping (rd_pc r)"
    and pop: "step_pop (pop_leads (rd_pc r)) r c = Inr (r', c')"
  shows "h_queue c' = fst (q_pop (h_queue c))"
    and "newly_got r r' c = (case fst (snd (q_pop (h_queue c))) of None \<Rightarrow> []
           | Some f \<Rightarrow> [(snd (snd (q_pop (h_queue c))), f)])"
proof -
  have q: "queue_inv (h_queue c)" using inv by (simp add: read_inv_def handle_wf_def)
  have small: "q_dropped (h_queue c) < size_mod" using q by (simp add: queue_inv_def)
  have leads: "got_frame (pop_leads (rd_pc r) 1)" "\<not> got_frame (pop_leads (rd_pc r) 0)"
    using pc by (auto simp: got_frame_def pop_leads_def popping_def split: read_pc.splits)
  have "h_queue c' = fst (q_pop (h_queue c)) \<and>
    newly_got r r' c = (case fst (snd (q_pop (h_queue c))) of None \<Rightarrow> []
           | Some f \<Rightarrow> [(snd (snd (q_pop (h_queue c))), f)])"
    using inv pop
  proof (cases rule: step_pop_cases)
    case (frame f fs)
    with q_pop_some [OF q frame(1)] pc fresh small leads show ?thesis by (simp add: newly_got_def)
  next
    case none
    with q_pop_none [OF q none(1)] leads show ?thesis by (simp add: newly_got_def)
  next
    case ended
    with q_pop_none [OF q ended(1)] show ?thesis by (simp add: newly_got_def got_frame_def)
  qed
  then show "h_queue c' = fst (q_pop (h_queue c))"
    and "newly_got r r' c = (case fst (snd (q_pop (h_queue c))) of None \<Rightarrow> []
           | Some f \<Rightarrow> [(snd (snd (q_pop (h_queue c))), f)])" by simp_all
qed

lemma sys_consume_inv:
  assumes "sys_safe s" "s_read s = Some r" "\<nexists>st. rd_pc r = RReturn st"
  shows "read_inv r (s_h s)"
  using assms by (auto simp: sys_safe_def active_inv_def)

lemma accounted_init: "sys_init s \<Longrightarrow> accounted s"
  using sys_init_sel [of s] by (simp add: accounted_def no_loss_yet_def started_def)

text \<open>A push is the interface's push, or nothing once the queue is closed.\<close>

lemma accounted_capture:
  assumes safe: "sys_safe s" and acc: "accounted s"
    and step: "loop_step i (s_loop s, s_h s) = Inr (l', c')"
  shows "accounted (s\<lparr>s_loop := l', s_h := c', s_pushed := s_pushed s @ newly_pushed (s_loop s) (s_h s)\<rparr>)"
proof -
  let ?q = "h_queue (s_h s)" and ?b = "lp_buffer (s_loop s)"
  have inv: "loop_inv (s_loop s) (s_h s)" using safe by (simp add: sys_safe_def)
  then have q: "queue_inv ?q" and fits: "q_fits ?q ?b"
    by (simp_all add: loop_inv_def handle_wf_def q_fits_def)
  have queue: "h_queue c' = (if lp_pc (s_loop s) = LPush then q_push ?b ?q else ?q)"
    by (rule loop_step_queue [OF inv step])
  show ?thesis
  proof (cases "lp_pc (s_loop s) = LPush \<and> \<not> closed ?q")
    case True
    then have acpt: "q_accepts ?q" by (simp add: q_accepts_def)
    have "explains (s_pushed s @ [?b]) (s_got s) (q_dropped (q_push ?b ?q)) (frames (q_push ?b ?q))"
      if "Suc (length (s_pushed s)) < size_mod"
      using acc that fq.account_push [OF q fits acpt that, of "s_got s"] by (simp add: accounted_def)
    with True queue acc show ?thesis by (simp add: accounted_def newly_pushed_def)
  next
    case False
    then have "h_queue c' = ?q"
      using queue fq.push_shut [OF q, of ?b] by (auto simp: q_accepts_def)
    with False acc show ?thesis by (auto simp: accounted_def newly_pushed_def)
  qed
qed

lemma accounted_consume:
  assumes safe: "sys_safe s" and acc: "accounted s" and r: "s_read s = Some r"
    and step: "read_step i (r, s_h s) = Inr (r', c')"
  shows "accounted (s\<lparr>s_read := Some r', s_h := c', s_clock := ri_now i,
       s_got := s_got s @ newly_got r r' (s_h s), s_released := rel\<rparr>)"
proof (cases "\<exists>st. rd_pc r = RReturn st")
  case True
  then have "r' = r" "c' = s_h s" "newly_got r r' (s_h s) = []"
    using step by (auto simp: read_step_def newly_got_def popping_def)
  with acc r show ?thesis by (simp add: accounted_def)
next
  case False
  then have inv: "read_inv r (s_h s)" using sys_consume_inv [OF safe r] by blast
  have fresh: "unpopped (rd_pc r) \<longrightarrow> rd_total r = 0" using acc r by (simp add: accounted_def no_loss_yet_def)
  have yet: "no_loss_yet (Some r')" using no_loss_yet_step [OF inv fresh step] by (simp add: no_loss_yet_def)
  have "h_queue c' = h_queue (s_h s) \<and> newly_got r r' (s_h s) = [] \<or>
      h_queue c' = fst (q_pop (h_queue (s_h s))) \<and>
      newly_got r r' (s_h s) = (case fst (snd (q_pop (h_queue (s_h s)))) of None \<Rightarrow> []
         | Some f \<Rightarrow> [(snd (snd (q_pop (h_queue (s_h s)))), f)])"
  proof (cases "popping (rd_pc r)")
    case True
    then have tot: "rd_total r = 0" "\<not> got_frame (rd_pc r)"
      using fresh by (auto simp: popping_def unpopped_def got_frame_def split: read_pc.splits)
    from step True show ?thesis
    proof (cases rule: read_step_pop)
      case blocked
      with tot show ?thesis by (simp add: newly_got_def)
    next
      case pop
      from newly_got_pop [OF inv tot(1) True pop] show ?thesis by simp
    qed
  qed (use read_step_quiet [OF step] in simp)
  then show ?thesis
  proof
    assume "h_queue c' = h_queue (s_h s) \<and> newly_got r r' (s_h s) = []"
    with acc yet show ?thesis by (simp add: accounted_def)
  next
    let ?p = "q_pop (h_queue (s_h s))"
    assume new: "h_queue c' = fst ?p \<and> newly_got r r' (s_h s) = (case fst (snd ?p) of None \<Rightarrow> []
         | Some f \<Rightarrow> [(snd (snd ?p), f)])"
    have q: "queue_inv (h_queue (s_h s))" using inv by (simp add: read_inv_def handle_wf_def)
    from fq.account_pop [OF q, of "s_pushed s" "s_got s"] acc yet new show ?thesis
      by (cases "fst (snd ?p)") (simp_all add: accounted_def)
  qed
qed

lemma accounted_step: "sys_safe s \<Longrightarrow> accounted s \<Longrightarrow> sys_step s a t \<Longrightarrow> accounted t"
proof -
  assume safe: "sys_safe s" and acc: "accounted s" and "sys_step s a t"
  from this(3) show "accounted t"
  proof cases
    case sys_capture
    then show ?thesis using accounted_capture [OF safe acc] by simp
  next
    case sys_consume
    then show ?thesis using accounted_consume [OF safe acc] by simp
  next
    case (sys_call now d cap info timeout r)
    have "handle_wf (s_h s)" using safe by (simp add: sys_safe_def)
    from read_entry_cases [OF this, of d cap info timeout now] sys_call(6) have "rd_total r = 0"
      by (auto simp: read_refused_def split: if_splits)
    with acc show ?thesis unfolding sys_call(2) by (simp add: accounted_def no_loss_yet_def)
  next
    case sys_request
    with acc show ?thesis by (simp add: accounted_def)
  next
    case sys_close
    with acc show ?thesis
      by (simp add: accounted_def queue_close_def frames_def slot_def cong: map_cong)
  next
    case sys_event
    with acc show ?thesis by (simp add: accounted_def)
  qed
qed

interpretation acct: relative_invariant sys_init sys_step sys_safe accounted
  by unfold_locales (auto intro: accounted_init accounted_step)

end
