(* ===== verification/Sys_Exec.thy ===== *)
theory Sys_Exec
  imports Delivery
begin

text \<open>
  The step relation of the running system as a function: the value is \<open>None\<close> for a step that the
  state does not allow, and for one that faults.
\<close>

definition sys_next :: "act \<Rightarrow> sys \<Rightarrow> sys option" where
  "sys_next a s =
     (case a of
        Capture i \<Rightarrow>
          (case loop_step i (s_loop s, s_h s) of
             Inl _ \<Rightarrow> None
           | Inr (l', c') \<Rightarrow> Some (s\<lparr>s_loop := l', s_h := c',
               s_pushed := s_pushed s @ newly_pushed (s_loop s) (s_h s)\<rparr>))
      | Consume i \<Rightarrow>
          (case s_read s of
             None \<Rightarrow> None
           | Some r \<Rightarrow>
               if s_clock s \<le> ri_now i then
                 (case read_step i (r, s_h s) of
                    Inl _ \<Rightarrow> None
                  | Inr (r', c') \<Rightarrow> Some (s\<lparr>s_read := Some r', s_h := c', s_clock := ri_now i,
                      s_got := s_got s @ newly_got r r' (s_h s),
                      s_released := s_released s @ newly_released r (s_h s) (ri_now i)\<rparr>))
               else None)
      | Call d cap info timeout now \<Rightarrow>
          if idle (s_read s) \<and> s_clock s \<le> now \<and> honest_buffer (s_h s) d cap then
            (case read_frame_entry (Some (s_h s)) (Some d) cap info timeout now of
               Inl _ \<Rightarrow> None
             | Inr r \<Rightarrow> Some (s\<lparr>s_read := Some r, s_clock := now\<rparr>))
          else None
      | RequestStop \<Rightarrow> Some (s\<lparr>s_h := (s_h s)\<lparr>h_stop_requested := True\<rparr>\<rparr>)
      | CloseQueue \<Rightarrow>
          if h_stop_requested (s_h s)
          then Some (s\<lparr>s_h := (s_h s)\<lparr>h_queue := queue_close (h_queue (s_h s))\<rparr>\<rparr>) else None
      | Event st \<Rightarrow>
          if ct_thread (h_control (s_h s)) then Some (s\<lparr>s_h := server_event st (s_h s)\<rparr>) else None)"

lemma sys_next_step: "sys_next a s = Some t \<Longrightarrow> sys_step s a t"
  by (cases a)
    (auto simp: sys_next_def split: sum.splits prod.splits option.splits if_splits
      intro: sys_capture sys_consume sys_call sys_request sys_close sys_event)

fun sys_run :: "act list \<Rightarrow> sys \<Rightarrow> sys option" where
  "sys_run [] s = Some s"
| "sys_run (a # as) s = Option.bind (sys_next a s) (sys_run as)"

lemma sys_run_execution: "sys_run as s = Some t \<Longrightarrow> execution sys_step s as t"
  by (induction as arbitrary: s)
    (auto simp: Option.bind_eq_Some_conv intro: exec_nil exec_cons sys_next_step)

lemma sys_run_reachable:
  "sys_run as s = Some t \<Longrightarrow> init s \<Longrightarrow> reachable init sys_step t"
  by (rule execution_reachable [OF sys_run_execution]) (auto intro: reach_init)

text \<open>In a safe state no step of either thread is refused, but for a clock that runs backwards.\<close>

lemma sys_next_capture: "sys_safe s \<Longrightarrow> \<exists>t. sys_next (Capture i) s = Some t"
  using loop_step_inv [of "s_loop s" "s_h s" i] by (auto simp: sys_next_def sys_safe_def)

lemma sys_next_consume:
  assumes "sys_safe s" "s_read s = Some r" "s_clock s \<le> ri_now i"
  shows "\<exists>t. sys_next (Consume i) s = Some t"
proof (cases "\<exists>st. rd_pc r = RReturn st")
  case True
  with assms show ?thesis by (auto simp: sys_next_def read_step_def)
next
  case False
  with sys_consume_inv [OF assms(1,2)] have "read_inv r (s_h s)" by blast
  from read_step_inv [OF this, of i] assms(2,3) show ?thesis by (auto simp: sys_next_def)
qed

lemma sys_next_call:
  assumes "sys_safe s" "idle (s_read s)" "s_clock s \<le> now" "honest_buffer (s_h s) d cap"
  shows "\<exists>t. sys_next (Call d cap info timeout now) s = Some t"
  using assms read_entry_cases [of "s_h s" d cap info timeout now]
  by (auto simp: sys_next_def sys_safe_def)

end
