(* ===== verification/Loop_Service.thy ===== *)
theory Loop_Service
  imports Capture_Loop
begin

text \<open>
  What the capture thread does for its client, given a server that answers: it opens the stream and
  captures a frame within a fixed number of steps, recovers from a failed read, follows a moved
  default sink, and leaves its loop within ten steps of a stop request.
\<close>

subsection \<open>From nothing to a captured frame\<close>

definition captured :: "(nat \<Rightarrow> byte) \<Rightarrow> weba_capture \<Rightarrow> byte list" where
  "captured data c = map data [0..<frame_bytes c]"

text \<open>The state after a stream on \<open>t\<close> has been opened and its first frame captured.\<close>

definition serviced ::
  "loop_in \<Rightarrow> target_t \<Rightarrow> (nat \<Rightarrow> byte) \<Rightarrow> bool \<Rightarrow> weba_capture \<Rightarrow> loop_state \<Rightarrow> weba_capture \<Rightarrow> bool" where
  "serviced i t data reopened c l' c' \<longleftrightarrow>
     lp_pc l' = LFollow \<and> lp_mic l' \<noteq> None \<and> lp_had_stream l' \<and>
     h_queue c' = q_push (captured data c) (h_queue c) \<and>
     h_pending_flags c' = (if reopened then h_pending_flags c OR reinit_flags else h_pending_flags c) \<and>
     h_format_info c' = h_format_info (publish_format t c) \<and>
     h_current_monitor c' = tg_monitor t \<and>
     h_next_sink_check c' = li_now i + ms_to_ns (uint (h_sink_recheck_ms c)) \<and>
     h_stop_requested c' = h_stop_requested c \<and> same_but_error (h_control c) (h_control c')"

text \<open>With a stream open, two steps capture a frame.\<close>

lemma capture_run:
  assumes inv: "loop_inv l c" and pc: "lp_pc l = LRead" and mic: "lp_mic l = Some (Some n)"
    and data: "li_read i = Inr data"
  shows "loop_run [i, i] (l, c) = Inr (l\<lparr>lp_buffer := captured data c, lp_pc := LFollow\<rparr>,
           c\<lparr>h_queue := q_push (captured data c) (h_queue c)\<rparr>)"
proof -
  have wf: "handle_wf c" using inv by (simp add: loop_inv_def)
  have len: "length (captured data c) = frame_bytes c" by (simp add: captured_def)
  obtain q k where q: "queue_push (captured data c) (h_queue c) = Inr (q, k)"
    "q = q_push (captured data c) (h_queue c)"
    by (rule push_wf [OF wf len]) (rule that; assumption)
  have "loop_step i (l, c) = Inr (l\<lparr>lp_buffer := captured data c, lp_pc := LPush\<rparr>, c)"
    using pc mic data by (simp add: loop_step_def step_read_def mic_read_def captured_def)
  with q show ?thesis by (simp add: loop_step_def)
qed

text \<open>From the top of the loop to the first read of a new stream.\<close>

definition opened_handle :: "loop_in \<Rightarrow> target_t \<Rightarrow> bool \<Rightarrow> control \<Rightarrow> weba_capture \<Rightarrow> weba_capture" where
  "opened_handle i t reopened ct c =
     (let c1 = (publish_format t (c\<lparr>h_control := ct\<rparr>))\<lparr>h_current_monitor := tg_monitor t,
        h_next_sink_check := li_now i + ms_to_ns (uint (h_sink_recheck_ms c))\<rparr>
      in if reopened then pending_or reinit_flags c1 else c1)"

lemma reach_read:
  assumes wf: "handle_wf c" and pc: "lp_pc l = LTop" "lp_mic l = None" and go: "\<not> h_stop_requested c"
    and h: "healthy i c t data"
  obtains n ct where "loop_run (replicate (if lp_had_stream l then 6 else 5) i) (l, c) =
      Inr (l\<lparr>lp_mic := Some (Some n), lp_had_stream := True, lp_pc := LRead\<rparr>, opened_handle i t (lp_had_stream l) ct c)"
    "same_but_error (h_control c) ct"
proof -
  have s1: "loop_step i (l, c) = Inr (l\<lparr>lp_pc := LResolve\<rparr>, c)" using pc go by (simp add: loop_step_def)
  obtain ct where ct: "step_resolve i (l\<lparr>lp_pc := LResolve\<rparr>) c = (l\<lparr>lp_pc := LPublish t\<rparr>, c\<lparr>h_control := ct\<rparr>)"
    "same_but_error (h_control c) ct"
    using step_resolve_healthy [OF h, of "l\<lparr>lp_pc := LResolve\<rparr>"] by auto
  let ?c2 = "publish_format t (c\<lparr>h_control := ct\<rparr>)"
  have mf: "mic_format_of ?c2 = mic_format_of c" by (simp add: mic_format_of_def publish_format_def)
  obtain n where op: "step_open i t (l\<lparr>lp_pc := LOpen t\<rparr>) ?c2 =
      (l\<lparr>lp_mic := Some (Some n), lp_pc := LOpened t\<rparr>, ?c2)"
    using step_open_healthy [OF h _ mf, of "l\<lparr>lp_pc := LOpen t\<rparr>"] wf by auto
  have rc: "h_sink_recheck_ms ?c2 = h_sink_recheck_ms c" by (simp add: publish_format_def)
  have n: "replicate 5 i = [i, i, i, i, i]" "replicate 6 i = [i, i, i, i, i, i]"
    by (simp_all add: numeral_eq_Suc)
  have "loop_run (replicate (if lp_had_stream l then 6 else 5) i) (l, c) =
      Inr (l\<lparr>lp_mic := Some (Some n), lp_had_stream := True, lp_pc := LRead\<rparr>, opened_handle i t (lp_had_stream l) ct c)"
    using s1 ct(1) op rc unfolding n
    by (cases "lp_had_stream l") (simp_all add: n loop_step_def step_opened_def opened_handle_def Let_def)
  with ct(2) that show ?thesis by blast
qed

lemma open_run:
  assumes inv: "loop_inv l c" and pc: "lp_pc l = LTop" "lp_mic l = None" and go: "\<not> h_stop_requested c"
    and h: "healthy i c t data"
  shows "\<exists>l' c'. loop_run (replicate (if lp_had_stream l then 8 else 7) i) (l, c) = Inr (l', c') \<and>
           serviced i t data (lp_had_stream l) c l' c'"
proof -
  have wf: "handle_wf c" using inv by (simp add: loop_inv_def)
  obtain n ct where run: "loop_run (replicate (if lp_had_stream l then 6 else 5) i) (l, c) =
      Inr (l\<lparr>lp_mic := Some (Some n), lp_had_stream := True, lp_pc := LRead\<rparr>, opened_handle i t (lp_had_stream l) ct c)"
    and ct: "same_but_error (h_control c) ct" by (rule reach_read [OF wf pc go h])
  let ?c4 = "opened_handle i t (lp_had_stream l) ct c"
    and ?l4 = "l\<lparr>lp_mic := Some (Some n), lp_had_stream := True, lp_pc := LRead\<rparr>"
  have bytes: "frame_bytes ?c4 = frame_bytes c" "handle_wf ?c4"
    using wf by (simp_all add: opened_handle_def pending_or_def Let_def)
  with inv have inv4: "loop_inv ?l4 ?c4" by (simp add: loop_inv_def mic_states_def pc_target_def)
  have data: "li_read i = Inr data" using h by (simp add: healthy_def)
  have cap: "captured data ?c4 = captured data c" by (simp add: captured_def bytes(1))
  let ?l' = "?l4\<lparr>lp_buffer := captured data c, lp_pc := LFollow\<rparr>"
    and ?c' = "?c4\<lparr>h_queue := q_push (captured data c) (h_queue ?c4)\<rparr>"
  have last: "loop_run [i, i] (?l4, ?c4) = Inr (?l', ?c')"
    using capture_run [OF inv4 _ _ data, of n] unfolding cap by simp
  have split: "replicate (if lp_had_stream l then 8 else 7) i = replicate (if lp_had_stream l then 6 else 5) i @ [i, i]"
    by (simp add: numeral_eq_Suc)
  have "loop_run (replicate (if lp_had_stream l then 8 else 7) i) (l, c) = Inr (?l', ?c')"
    unfolding split loop_run_append run using last by simp
  moreover have "serviced i t data (lp_had_stream l) c ?l' ?c'"
    using ct by (simp add: opened_handle_def serviced_def publish_format_def pending_or_def Let_def)
  ultimately show ?thesis by blast
qed

subsection \<open>A failed read\<close>

lemma healthy_cong:
  "h_control c' = h_control c \<Longrightarrow> h_requested_sink c' = h_requested_sink c \<Longrightarrow>
     healthy i c' t data = healthy i c t data"
  by (simp add: healthy_def)

definition read_failed :: "string \<Rightarrow> weba_capture \<Rightarrow> weba_capture" where
  "read_failed msg c = pending_or reinit_flags (set_error msg c)"

lemma read_failed_sel [simp]:
  "h_control (read_failed m c) = h_control c" "h_requested_sink (read_failed m c) = h_requested_sink c"
  "h_queue (read_failed m c) = h_queue c" "h_stop_requested (read_failed m c) = h_stop_requested c"
  "h_pending_flags (read_failed m c) = h_pending_flags c OR reinit_flags"
  "h_error (read_failed m c) = m" "frame_bytes (read_failed m c) = frame_bytes c"
  "handle_wf (read_failed m c) = handle_wf c"
  by (simp_all add: read_failed_def pending_or_def set_error_def)

definition read_message :: "loop_in \<Rightarrow> int \<Rightarrow> string" where
  "read_message i st = ''pa_simple_read() failed: '' @ li_strerror i st"

text \<open>The stream is dropped, the caller will be told, and the thread waits before it tries again.\<close>

lemma read_fail_run:
  assumes "lp_pc l = LRead" "lp_mic l = Some (Some n)" "li_read i = Inl st" "\<not> h_stop_requested c"
    and "1000 * kReinitDelay \<le> li_waited w"
  shows "loop_run [i, i, w] (l, c) = Inr (l\<lparr>lp_mic := None, lp_pc := LTop\<rparr>, read_failed (read_message i st) c)"
  using assms
  by (simp add: loop_step_def step_read_def mic_read_def read_failed_def read_message_def
      wait_for_stop_def pending_or_def set_error_def)

lemma loop_inv_reset: "loop_inv l c \<Longrightarrow> handle_wf c' \<Longrightarrow> frame_bytes c' = frame_bytes c \<Longrightarrow>
    lp_had_stream l \<Longrightarrow> loop_inv (l\<lparr>lp_mic := None, lp_pc := LTop\<rparr>) c'"
  by (simp add: loop_inv_def mic_states_def pc_target_def)

lemma open_had_stream:
  "loop_inv l c \<Longrightarrow> mic_states (lp_pc l) \<Longrightarrow> pc_target (lp_pc l) = None \<Longrightarrow> lp_had_stream l"
  by (simp add: loop_inv_def)

text \<open>
  Recovery: the failing read, the wait and a reopening; \<open>f\<close> is what the consumer leaves of the
  pending flags in between.
\<close>

lemma recover_run:
  assumes inv: "loop_inv l c" and pc: "lp_pc l = LRead" "lp_mic l = Some (Some n)"
    and go: "\<not> h_stop_requested c" and bad: "li_read i0 = Inl st"
    and waited: "1000 * kReinitDelay \<le> li_waited w" and h: "healthy i c t data"
  shows "\<exists>l1 c1 l' c'. loop_run [i0, i0, w] (l, c) = Inr (l1, c1) \<and> c1 = read_failed (read_message i0 st) c \<and>
           loop_run (replicate 8 i) (l1, c1\<lparr>h_pending_flags := f\<rparr>) = Inr (l', c') \<and>
           serviced i t data True (c1\<lparr>h_pending_flags := f\<rparr>) l' c'"
proof -
  let ?l1 = "l\<lparr>lp_mic := None, lp_pc := LTop\<rparr>" and ?c1 = "read_failed (read_message i0 st) c"
  have 1: "loop_run [i0, i0, w] (l, c) = Inr (?l1, ?c1)" by (rule read_fail_run [OF pc bad go waited])
  have had: "lp_had_stream l"
    using open_had_stream [OF inv] pc by (simp add: mic_states_def pc_target_def)
  have "handle_wf c" using inv by (simp add: loop_inv_def)
  then have inv1: "loop_inv ?l1 (?c1\<lparr>h_pending_flags := f\<rparr>)" by (intro loop_inv_reset [OF inv]) (simp_all add: had)
  have "healthy i (?c1\<lparr>h_pending_flags := f\<rparr>) t data"
    using h healthy_cong [of "?c1\<lparr>h_pending_flags := f\<rparr>" c] by simp
  from open_run [OF inv1 _ _ _ this] go had obtain l' c' where
    "loop_run (replicate 8 i) (?l1, ?c1\<lparr>h_pending_flags := f\<rparr>) = Inr (l', c')"
    "serviced i t data True (?c1\<lparr>h_pending_flags := f\<rparr>) l' c'" by auto
  with 1 show ?thesis by blast
qed

subsection \<open>Following the default sink\<close>

definition polling :: "loop_in \<Rightarrow> weba_capture \<Rightarrow> bool" where
  "polling i c \<longleftrightarrow> h_requested_sink c = [] \<and> 0 < h_sink_recheck_ms c \<and> h_next_sink_check c \<le> li_now i"

lemma follow_step:
  assumes pc: "lp_pc l = LFollow" and poll: "polling i c" and h: "healthy i c t data"
  obtains ct where "same_but_error (h_control c) ct"
    "loop_step i (l, c) = Inr (if tg_monitor t = h_current_monitor c then l\<lparr>lp_pc := LTop\<rparr>
         else l\<lparr>lp_mic := None, lp_pc := LTop\<rparr>,
       c\<lparr>h_next_sink_check := li_now' i + ms_to_ns (uint (h_sink_recheck_ms c)), h_control := ct\<rparr>)"
proof -
  from h obtain sv where sv: "serves sv (li_resolve i)" "resolve_spec sv (h_requested_sink c) = Some t"
    "ct_ctx (h_control c)" "control_ready (h_control c)"
    by (auto simp: healthy_def)
  obtain ct r where r: "resolve_target (li_resolve i) '''' (h_control c) = (ct, r)" by fastforce
  have req: "h_requested_sink c = []" using poll by (simp add: polling_def)
  with r resolve_target_serves [OF sv(1,3,4), of "[]"] sv(2) have "r = Some t" by simp
  with r pc poll that resolve_target_frame(1) [OF r] show ?thesis
    by (simp add: loop_step_def step_follow_def polling_def Let_def split: if_splits)
qed

lemma follow_run:
  assumes inv: "loop_inv l c" and pc: "lp_pc l = LFollow" and go: "\<not> h_stop_requested c"
    and poll: "polling i c" and h: "healthy i c t data" and moved: "tg_monitor t \<noteq> h_current_monitor c"
  shows "\<exists>l' c'. loop_run (replicate 9 i) (l, c) = Inr (l', c') \<and>
           lp_pc l' = LFollow \<and> h_current_monitor c' = tg_monitor t \<and>
           h_queue c' = q_push (captured data c) (h_queue c) \<and>
           h_pending_flags c' = h_pending_flags c OR reinit_flags"
proof -
  obtain ct where ct: "same_but_error (h_control c) ct"
    "loop_step i (l, c) = Inr (if tg_monitor t = h_current_monitor c then l\<lparr>lp_pc := LTop\<rparr>
         else l\<lparr>lp_mic := None, lp_pc := LTop\<rparr>,
       c\<lparr>h_next_sink_check := li_now' i + ms_to_ns (uint (h_sink_recheck_ms c)), h_control := ct\<rparr>)"
    by (rule follow_step [OF pc poll h])
  let ?l1 = "l\<lparr>lp_mic := None, lp_pc := LTop\<rparr>"
  let ?c1 = "c\<lparr>h_next_sink_check := li_now' i + ms_to_ns (uint (h_sink_recheck_ms c)), h_control := ct\<rparr>"
  have had: "lp_had_stream l" using open_had_stream [OF inv] pc by (simp add: mic_states_def pc_target_def)
  have "handle_wf c" using inv by (simp add: loop_inv_def)
  then have inv1: "loop_inv ?l1 ?c1" by (intro loop_inv_reset [OF inv]) (simp_all add: had)
  have h1: "healthy i ?c1 t data"
    using h same_but_errorD [OF ct(1)] by (simp add: healthy_def)
  have cap: "captured data ?c1 = captured data c" by (simp add: captured_def)
  obtain l' c' where run: "loop_run (replicate 8 i) (?l1, ?c1) = Inr (l', c')" and srv: "serviced i t data True ?c1 l' c'"
    using open_run [OF inv1 _ _ _ h1] go had by auto
  have "loop_run (replicate 9 i) (l, c) = Inr (l', c')"
    using ct(2) moved run by (simp add: numeral_eq_Suc)
  with srv cap show ?thesis by (auto simp: serviced_def)
qed

subsection \<open>Leaving the loop\<close>

text \<open>How many steps the thread is from its end once a stop has been requested.\<close>

definition exit_distance :: "loop_pc \<Rightarrow> nat" where
  "exit_distance pc = (case pc of
     LDone \<Rightarrow> 0 | LExit \<Rightarrow> 1 | LTop \<Rightarrow> 2 | LWait \<Rightarrow> 2 | LFollow \<Rightarrow> 3 | LOpenFailed \<Rightarrow> 3 | LReadFailed \<Rightarrow> 3
   | LPush \<Rightarrow> 4 | LRead \<Rightarrow> 5 | LReopened \<Rightarrow> 6 | LOpened _ \<Rightarrow> 7 | LOpen _ \<Rightarrow> 8 | LPublish _ \<Rightarrow> 9 | LResolve \<Rightarrow> 10)"

lemma exit_distance_le: "exit_distance pc \<le> 10"
  by (cases pc) (simp_all add: exit_distance_def)

lemma exit_distance_step:
  "loop_step i (l, c) = Inr (l', c') \<Longrightarrow> h_stop_requested c \<Longrightarrow>
     exit_distance (lp_pc l') \<le> exit_distance (lp_pc l) - 1"
  by (auto simp: loop_steps exit_distance_def sum_bind_eq_Inr
      split: loop_pc.splits prod.splits option.splits sum.splits if_splits)

text \<open>The thread is gone, or still to clear \<open>running\<close>.\<close>

definition gone_clear :: "loop_state \<Rightarrow> weba_capture \<Rightarrow> bool" where
  "gone_clear l c \<longleftrightarrow> (lp_pc l = LDone \<longrightarrow> \<not> h_running c \<and> lp_mic l = None)"

lemma gone_clear_step:
  "loop_step i (l, c) = Inr (l', c') \<Longrightarrow> gone_clear l c \<Longrightarrow> gone_clear l' c'"
  by (auto simp: loop_steps gone_clear_def sum_bind_eq_Inr
      split: loop_pc.splits prod.splits option.splits sum.splits if_splits)

lemma exit_run:
  "loop_inv l c \<Longrightarrow> h_stop_requested c \<Longrightarrow> gone_clear l c \<Longrightarrow> exit_distance (lp_pc l) \<le> length is \<Longrightarrow>
     \<exists>l' c'. loop_run is (l, c) = Inr (l', c') \<and> lp_pc l' = LDone \<and> lp_mic l' = None \<and> \<not> h_running c' \<and>
       loop_inv l' c' \<and> loop_frame c c'"
proof (induction "is" arbitrary: l c)
  case Nil
  then show ?case by (auto simp: exit_distance_def gone_clear_def split: loop_pc.splits)
next
  case (Cons i "is")
  from loop_step_inv [OF Cons.prems(1), of i] obtain l1 c1 where
    1: "loop_step i (l, c) = Inr (l1, c1)" "loop_inv l1 c1" "loop_frame c c1" by blast
  have "h_stop_requested c1" using 1(3) Cons.prems(2) by (simp add: loop_frame_def)
  moreover have "exit_distance (lp_pc l1) \<le> length is"
    using exit_distance_step [OF 1(1) Cons.prems(2)] Cons.prems(4) by simp
  ultimately obtain l' c' where "loop_run is (l1, c1) = Inr (l', c')" "lp_pc l' = LDone" "lp_mic l' = None"
    "\<not> h_running c'" "loop_inv l' c'" "loop_frame c1 c'"
    using Cons.IH [OF 1(2)] gone_clear_step [OF 1(1) Cons.prems(3)] by blast
  with 1 show ?case by (auto intro: loop_frame_trans)
qed

subsection \<open>Frames of whole runs\<close>

text \<open>The thread never touches the connection itself, only its error text.\<close>

lemma loop_step_control:
  "loop_step i (l, c) = Inr (l', c') \<Longrightarrow> same_but_error (h_control c) (h_control c')"
  by (auto simp: loop_steps sum_bind_eq_Inr dest: resolve_target_frame(1)
      split: loop_pc.splits prod.splits option.splits sum.splits if_splits)

lemma loop_run_control:
  "loop_run is (l, c) = Inr (l', c') \<Longrightarrow> same_but_error (h_control c) (h_control c')"
proof (induction "is" arbitrary: l c)
  case (Cons i "is")
  then obtain l1 c1 where 1: "loop_step i (l, c) = Inr (l1, c1)" "loop_run is (l1, c1) = Inr (l', c')"
    by (auto simp: sum_bind_eq_Inr)
  from same_but_error_trans [OF loop_step_control [OF 1(1)] Cons.IH [OF 1(2)]] show ?case .
qed simp

lemma gone_clear_run:
  "loop_run is (l, c) = Inr (l', c') \<Longrightarrow> gone_clear l c \<Longrightarrow> gone_clear l' c'"
proof (induction "is" arbitrary: l c)
  case (Cons i "is")
  then obtain l1 c1 where 1: "loop_step i (l, c) = Inr (l1, c1)" "loop_run is (l1, c1) = Inr (l', c')"
    by (auto simp: sum_bind_eq_Inr)
  from Cons.IH [OF 1(2) gone_clear_step [OF 1(1) Cons.prems(2)]] show ?case .
qed simp

lemma gone_clear_start [simp]: "gone_clear (loop_start c) c"
  by (simp add: gone_clear_def loop_start_def)

end
