(* ===== verification/Cadence.thy ===== *)
theory Cadence
  imports Delivery
begin

text \<open>
  The cadence at fixed rate. The history pairs each frame's deadline with the time it was handed
  out; consecutive deadlines obey one law, whatever the capture thread, the caller and the clock do,
  and so frames are never handed out faster than one per period.
\<close>

subsection \<open>The law of the deadlines\<close>

definition after_deadline :: "ns \<Rightarrow> ns \<times> ns \<Rightarrow> ns" where
  "after_deadline p x = (case x of (d, t) \<Rightarrow> if d + p < t then t + p else d + p)"

definition lawful :: "ns \<Rightarrow> (ns \<times> ns) list \<Rightarrow> bool" where
  "lawful p rel \<longleftrightarrow> (\<forall>x \<in> set rel. fst x \<le> snd x) \<and>
     (\<forall>j. Suc j < length rel \<longrightarrow> fst (rel ! Suc j) = after_deadline p (rel ! j))"

lemma after_deadline_ge: "0 \<le> p \<Longrightarrow> fst x + p \<le> after_deadline p x"
  by (auto simp: after_deadline_def split: prod.splits)

lemma lawful_Nil [simp]: "lawful p []"
  by (simp add: lawful_def)

lemma lawful_snoc:
  assumes "lawful p rel" "d \<le> t" "rel \<noteq> [] \<Longrightarrow> d = after_deadline p (last rel)"
  shows "lawful p (rel @ [(d, t)])"
proof -
  have "fst ((rel @ [(d, t)]) ! Suc j) = after_deadline p ((rel @ [(d, t)]) ! j)" if "j < length rel" for j
  proof (cases "Suc j < length rel")
    case True
    with assms(1) show ?thesis by (simp add: lawful_def nth_append)
  next
    case False
    with that have j: "length rel = Suc j" by simp
    then have "rel \<noteq> []" by auto
    moreover from this have "last rel = rel ! j" by (simp add: last_conv_nth j)
    ultimately show ?thesis using assms(3) by (simp add: nth_append j)
  qed
  with assms show ?thesis by (auto simp: lawful_def)
qed

lemma lawful_pace:
  assumes "lawful p rel" "0 \<le> p" "i + k < length rel"
  shows "fst (rel ! i) + int k * p \<le> fst (rel ! (i + k))"
  using assms(3)
proof (induction k)
  case (Suc k)
  then have "fst (rel ! i) + int k * p \<le> fst (rel ! (i + k))" by simp
  moreover have "fst (rel ! (i + k)) + p \<le> fst (rel ! (i + Suc k))"
    using assms(1) Suc.prems after_deadline_ge [OF assms(2), of "rel ! (i + k)"] by (simp add: lawful_def)
  ultimately show ?case by (simp add: algebra_simps)
qed simp

subsection \<open>The invariant\<close>

definition period_ns :: "weba_capture \<Rightarrow> ns" where
  "period_ns c = us_to_ns (period_us (h_frame_samples c) (h_sample_rate c))"

lemma period_ns_nonneg: "0 \<le> period_ns c"
  by (simp add: period_ns_def us_to_ns_def)

definition past_due :: "read_pc \<Rightarrow> bool" where
  "past_due pc \<longleftrightarrow> (case pc of RPop \<Rightarrow> True | RFlags _ \<Rightarrow> True | RAfter _ \<Rightarrow> True | _ \<Rightarrow> False)"

definition on_time :: "(ns \<times> ns) list \<Rightarrow> weba_capture \<Rightarrow> bool" where
  "on_time rel c \<longleftrightarrow> lawful (period_ns c) rel \<and>
     (rel \<noteq> [] \<longrightarrow> h_deadline_valid c \<and> h_next_deadline c = after_deadline (period_ns c) (last rel))"

definition awaited :: "read_state \<Rightarrow> weba_capture \<Rightarrow> ns \<Rightarrow> bool" where
  "awaited r c now \<longleftrightarrow> (past_due (rd_pc r) \<longrightarrow> h_deadline_valid c \<and> h_next_deadline c \<le> now)"

definition cadenced :: "sys \<Rightarrow> bool" where
  "cadenced s \<longleftrightarrow> on_time (s_released s) (s_h s) \<and>
     (\<forall>r. s_read s = Some r \<longrightarrow> awaited r (s_h s) (s_clock s))"

lemma cadenced_frame:
  assumes "cadenced s" "mic_format_of c' = mic_format_of (s_h s)"
    "h_next_deadline c' = h_next_deadline (s_h s)" "h_deadline_valid c' = h_deadline_valid (s_h s)"
  shows "on_time (s_released s) c'" "\<And>r. s_read s = Some r \<Longrightarrow> awaited r c' (s_clock s)"
proof -
  have "period_ns c' = period_ns (s_h s)" using assms(2) by (simp add: period_ns_def mic_format_of_def)
  with assms show "on_time (s_released s) c'" "\<And>r. s_read s = Some r \<Longrightarrow> awaited r c' (s_clock s)"
    by (auto simp: cadenced_def on_time_def awaited_def)
qed

lemma step_pop_deadline:
  "step_pop go r c = Inr (r', c') \<Longrightarrow>
     h_next_deadline c' = h_next_deadline c \<and> h_deadline_valid c' = h_deadline_valid c"
  by (auto simp: step_pop_def sum_bind_eq_Inr split: if_splits)

lemma step_flags_deadline:
  "step_flags res r c = Inr (r', c') \<Longrightarrow>
     h_next_deadline c' = h_next_deadline c \<and> h_deadline_valid c' = h_deadline_valid c"
  by (auto simp: step_flags_def Let_def sum_bind_eq_Inr split: if_splits)

lemma on_time_keep:
  "on_time rel c \<Longrightarrow> period_ns c' = period_ns c \<Longrightarrow> h_next_deadline c' = h_next_deadline c \<Longrightarrow>
     h_deadline_valid c' = h_deadline_valid c \<Longrightarrow> on_time rel c'"
  by (simp add: on_time_def)

text \<open>The head of the loop: at fixed rate it sets the deadline, if there is none, and lets only a due call pass.\<close>

lemma cadence_top:
  assumes rel: "on_time rel c" and p: "period_ns c' = period_ns c" and top: "rd_pc r = RTop"
    and pr: "us_to_ns (rd_period r) = period_ns c" and step: "read_step i (r, c) = Inr (r', c')"
  shows "on_time rel c' \<and> awaited r' c' (ri_now i)"
proof (cases "h_fixed_rate c")
  case True
  with top step have "c' = with_deadline (due_at c (ri_now i) (rd_period r)) c"
    "rd_pc r' = RPop \<Longrightarrow> due_at c (ri_now i) (rd_period r) \<le> ri_now i"
    "\<not> past_due (rd_pc r') \<or> rd_pc r' = RPop"
    by (auto simp: read_step_def step_top_fixed past_due_def Let_def split: if_splits)
  with rel p show ?thesis by (auto simp: on_time_def awaited_def due_at_def past_due_def)
next
  case False
  with top step on_time_keep [OF rel p] show ?thesis
    by (auto simp: read_step_def step_top_def awaited_def past_due_def Let_def)
qed

text \<open>The wait of a call without a fixed rate leaves the deadline alone.\<close>

lemma cadence_wait:
  assumes rel: "on_time rel c" and p: "period_ns c' = period_ns c" and wait: "rd_pc r = RPopWait w"
    and step: "read_step i (r, c) = Inr (r', c')"
  shows "on_time rel c' \<and> awaited r' c' (ri_now i)"
proof -
  have "(\<exists>go. step_pop go r c = Inr (r', c')) \<or> r' = r \<and> c' = c"
    using step wait by (auto simp: read_step_def split: if_splits)
  with step_pop_deadline have "h_next_deadline c' = h_next_deadline c \<and> h_deadline_valid c' = h_deadline_valid c"
    by blast
  moreover have "\<not> past_due (rd_pc r')" using step wait
    by (cases "queue_pop (rd_dst r) (h_queue c)") (auto simp: read_step_def past_due_def step_pop_def split: if_splits)
  ultimately show ?thesis using on_time_keep [OF rel p] by (simp add: awaited_def)
qed

text \<open>A step of the consumer, by what it does to the deadline.\<close>

lemma cadence_read:
  assumes inv: "read_inv r c" and rel: "on_time rel c" and aw: "awaited r c now" and le: "now \<le> ri_now i"
    and step: "read_step i (r, c) = Inr (r', c')"
  shows "on_time (rel @ newly_released r c (ri_now i)) c'" and "awaited r' c' (ri_now i)"
proof -
  from read_step_inv [OF inv, of i] step have "mic_format_of c' = mic_format_of c"
    by (auto simp: read_frame_rel_def)
  then have p: "period_ns c' = period_ns c" by (simp add: period_ns_def mic_format_of_def)
  have pr: "us_to_ns (rd_period r) = period_ns c" using inv by (simp add: read_inv_def period_ns_def)
  have "on_time (rel @ newly_released r c (ri_now i)) c' \<and> awaited r' c' (ri_now i)"
  proof (cases "rd_pc r")
    case RTop
    with cadence_top [OF rel p RTop pr step] show ?thesis by (simp add: newly_released_def)
  next
    case (RPopWait w)
    with cadence_wait [OF rel p RPopWait step] show ?thesis by (simp add: newly_released_def)
  next
    case RPop
    with step have "step_pop RFlags r c = Inr (r', c')" by (simp add: read_step_def)
    with step_pop_deadline [OF this] on_time_keep [OF rel p] RPop aw le show ?thesis
      by (auto simp: newly_released_def awaited_def past_due_def)
  next
    case (RFlags res)
    with step have "step_flags res r c = Inr (r', c')" by (simp add: read_step_def)
    with step_flags_deadline [OF this] on_time_keep [OF rel p] RFlags aw le show ?thesis
      by (auto simp: newly_released_def awaited_def past_due_def)
  next
    case (RAfter fl)
    then have due: "h_deadline_valid c" "h_next_deadline c \<le> ri_now i"
      using aw le by (simp_all add: awaited_def past_due_def)
    have "lawful (period_ns c) (rel @ [(h_next_deadline c, ri_now i)])"
      using rel due by (intro lawful_snoc) (auto simp: on_time_def)
    with RAfter step due p pr show ?thesis
      by (auto simp: read_step_def step_after_def newly_released_def on_time_def awaited_def past_due_def
          after_deadline_def Let_def)
  next
    case RInfo
    with step on_time_keep [OF rel p] show ?thesis
      by (auto simp: read_step_def step_info_def newly_released_def awaited_def past_due_def
          split: option.splits)
  qed (use step rel aw le in \<open>auto simp: read_step_def newly_released_def awaited_def past_due_def
        split: if_splits\<close>)
  then show "on_time (rel @ newly_released r c (ri_now i)) c'" "awaited r' c' (ri_now i)" by simp_all
qed

lemma cadenced_init: "sys_init s \<Longrightarrow> cadenced s"
  using sys_init_sel [of s] by (simp add: cadenced_def on_time_def)

lemma cadenced_step: "sys_safe s \<Longrightarrow> cadenced s \<Longrightarrow> sys_step s a t \<Longrightarrow> cadenced t"
proof -
  assume safe: "sys_safe s" and cad: "cadenced s" and "sys_step s a t"
  from this(3) show "cadenced t"
  proof cases
    case (sys_capture i l' c')
    have inv: "loop_inv (s_loop s) (s_h s)" using safe by (simp add: sys_safe_def)
    from loop_step_inv [OF inv, of i] sys_capture(3) have "loop_frame (s_h s) c'" by auto
    with cadenced_frame [OF cad, of c'] show ?thesis
      unfolding sys_capture(2) by (simp add: cadenced_def loop_frame_def)
  next
    case (sys_consume r i r' c')
    show ?thesis
    proof (cases "\<exists>st. rd_pc r = RReturn st")
      case True
      then have "r' = r" "c' = s_h s" using sys_consume(5) by (auto simp: read_step_def)
      with cad True sys_consume show ?thesis
        by (auto simp: cadenced_def newly_released_def awaited_def past_due_def)
    next
      case False
      with sys_consume_inv [OF safe sys_consume(3)] have inv: "read_inv r (s_h s)" by blast
      have "on_time (s_released s) (s_h s)" "awaited r (s_h s) (s_clock s)"
        using cad sys_consume(3) by (simp_all add: cadenced_def)
      from cadence_read [OF inv this sys_consume(4,5)] show ?thesis
        unfolding sys_consume(2) by (simp add: cadenced_def)
    qed
  next
    case (sys_call now d cap info timeout r)
    have "handle_wf (s_h s)" using safe by (simp add: sys_safe_def)
    from read_entry_cases [OF this, of d cap info timeout now] sys_call(6) have "\<not> past_due (rd_pc r)"
      by (auto simp: read_refused_def past_due_def split: if_splits)
    with cad show ?thesis unfolding sys_call(2) by (simp add: cadenced_def awaited_def)
  next
    case sys_request
    with cadenced_frame [OF cad, of "(s_h s)\<lparr>h_stop_requested := True\<rparr>"] show ?thesis
      by (simp add: cadenced_def mic_format_of_def)
  next
    case sys_close
    with cadenced_frame [OF cad, of "(s_h s)\<lparr>h_queue := queue_close (h_queue (s_h s))\<rparr>"] show ?thesis
      by (simp add: cadenced_def mic_format_of_def)
  next
    case (sys_event st)
    with cadenced_frame [OF cad, of "server_event st (s_h s)"] show ?thesis
      by (simp add: cadenced_def mic_format_of_def)
  qed
qed

interpretation cad: relative_invariant sys_init sys_step sys_safe cadenced
  by unfold_locales (auto intro: cadenced_init cadenced_step)

lemma reachable_on_time: "reachable sys_init sys_step s \<Longrightarrow> on_time (s_released s) (s_h s)"
  using cad.both.invariant by (auto simp: cadenced_def)

end
