(* ===== verification/Delivered.thy ===== *)
theory Delivered
  imports Delivery
begin

text \<open>
  What a call that returns 1 has put into the caller's buffer, against the flags and the drop count
  it reports: captured audio, exactly as the queue handed it out, or zeros, flagged as silence and
  underrun. The invariant follows the frame from the pop to the return.
\<close>

subsection \<open>Captured audio or flagged silence\<close>

definition silent_frame :: "nat \<Rightarrow> u32 \<Rightarrow> nat \<Rightarrow> byte list \<Rightarrow> bool" where
  "silent_frame fb flags lost dst \<longleftrightarrow>
     has_flag flags WEBA_FRAME_SILENCE \<and> has_flag flags WEBA_FRAME_UNDERRUN \<and>
     take fb dst = replicate fb 0 \<and> lost = 0"

definition taken_frame :: "nat \<Rightarrow> (nat \<times> byte list) list \<Rightarrow> nat \<Rightarrow> byte list \<Rightarrow> bool" where
  "taken_frame fb got lost dst \<longleftrightarrow> got \<noteq> [] \<and> last got = (lost, take fb dst)"

definition captured_frame :: "nat \<Rightarrow> (nat \<times> byte list) list \<Rightarrow> u32 \<Rightarrow> nat \<Rightarrow> byte list \<Rightarrow> bool" where
  "captured_frame fb got flags lost dst \<longleftrightarrow>
     \<not> has_flag flags WEBA_FRAME_SILENCE \<and> \<not> has_flag flags WEBA_FRAME_UNDERRUN \<and>
     (0 < lost \<longrightarrow> has_flag flags WEBA_FRAME_DISCONTINUITY) \<and> taken_frame fb got lost dst"

definition handed_frame :: "nat \<Rightarrow> (nat \<times> byte list) list \<Rightarrow> u32 \<Rightarrow> nat \<Rightarrow> byte list \<Rightarrow> bool" where
  "handed_frame fb got flags lost dst \<longleftrightarrow>
     silent_frame fb flags lost dst \<or> captured_frame fb got flags lost dst"

text \<open>The invariant of a call, by the place it has reached.\<close>

definition frame_note :: "nat \<Rightarrow> (nat \<times> byte list) list \<Rightarrow> read_state \<Rightarrow> bool" where
  "frame_note fb got r \<longleftrightarrow>
     (case rd_pc r of
        RFlags res \<Rightarrow> if res = 0 then rd_total r = 0 else taken_frame fb got (rd_total r) (rd_dst r)
      | RInfo \<Rightarrow> taken_frame fb got (rd_total r) (rd_dst r)
      | RAfter fl \<Rightarrow> handed_frame fb got fl (rd_total r) (rd_dst r)
      | RReturn st \<Rightarrow> st = 1 \<longrightarrow> (\<forall>info. rd_info r = Some info \<longrightarrow>
          dropped_frames info = word_of_nat (rd_total r) \<and>
          handed_frame fb got (fr_flags info) (rd_total r) (rd_dst r))
      | _ \<Rightarrow> True)"

definition clean_pending :: "weba_capture \<Rightarrow> bool" where
  "clean_pending c \<longleftrightarrow> \<not> has_flag (h_pending_flags c) WEBA_FRAME_SILENCE \<and>
     \<not> has_flag (h_pending_flags c) WEBA_FRAME_UNDERRUN"

definition labelled :: "sys \<Rightarrow> bool" where
  "labelled s \<longleftrightarrow> clean_pending (s_h s) \<and>
     (\<forall>r. s_read s = Some r \<longrightarrow> frame_note (frame_bytes (s_h s)) (s_got s) r)"

lemma clean_pending_loop: "loop_step i (l, c) = Inr (l', c') \<Longrightarrow> clean_pending c \<Longrightarrow> clean_pending c'"
  using loop_step_pending [of i l c l' c'] by (auto simp: clean_pending_def reinit_flags_def)

lemma clean_pending_read: "read_step i (r, c) = Inr (r', c') \<Longrightarrow> clean_pending c \<Longrightarrow> clean_pending c'"
  by (auto simp: read_steps
      clean_pending_def sum_bind_eq_Inr split: read_pc.splits option.splits if_splits)

text \<open>A frame popped is the frame noted.\<close>

lemma frame_note_pop:
  assumes inv: "read_inv r c" and fresh: "rd_total r = 0" and pc: "popping (rd_pc r)"
    and pop: "step_pop (pop_leads (rd_pc r)) r c = Inr (r', c')"
  shows "frame_note (frame_bytes c) (got @ newly_got r r' c) r'"
  using inv pop
proof (cases rule: step_pop_cases)
  case (frame f fs)
  have "got_frame (pop_leads (rd_pc r) 1)"
    using pc by (auto simp: got_frame_def pop_leads_def popping_def split: read_pc.splits)
  then have new: "newly_got r r' c = [(rd_total r', take (frame_bytes c) (rd_dst r'))]"
    using pc frame by (simp add: newly_got_def)
  show ?thesis unfolding new
    using pc frame by (auto simp: frame_note_def taken_frame_def pop_leads_def popping_def split: read_pc.splits)
qed (use pc fresh in \<open>auto simp: frame_note_def pop_leads_def popping_def size_add_def WEBA_ERR_STATE_def
       split: read_pc.splits\<close>)

lemma frame_note_quiet:
  assumes inv: "read_inv r c" and clean: "clean_pending c" and noted: "frame_note (frame_bytes c) got r"
    and step: "read_step i (r, c) = Inr (r', c')" and pc: "\<not> popping (rd_pc r)"
  shows "frame_note (frame_bytes c) got r'"
proof (cases "rd_pc r")
  case (RFlags res)
  have len: "frame_bytes c \<le> length (rd_dst r)" using inv by (simp add: read_inv_def)
  show ?thesis
  proof (cases "res = 0")
    case True
    with RFlags step noted len show ?thesis
      by (simp add: read_step_def step_flags_def Let_def)
        (auto simp: frame_note_def handed_frame_def silent_frame_def)
  next
    case False
    with RFlags step noted clean show ?thesis
      by (auto simp: read_step_def step_flags_def Let_def frame_note_def handed_frame_def
          captured_frame_def clean_pending_def)
  qed
next
  case (RAfter fl)
  with step noted show ?thesis
    by (auto simp: read_step_def step_after_def Let_def frame_note_def)
next
  case RInfo
  with step noted clean show ?thesis
    by (auto simp: read_step_def step_info_def frame_note_def handed_frame_def captured_frame_def
        clean_pending_def split: option.splits)
qed (use step noted pc in \<open>auto simp: read_step_def step_top_def Let_def frame_note_def popping_def split: if_splits\<close>)

lemma frame_note_step:
  assumes inv: "read_inv r c" and clean: "clean_pending c" and noted: "frame_note (frame_bytes c) got r"
    and fresh: "unpopped (rd_pc r) \<longrightarrow> rd_total r = 0" and step: "read_step i (r, c) = Inr (r', c')"
  shows "frame_note (frame_bytes c) (got @ newly_got r r' c) r'"
proof (cases "popping (rd_pc r)")
  case True
  then have tot: "rd_total r = 0" "\<not> got_frame (rd_pc r)"
    using fresh by (auto simp: popping_def unpopped_def got_frame_def split: read_pc.splits)
  from step True show ?thesis
  proof (cases rule: read_step_pop)
    case blocked
    with tot noted show ?thesis by (simp add: newly_got_def)
  next
    case pop
    from frame_note_pop [OF inv tot(1) True pop] show ?thesis .
  qed
next
  case False
  with frame_note_quiet [OF inv clean noted step] read_step_quiet(2) [OF step] show ?thesis by simp
qed

subsection \<open>The invariant of the system\<close>

lemma labelled_init: "sys_init s \<Longrightarrow> labelled s"
  using sys_init_sel [of s] by (simp add: labelled_def started_def clean_pending_def)

lemma labelled_frame:
  assumes "labelled s" "frame_bytes c' = frame_bytes (s_h s)" "clean_pending c'"
  shows "labelled (s\<lparr>s_h := c'\<rparr>)"
  using assms by (simp add: labelled_def)

lemma labelled_consume:
  assumes safe: "sys_safe s" and acc: "accounted s" and lab: "labelled s" and r: "s_read s = Some r"
    and step: "read_step i (r, s_h s) = Inr (r', c')"
  shows "labelled (s\<lparr>s_read := Some r', s_h := c', s_clock := ri_now i,
       s_got := s_got s @ newly_got r r' (s_h s), s_released := rel\<rparr>)"
proof (cases "\<exists>st. rd_pc r = RReturn st")
  case True
  then have "r' = r" "c' = s_h s" "newly_got r r' (s_h s) = []"
    using step by (auto simp: read_step_def newly_got_def popping_def)
  with lab r show ?thesis by (simp add: labelled_def)
next
  case False
  then have inv: "read_inv r (s_h s)" using sys_consume_inv [OF safe r] by blast
  from read_step_inv [OF inv, of i] step have fb: "frame_bytes c' = frame_bytes (s_h s)"
    by (auto simp: read_frame_rel_def frame_bytes_mic)
  have clean: "clean_pending (s_h s)" and noted: "frame_note (frame_bytes (s_h s)) (s_got s) r"
    using lab r by (simp_all add: labelled_def)
  have fresh: "unpopped (rd_pc r) \<longrightarrow> rd_total r = 0" using acc r by (simp add: accounted_def no_loss_yet_def)
  from frame_note_step [OF inv clean noted fresh step] clean_pending_read [OF step clean] fb
  show ?thesis by (simp add: labelled_def)
qed

lemma labelled_step:
  "sys_safe s \<and> accounted s \<Longrightarrow> labelled s \<Longrightarrow> sys_step s a t \<Longrightarrow> labelled t"
proof -
  assume *: "sys_safe s \<and> accounted s" and lab: "labelled s" and "sys_step s a t"
  from this(3) show "labelled t"
  proof cases
    case (sys_capture i l' c')
    have inv: "loop_inv (s_loop s) (s_h s)" using * by (simp add: sys_safe_def)
    from loop_step_inv [OF inv, of i] sys_capture(3) have "frame_bytes c' = frame_bytes (s_h s)"
      by (auto simp: loop_frame_def frame_bytes_mic)
    with lab clean_pending_loop [OF sys_capture(3)] show ?thesis
      unfolding sys_capture(2) by (simp add: labelled_def)
  next
    case sys_consume
    then show ?thesis using labelled_consume [of s] * lab by simp
  next
    case (sys_call now d cap info timeout r)
    have "handle_wf (s_h s)" using * by (simp add: sys_safe_def)
    from read_entry_cases [OF this, of d cap info timeout now] sys_call(6)
    have "frame_note fb got r" for fb got
      by (auto simp: read_refused_def frame_note_def WEBA_ERR_STATE_def WEBA_ERR_INVAL_def split: if_splits)
    with lab show ?thesis unfolding sys_call(2) by (simp add: labelled_def)
  next
    case sys_request
    with lab show ?thesis by (simp add: labelled_def clean_pending_def)
  next
    case sys_close
    with lab show ?thesis by (simp add: labelled_def clean_pending_def)
  next
    case sys_event
    with lab show ?thesis by (simp add: labelled_def clean_pending_def)
  qed
qed

interpretation lab: relative_invariant sys_init sys_step "\<lambda>s. sys_safe s \<and> accounted s" labelled
  by unfold_locales (auto intro: labelled_init labelled_step [OF conjI] acct.both.inv_init
      dest: acct.both.inv_step)

lemma reachable_labelled:
  "reachable sys_init sys_step s \<Longrightarrow> sys_safe s \<and> accounted s \<and> labelled s"
  using lab.both.invariant by blast

end
