(* ===== verification/Lifecycle.thy ===== *)
theory Lifecycle
  imports Loop_Service Cadence Delivered
begin

text \<open>
  The life of a handle: \<open>weba_capture_start()\<close>, \<open>weba_capture_stop()\<close> and
  \<open>weba_capture_destroy()\<close> of \<open>src/capture.cpp\<close>. Starting leads into the running system; stopping
  runs the capture thread's last steps while it waits, and joins or abandons it.
\<close>

subsection \<open>Starting\<close>

record start_env =
  se_connect :: connect_env
  se_resolve :: resolve_env
  se_disconnect :: "pa_context_state list"
  se_spawn :: bool
  se_alloc :: "nat \<Rightarrow> bool"

text \<open>
  \<open>se_spawn\<close>: the capture thread can be created; \<open>se_alloc\<close>: the allocations of the new thread.
  The result: the status, the handle, and the new capture thread. Assigning to a joinable \<open>thread\<close>
  is \<open>std::terminate\<close>. The allocation is the thread's own first act; it is part of the start here, since
  nothing else can come before it in the thread, and if it fails the process ends, whether or not the
  start has returned.
\<close>

definition weba_capture_start ::
  "start_env \<Rightarrow> weba_capture option \<Rightarrow> (int \<times> weba_capture option \<times> loop_state option) outcome" where
  "weba_capture_start e capture =
     (case capture of
        None \<Rightarrow> Inr (WEBA_ERR_INVAL, None, None)
      | Some c \<Rightarrow>
          if h_running c then Inr (WEBA_ERR_STATE, Some c, None)
          else sum_bind (control_init (se_connect e) (h_control c)) (\<lambda>(ct, status).
            let c1 = c\<lparr>h_control := ct\<rparr> in
            if status \<noteq> WEBA_OK then Inr (status, Some (set_error (control_error ct) c1), None)
            else
              case resolve_target (se_resolve e) (h_requested_sink c1) (h_control c1) of
                (ct', None) \<Rightarrow>
                  Inr (WEBA_ERR_PULSE,
                       Some ((set_error (control_error ct') c1)\<lparr>h_control := control_shutdown (se_disconnect e) ct'\<rparr>),
                       None)
              | (ct', Some target) \<Rightarrow>
                  let c2 = (publish_format target (c1\<lparr>h_control := ct'\<rparr>))
                             \<lparr>h_stop_requested := False, h_running := True\<rparr>
                  in if \<not> se_spawn e then Inl SystemError
                     else if h_thread c2 then Inl Terminate
                     else sum_bind (thread_begin (se_alloc e) c2) (\<lambda>l.
                            Inr (WEBA_OK, Some (c2\<lparr>h_thread := True\<rparr>), Some l))))"

subsection \<open>Stopping\<close>

definition kJoinTimeout :: int where
  "kJoinTimeout = 3000"

definition stop_begin :: "weba_capture \<Rightarrow> weba_capture" where
  "stop_begin c =
     (let c1 = c\<lparr>h_stop_requested := True\<rparr> in c1\<lparr>h_queue := queue_close (h_queue c1)\<rparr>)"

text \<open>\<open>waited\<close> in milliseconds; \<open>None\<close> while the wait goes on, else whether its predicate holds.\<close>

definition stop_wait :: "int \<Rightarrow> weba_capture \<Rightarrow> bool option" where
  "stop_wait waited c =
     (if \<not> h_running c then Some True else if kJoinTimeout \<le> waited then Some False else None)"

definition stop_finish :: "pa_context_state list \<Rightarrow> weba_capture \<Rightarrow> weba_capture" where
  "stop_finish states c =
     (if \<not> h_thread_abandoned c
      then c\<lparr>h_control := control_shutdown states (h_control c), h_running := False\<rparr> else c)"

text \<open>What the capture thread, if there is one, does in the meantime.\<close>

definition thread_runs ::
  "loop_in list \<Rightarrow> loop_state option \<times> weba_capture \<Rightarrow> (loop_state option \<times> weba_capture) outcome" where
  "thread_runs is s =
     (case s of
        (None, c) \<Rightarrow> Inr (None, c)
      | (Some l, c) \<Rightarrow> sum_bind (loop_run is (l, c)) (\<lambda>(l', c'). Inr (Some l', c')))"

text \<open>
  The whole call: \<open>is\<close> are the steps of the thread during the wait, which has lasted \<open>waited\<close>. A
  joined thread has returned; an abandoned one goes on. The result is \<open>None\<close> while the call waits.
\<close>

definition weba_capture_stop ::
  "pa_context_state list \<Rightarrow> loop_in list \<Rightarrow> int \<Rightarrow> loop_state option \<times> weba_capture option \<Rightarrow>
   (loop_state option \<times> weba_capture option) option outcome" where
  "weba_capture_stop states is waited s =
     (case s of
        (lo, None) \<Rightarrow> Inr (Some (lo, None))
      | (lo, Some c) \<Rightarrow>
          let c1 = stop_begin c in
          if h_thread c1 then
            sum_bind (thread_runs is (lo, c1)) (\<lambda>(lo', c2).
              Inr (case stop_wait waited c2 of
                     None \<Rightarrow> None
                   | Some True \<Rightarrow> Some (None, Some (stop_finish states (c2\<lparr>h_thread := False\<rparr>)))
                   | Some False \<Rightarrow>
                       Some (lo', Some (stop_finish states
                         (c2\<lparr>h_thread := False, h_thread_abandoned := True\<rparr>)))))
          else Inr (Some (lo, Some (stop_finish states c1))))"

text \<open>
  Deleting the object runs the destructors of its members: a \<open>std::thread\<close> that is still joinable,
  the handle's or the control layer's, ends the process; the control layer shuts down before.
\<close>

definition weba_capture_delete :: "pa_context_state list \<Rightarrow> weba_capture \<Rightarrow> unit outcome" where
  "weba_capture_delete states c =
     (if h_thread c then Inl Terminate
      else if ct_thread (control_destroy states (h_control c)) then Inl Terminate else Inr ())"

text \<open>\<open>weba_capture_destroy()\<close> frees the handle (\<open>None\<close>) unless its thread has been abandoned.\<close>

definition weba_capture_destroy ::
  "pa_context_state list \<Rightarrow> loop_in list \<Rightarrow> int \<Rightarrow> loop_state option \<times> weba_capture option \<Rightarrow>
   (loop_state option \<times> weba_capture option) option outcome" where
  "weba_capture_destroy states is waited s =
     sum_bind (weba_capture_stop states is waited s) (\<lambda>r.
       case r of
         None \<Rightarrow> Inr None
       | Some (lo, None) \<Rightarrow> Inr (Some (lo, None))
       | Some (lo, Some c) \<Rightarrow>
           if h_thread_abandoned c then Inr (Some (lo, Some c))
           else sum_bind (weba_capture_delete states c) (\<lambda>_. Inr (Some (lo, None))))"

text \<open>A stop leaves nothing joinable, so no destructor ends the process.\<close>

lemma stop_finish_thread: "h_thread (stop_finish states c) = h_thread c"
  by (simp add: stop_finish_def)

lemma stop_unthreads:
  assumes "weba_capture_stop states is waited (lo, Some c) = Inr (Some (lo', Some c'))"
  shows "\<not> h_thread c'"
proof (cases "h_thread (stop_begin c)")
  case True
  then obtain l2 c2 where
    "(case stop_wait waited c2 of
        None \<Rightarrow> None
      | Some True \<Rightarrow> Some (None, Some (stop_finish states (c2\<lparr>h_thread := False\<rparr>)))
      | Some False \<Rightarrow>
          Some (l2, Some (stop_finish states (c2\<lparr>h_thread := False, h_thread_abandoned := True\<rparr>))))
      = Some (lo', Some c')"
    using assms by (simp add: weba_capture_stop_def Let_def sum_bind_eq_Inr) blast
  then have "c' = stop_finish states (c2\<lparr>h_thread := False\<rparr>) \<or>
      c' = stop_finish states (c2\<lparr>h_thread := False, h_thread_abandoned := True\<rparr>)"
    by (simp split: option.splits bool.splits)
  then show ?thesis by (auto simp: stop_finish_thread)
next
  case False
  then show ?thesis
    using assms by (auto simp: weba_capture_stop_def Let_def stop_finish_thread)
qed

lemma delete_unthreaded: "\<not> h_thread c \<Longrightarrow> weba_capture_delete states c = Inr ()"
  by (simp add: weba_capture_delete_def control_destroy_def control_shutdown_state)

lemma weba_capture_destroy_eq:
  "weba_capture_destroy states is waited s =
     sum_bind (weba_capture_stop states is waited s) (\<lambda>r.
       Inr (case r of
              None \<Rightarrow> None
            | Some (lo, None) \<Rightarrow> Some (lo, None)
            | Some (lo, Some c) \<Rightarrow> Some (if h_thread_abandoned c then (lo, Some c) else (lo, None))))"
proof -
  obtain lo co where s: "s = (lo, co)" by (cases s)
  show ?thesis
  proof (cases co)
    case None
    then show ?thesis by (simp add: s weba_capture_destroy_def weba_capture_stop_def)
  next
    case (Some c)
    have "\<not> h_thread c'" if "weba_capture_stop states is waited s = Inr (Some (lo', Some c'))" for lo' c'
      using stop_unthreads that by (simp add: s Some)
    then show ?thesis
      by (cases "weba_capture_stop states is waited s")
        (auto simp: weba_capture_destroy_def delete_unthreaded split: option.splits)
  qed
qed

subsection \<open>A start, branch by branch\<close>

definition startable :: "weba_capture \<Rightarrow> bool" where
  "startable c \<longleftrightarrow> handle_wf c \<and> frames (h_queue c) = [] \<and> q_dropped (h_queue c) = 0 \<and>
     \<not> closed (h_queue c) \<and> \<not> h_running c \<and> h_pending_flags c = 0 \<and> \<not> h_deadline_valid c \<and>
     \<not> h_thread c \<and> \<not> h_thread_abandoned c \<and> h_control c = control_new"

text \<open>The format a running handle reports: its own, and for a pinned sink that sink.\<close>

definition published :: "weba_capture \<Rightarrow> bool" where
  "published c \<longleftrightarrow>
     fi_sample_rate (h_format_info c) = h_sample_rate c \<and> fi_channels (h_format_info c) = h_channels c \<and>
     fi_frame_samples (h_format_info c) = h_frame_samples c \<and> fi_format (h_format_info c) = h_format c \<and>
     length (fi_sink_name (h_format_info c)) \<le> 255 \<and> length (fi_monitor_name (h_format_info c)) \<le> 255 \<and>
     (h_requested_sink c \<noteq> [] \<longrightarrow> fi_sink_name (h_format_info c) = fixed_name (h_requested_sink c))"

lemma published_publish:
  "h_requested_sink c \<noteq> [] \<Longrightarrow> tg_sink t = h_requested_sink c \<Longrightarrow> published (publish_format t c)"
  "h_requested_sink c = [] \<Longrightarrow> published (publish_format t c)"
  by (simp_all add: published_def publish_format_def fixed_name_def)

lemma published_frame [simp]:
  "published (c\<lparr>h_control := a\<rparr>) = published c"
  "published (c\<lparr>h_current_monitor := b\<rparr>) = published c"
  "published (c\<lparr>h_next_sink_check := d\<rparr>) = published c"
  "published (c\<lparr>h_running := e\<rparr>) = published c"
  "published (c\<lparr>h_stop_requested := e\<rparr>) = published c"
  "published (c\<lparr>h_pending_flags := f\<rparr>) = published c"
  "published (c\<lparr>h_error := h\<rparr>) = published c"
  "published (c\<lparr>h_thread := e\<rparr>) = published c"
  "published (c\<lparr>h_queue := q\<rparr>) = published c"
  by (simp_all add: published_def)

lemma create_startable:
  assumes "weba_capture_create out handle_ok alloc_ok cfg = Inr (st, Some c)"
    and "unat (h_queue_frames (configured cfg)) * frame_bytes (configured cfg) < 2 ^ 64"
  shows "startable c"
proof -
  note w = create_wf [OF assms]
  have "\<not> h_running c" "h_pending_flags c = 0" "\<not> h_deadline_valid c" "\<not> h_thread c"
    "\<not> h_thread_abandoned c" "h_control c = control_new"
    by (subst w(5), simp add: configured_def apply_config_def weba_capture_new_def split: option.splits)+
  with w(1-4) show ?thesis by (simp add: startable_def)
qed

text \<open>The branches of a start that returns.\<close>

lemma start_branches:
  assumes "weba_capture_start e (Some c) = Inr (st, co, lo)"
  obtains (running) "h_running c" "st = WEBA_ERR_STATE" "co = Some c" "lo = None"
  | (connect) ct where "\<not> h_running c" "control_init (se_connect e) (h_control c) = Inr (ct, st)" "st \<noteq> WEBA_OK"
      "co = Some (set_error (control_error ct) (c\<lparr>h_control := ct\<rparr>))" "lo = None"
  | (resolve) ct ct' where "\<not> h_running c" "control_init (se_connect e) (h_control c) = Inr (ct, WEBA_OK)"
      "resolve_target (se_resolve e) (h_requested_sink c) ct = (ct', None)" "st = WEBA_ERR_PULSE"
      "co = Some ((set_error (control_error ct') (c\<lparr>h_control := ct\<rparr>))
         \<lparr>h_control := control_shutdown (se_disconnect e) ct'\<rparr>)" "lo = None"
  | (started) ct ct' t where "\<not> h_running c" "\<not> h_thread c"
      "control_init (se_connect e) (h_control c) = Inr (ct, WEBA_OK)"
      "resolve_target (se_resolve e) (h_requested_sink c) ct = (ct', Some t)" "st = WEBA_OK"
      "se_spawn e" "se_alloc e (frame_bytes c)"
      "co = Some ((publish_format t (c\<lparr>h_control := ct'\<rparr>))
         \<lparr>h_stop_requested := False, h_running := True, h_thread := True\<rparr>)" "lo = Some (loop_start c)"
proof (cases "h_running c")
  case True
  with assms running show ?thesis by (simp add: weba_capture_start_def)
next
  case False
  with assms obtain ct stc where i: "control_init (se_connect e) (h_control c) = Inr (ct, stc)"
    by (cases "control_init (se_connect e) (h_control c)") (auto simp: weba_capture_start_def)
  obtain ct' to where r: "resolve_target (se_resolve e) (h_requested_sink c) ct = (ct', to)" by fastforce
  show ?thesis
  proof (cases "stc = WEBA_OK")
    case ok: True
    show ?thesis
    proof (cases to)
      case None
      with assms False i r ok resolve show ?thesis by (simp add: weba_capture_start_def Let_def)
    next
      case (Some t)
      have th: "h_thread (publish_format t (c\<lparr>h_control := ct'\<rparr>)) = h_thread c" by (simp add: publish_format_def)
      from Some assms False i r ok started show ?thesis
        by (auto simp: weba_capture_start_def sum_bind_eq_Inr loop_start_def th Let_def split: if_splits)
    qed
  qed (use assms False i connect in \<open>simp add: weba_capture_start_def Let_def\<close>)
qed

lemma start_started:
  assumes "startable c" "weba_capture_start e (Some c) = Inr (WEBA_OK, Some c', lo)"
  shows "started c'" "published c'" "lo = Some (loop_start c')"
proof -
  obtain ct ct' t where r: "resolve_target (se_resolve e) (h_requested_sink c) ct = (ct', Some t)"
    and c': "c' = (publish_format t (c\<lparr>h_control := ct'\<rparr>))
      \<lparr>h_stop_requested := False, h_running := True, h_thread := True\<rparr>"
    and lo: "lo = Some (loop_start c)"
    using assms(2) by (cases rule: start_branches) (auto simp: status_defs)
  show "lo = Some (loop_start c')" by (simp add: lo c' loop_start_def)
  show "started c'"
    using assms(1) by (simp add: c' started_def startable_def) (simp add: publish_format_def)
  show "published c'"
    using published_publish [where c = "c\<lparr>h_control := ct'\<rparr>" and t = t] resolve_target_named [OF r]
    unfolding c' by (cases "h_requested_sink c = []") simp_all
qed

text \<open>A start that fails reports PULSE, leaves a message and no thread, and does not run.\<close>

lemma start_fails:
  assumes "weba_capture_start e (Some c) = Inr (st, Some c', lo)" "\<not> h_running c" "st \<noteq> WEBA_OK"
  shows "st = WEBA_ERR_PULSE" "c_str (h_error c') \<noteq> []" "lo = None" "\<not> h_running c'" "h_queue c' = h_queue c"
proof -
  have "st = WEBA_ERR_PULSE \<and> c_str (h_error c') \<noteq> [] \<and> lo = None \<and> \<not> h_running c' \<and> h_queue c' = h_queue c"
    using assms(1)
  proof (cases rule: start_branches)
    case (connect ct)
    with control_init_status [OF connect(2)] show ?thesis by (simp add: set_error_def)
  next
    case (resolve ct ct')
    with resolve_target_frame(2) [OF resolve(3)] show ?thesis by (simp add: set_error_def)
  qed (use assms(2,3) in simp_all)
  then show "st = WEBA_ERR_PULSE" "c_str (h_error c') \<noteq> []" "lo = None" "\<not> h_running c'" "h_queue c' = h_queue c"
    by simp_all
qed

text \<open>On a fresh handle a start succeeds exactly when the server connects and the sink resolves.\<close>

definition connects :: "connect_env \<Rightarrow> bool" where
  "connects e \<longleftrightarrow> ce_mainloop e \<and> ce_context e \<and> 0 \<le> ce_connect_rc e \<and> ce_spawn e \<and>
     CtxReady \<in> set (ce_connect_states e @ ce_wait_states e) \<and>
     CtxFailed \<notin> set (ce_connect_states e @ ce_wait_states e) \<and>
     CtxTerminated \<notin> set (ce_connect_states e @ ce_wait_states e)"

lemma control_init_connects:
  assumes "connects e" "\<not> ct_thread c" "\<not> ct_failed c" "\<not> ct_terminated c"
  shows "\<exists>c'. control_init e c = Inr (c', WEBA_OK) \<and> ct_ctx c' \<and> control_ready c'"
  using assms
  by (auto simp: control_init_def connects_def control_ready_def state_callbacks Let_def status_defs)

lemma startable_new:
  assumes "startable c"
  shows "\<not> h_running c" "\<not> h_thread c" "h_control c = control_new"
  using assms by (simp_all add: startable_def)

lemma start_serves:
  assumes c: "\<not> h_running c" "\<not> h_thread c" and ctl: "h_control c = control_new"
    and con: "connects (se_connect e)" and sv: "serves sv (se_resolve e)"
  shows "resolve_spec sv (h_requested_sink c) = None \<Longrightarrow>
      \<exists>c'. weba_capture_start e (Some c) = Inr (WEBA_ERR_PULSE, Some c', None) \<and> \<not> h_running c'"
    and "resolve_spec sv (h_requested_sink c) = Some t \<Longrightarrow> \<not> se_spawn e \<Longrightarrow>
      weba_capture_start e (Some c) = Inl SystemError"
    and "resolve_spec sv (h_requested_sink c) = Some t \<Longrightarrow> se_spawn e \<Longrightarrow> \<not> se_alloc e (frame_bytes c) \<Longrightarrow>
      weba_capture_start e (Some c) = Inl Terminate"
    and "resolve_spec sv (h_requested_sink c) = Some t \<Longrightarrow> se_spawn e \<Longrightarrow> se_alloc e (frame_bytes c) \<Longrightarrow>
      \<exists>c'. weba_capture_start e (Some c) = Inr (WEBA_OK, Some c', Some (loop_start c')) \<and> h_running c' \<and>
        h_format_info c' = h_format_info (publish_format t c) \<and> h_queue c' = h_queue c"
proof -
  have "\<not> ct_thread control_new" "\<not> ct_failed control_new" "\<not> ct_terminated control_new"
    by (simp_all add: control_new_def)
  from control_init_connects [OF con this] obtain ct where
    ct: "control_init (se_connect e) control_new = Inr (ct, WEBA_OK)" "ct_ctx ct" "control_ready ct" by blast
  obtain ct' r where r: "resolve_target (se_resolve e) (h_requested_sink c) ct = (ct', r)" by fastforce
  with resolve_target_serves [OF sv ct(2,3), of "h_requested_sink c"]
  have rs: "r = resolve_spec sv (h_requested_sink c)" by simp
  note facts = c ct(1) r rs ctl
  note defs = weba_capture_start_def publish_format_def set_error_def loop_start_def thread_begin_def Let_def
  show "\<exists>c'. weba_capture_start e (Some c) = Inr (WEBA_ERR_PULSE, Some c', None) \<and> \<not> h_running c'"
    if "resolve_spec sv (h_requested_sink c) = None" using facts that by (simp add: defs)
  show "weba_capture_start e (Some c) = Inl SystemError"
    if "resolve_spec sv (h_requested_sink c) = Some t" "\<not> se_spawn e" using facts that by (simp add: defs)
  show "weba_capture_start e (Some c) = Inl Terminate"
    if "resolve_spec sv (h_requested_sink c) = Some t" "se_spawn e" "\<not> se_alloc e (frame_bytes c)"
    using facts that by (simp add: defs)
  show "\<exists>c'. weba_capture_start e (Some c) = Inr (WEBA_OK, Some c', Some (loop_start c')) \<and> h_running c' \<and>
      h_format_info c' = h_format_info (publish_format t c) \<and> h_queue c' = h_queue c"
    if "resolve_spec sv (h_requested_sink c) = Some t" "se_spawn e" "se_alloc e (frame_bytes c)"
    using facts that by (simp add: defs)
qed

subsection \<open>A stop\<close>

lemma stop_begin_sel [simp]:
  "h_stop_requested (stop_begin c)" "h_running (stop_begin c) = h_running c"
  "h_thread (stop_begin c) = h_thread c" "h_control (stop_begin c) = h_control c"
  "h_thread_abandoned (stop_begin c) = h_thread_abandoned c" "closed (h_queue (stop_begin c))"
  "frames (h_queue (stop_begin c)) = frames (h_queue c)"
  by (simp_all add: stop_begin_def queue_close_def frames_def slot_def cong: map_cong)

lemma stop_begin_loop_inv: "loop_inv l c \<Longrightarrow> loop_inv l (stop_begin c)"
proof -
  assume inv: "loop_inv l c"
  then have "handle_wf (c\<lparr>h_stop_requested := True\<rparr>)" by (simp add: loop_inv_def)
  then have "handle_wf (c\<lparr>h_stop_requested := True, h_queue := queue_close (h_queue c)\<rparr>)"
    by (intro handle_wf_queue queue_close_refines) (auto simp: handle_wf_def queue_close_def)
  then have wf: "handle_wf (stop_begin c)" by (simp add: stop_begin_def)
  have "frame_bytes (stop_begin c) = frame_bytes c" "h_requested_sink (stop_begin c) = h_requested_sink c"
    by (simp_all add: stop_begin_def)
  with inv wf show ?thesis by (simp add: loop_inv_def)
qed

text \<open>The handle after a stop that joined.\<close>

definition at_rest :: "weba_capture \<Rightarrow> bool" where
  "at_rest c \<longleftrightarrow> \<not> h_running c \<and> \<not> h_thread c \<and> \<not> h_thread_abandoned c \<and> h_stop_requested c \<and>
     closed (h_queue c) \<and> \<not> ct_thread (h_control c) \<and> \<not> ct_ctx (h_control c) \<and>
     \<not> ct_mainloop (h_control c) \<and> \<not> ct_ready (h_control c)"

lemma at_rest_finish:
  "\<not> h_thread_abandoned c \<Longrightarrow> \<not> h_thread c \<Longrightarrow> h_stop_requested c \<Longrightarrow> closed (h_queue c) \<Longrightarrow>
     at_rest (stop_finish sts c)"
  by (simp add: at_rest_def stop_finish_def control_shutdown_state)

text \<open>A thread that gets ten steps is joined, whatever it was doing.\<close>

lemma stop_joins:
  assumes "loop_inv l c" "gone_clear l c" "h_thread c" "\<not> h_thread_abandoned c" "10 \<le> length is"
  shows "\<exists>c'. weba_capture_stop sts is waited (Some l, Some c) = Inr (Some (None, Some c')) \<and> at_rest c'"
proof -
  have inv: "loop_inv l (stop_begin c)" by (rule stop_begin_loop_inv [OF assms(1)])
  have gone: "gone_clear l (stop_begin c)" using assms(2) by (simp add: gone_clear_def)
  have "exit_distance (lp_pc l) \<le> length is" using exit_distance_le [of "lp_pc l"] assms(5) by simp
  from exit_run [OF inv _ gone this] obtain l' c' where
    run: "loop_run is (l, stop_begin c) = Inr (l', c')" "\<not> h_running c'" "loop_frame (stop_begin c) c'"
    by auto
  let ?c = "c'\<lparr>h_thread := False\<rparr>"
  have "at_rest (stop_finish sts ?c)"
    using run(3) assms(4) by (intro at_rest_finish) (simp_all add: loop_frame_def)
  with run assms(3) show ?thesis
    by (simp add: weba_capture_stop_def thread_runs_def stop_wait_def Let_def)
qed

text \<open>A second stop changes nothing.\<close>

lemma queue_close_idem [simp]: "queue_close (queue_close q) = queue_close q"
  by (simp add: queue_close_def)

lemma control_shutdown_down:
  "\<not> ct_thread c \<Longrightarrow> \<not> ct_ctx c \<Longrightarrow> \<not> ct_mainloop c \<Longrightarrow> \<not> ct_ready c \<Longrightarrow> control_shutdown sts c = c"
  by (simp add: control_shutdown_def)

lemma queue_close_closed: "closed q \<Longrightarrow> queue_close q = q"
  by (simp add: queue_close_def)

lemma stop_at_rest:
  assumes "at_rest c"
  shows "weba_capture_stop sts is waited (lo, Some c) = Inr (Some (lo, Some c))"
  using assms
  by (simp add: weba_capture_stop_def at_rest_def stop_begin_def stop_finish_def control_shutdown_down
      queue_close_closed)

text \<open>A thread that does not leave in time is abandoned, and the handle is never freed.\<close>

lemma stop_abandons:
  assumes "h_thread c" "thread_runs is (Some l, stop_begin c) = Inr (lo', c2)" "h_running c2"
    "kJoinTimeout \<le> waited"
  shows "weba_capture_stop sts is waited (Some l, Some c) =
           Inr (Some (lo', Some (c2\<lparr>h_thread := False, h_thread_abandoned := True\<rparr>)))"
  using assms by (simp add: weba_capture_stop_def stop_wait_def stop_finish_def)

subsection \<open>Starting again\<close>

text \<open>A terminated or failed connection stays so, and no start succeeds after it.\<close>

definition spent :: "control \<Rightarrow> bool" where
  "spent ct \<longleftrightarrow> ct_failed ct \<or> ct_terminated ct"

lemma spent_start:
  assumes "spent (h_control c)" "weba_capture_start e (Some c) = Inr (st, Some c', lo)"
  shows "st \<noteq> WEBA_OK"
proof
  assume "st = WEBA_OK"
  with assms(2) obtain ct ct' t where i: "control_init (se_connect e) (h_control c) = Inr (ct, WEBA_OK)"
    and r: "resolve_target (se_resolve e) (h_requested_sink c) ct = (ct', Some t)"
    by (cases rule: start_branches) (auto simp: status_defs)
  have "spent ct" using control_init_sticky [OF i] assms(1) by (auto simp: spent_def)
  then have "\<not> control_ready ct" by (auto simp: spent_def control_ready_def)
  from resolve_unready [OF this, of "se_resolve e" "h_requested_sink c"] r show False by simp
qed

lemma spent_start_fault:
  assumes "spent (h_control c)" "weba_capture_start e (Some c) = Inl f" "\<not> ct_thread (h_control c)"
  shows "f = SystemError \<and> \<not> ce_spawn (se_connect e)"
proof (cases "control_init (se_connect e) (h_control c)")
  case (Inl g)
  with assms(2) have "g = f" by (auto simp: weba_capture_start_def split: if_splits)
  with Inl control_init_fault_iff [of "se_connect e" "h_control c" g] assms(3) show ?thesis
    by (auto split: if_splits)
next
  case (Inr x)
  then obtain ct st where x: "control_init (se_connect e) (h_control c) = Inr (ct, st)" by (cases x) simp
  have "spent ct" using control_init_sticky [OF x] assms(1) by (auto simp: spent_def)
  then have "\<not> control_ready ct" by (auto simp: spent_def control_ready_def)
  with resolve_unready obtain ct' where "resolve_target (se_resolve e) (h_requested_sink c) ct = (ct', None)"
    by (metis surjective_pairing)
  with x assms(2) show ?thesis by (auto simp: weba_capture_start_def Let_def split: if_splits)
qed

text \<open>A start whose connection failed leaves the loop thread joinable; the next one ends the process.\<close>

lemma failed_start_thread:
  assumes "\<not> h_running c" "\<not> ct_thread (h_control c)"
    and e: "ce_mainloop (se_connect e)" "ce_context (se_connect e)" "0 \<le> ce_connect_rc (se_connect e)"
      "ce_spawn (se_connect e)"
    and down: "CtxReady \<notin> set (ce_connect_states (se_connect e) @ ce_wait_states (se_connect e))"
    and fresh: "\<not> ct_ready (h_control c)"
  shows "\<exists>c'. weba_capture_start e (Some c) = Inr (WEBA_ERR_PULSE, Some c', None) \<and>
           ct_thread (h_control c') \<and> \<not> h_running c'"
  using assms
  by (auto simp: weba_capture_start_def control_init_def state_callbacks set_error_def Let_def status_defs)

lemma start_joinable_terminates:
  assumes "\<not> h_running c" "ct_thread (h_control c)"
    and "ce_mainloop (se_connect e)" "ce_context (se_connect e)" "0 \<le> ce_connect_rc (se_connect e)"
    and "ce_spawn (se_connect e)"
  shows "weba_capture_start e (Some c) = Inl Terminate"
  using assms control_init_fault_iff [of "se_connect e" "h_control c" Terminate]
  by (simp add: weba_capture_start_def)

text \<open>A handle that has run is never restarted: its stop terminates the connection for good.\<close>

lemma stop_joins_control:
  assumes "loop_inv l c" "gone_clear l c" "h_thread c" "\<not> h_thread_abandoned c" "10 \<le> length is"
    and ctl: "ct_ctx (h_control c)" "CtxTerminated \<in> set sts"
  shows "\<exists>c'. weba_capture_stop sts is waited (Some l, Some c) = Inr (Some (None, Some c')) \<and> at_rest c' \<and>
           spent (h_control c')"
proof -
  from stop_joins [OF assms(1-5), of sts waited] obtain c' where
    stop: "weba_capture_stop sts is waited (Some l, Some c) = Inr (Some (None, Some c'))" and rest: "at_rest c'" by blast
  from stop assms(3) obtain l2 c2 where run: "loop_run is (l, stop_begin c) = Inr (l2, c2)"
    and c': "c' = stop_finish sts (c2\<lparr>h_thread := False\<rparr>)"
    by (auto simp: weba_capture_stop_def thread_runs_def sum_bind_eq_Inr Let_def
        split: option.splits bool.splits)
  have "ct_ctx (h_control c2)"
    using same_but_errorD(1) [OF loop_run_control [OF run]] ctl(1) by simp
  then have "spent (control_shutdown sts (h_control c2))"
    using ctl(2) by (simp add: spent_def control_shutdown_state)
  moreover have "\<not> h_thread_abandoned c2" using rest by (simp add: c' at_rest_def stop_finish_def split: if_splits)
  ultimately show ?thesis using stop rest by (simp add: c' stop_finish_def)
qed

lemma at_rest_start:
  assumes "at_rest c" "spent (h_control c)"
  shows "(\<exists>c' lo. weba_capture_start e (Some c) = Inr (WEBA_ERR_PULSE, c', lo)) \<or>
    weba_capture_start e (Some c) = Inl SystemError \<and> \<not> ce_spawn (se_connect e)"
proof (cases "weba_capture_start e (Some c)")
  case (Inl f)
  with spent_start_fault [OF assms(2) Inl] assms(1) show ?thesis by (simp add: at_rest_def)
next
  case (Inr x)
  obtain st c' lo where x: "x = (st, c', lo)" by (cases x)
  have run: "\<not> h_running c" using assms(1) by (simp add: at_rest_def)
  with Inr x obtain h where h: "c' = Some h"
    by (auto simp: weba_capture_start_def sum_bind_eq_Inr Let_def split: if_splits prod.splits option.splits)
  with Inr x have start: "weba_capture_start e (Some c) = Inr (st, Some h, lo)" by simp
  with start_fails(1) [OF start run spent_start [OF assms(2) start]] show ?thesis by blast
qed

lemma start_control:
  assumes "weba_capture_start e (Some c) = Inr (WEBA_OK, Some c', lo)" "\<not> h_running c"
  shows "ct_ctx (h_control c')" "ct_thread (h_control c')" "h_thread c'"
    "h_thread_abandoned c' = h_thread_abandoned c"
proof -
  obtain ct ct' t where i: "control_init (se_connect e) (h_control c) = Inr (ct, WEBA_OK)"
    and r: "resolve_target (se_resolve e) (h_requested_sink c) ct = (ct', Some t)"
    and c': "c' = (publish_format t (c\<lparr>h_control := ct'\<rparr>))
      \<lparr>h_stop_requested := False, h_running := True, h_thread := True\<rparr>"
    using assms(1) by (cases rule: start_branches) (auto simp: status_defs)
  have "ct_ctx ct' = ct_ctx ct" "ct_thread ct' = ct_thread ct"
    using same_but_errorD [OF resolve_target_frame(1) [OF r]] by simp_all
  with control_init_ok [OF i] show "ct_ctx (h_control c')" "ct_thread (h_control c')" "h_thread c'"
    "h_thread_abandoned c' = h_thread_abandoned c"
    by (simp_all add: c' publish_format_def)
qed

text \<open>The state of a started handle after any run of its thread.\<close>

lemma started_run:
  assumes "startable c" "weba_capture_start e (Some c) = Inr (WEBA_OK, Some c1, Some l1)"
    and run: "loop_run before (l1, c1) = Inr (l2, c2)"
  shows "loop_inv l2 c2" "gone_clear l2 c2" "h_thread c2" "\<not> h_thread_abandoned c2" "ct_ctx (h_control c2)"
proof -
  note st = start_started [OF assms(1,2)]
  have nr: "\<not> h_running c" using assms(1) by (simp add: startable_def)
  note ctl = start_control [OF assms(2) nr]
  have l1: "l1 = loop_start c1" using st(3) by simp
  have "handle_wf c1" using st(1) by (simp add: started_def)
  then have inv: "loop_inv l1 c1" by (simp add: l1 loop_inv_start)
  from loop_run_inv [OF inv, of before] run have "loop_inv l2 c2 \<and> loop_frame c1 c2" by auto
  moreover have "gone_clear l2 c2" by (rule gone_clear_run [OF run]) (simp add: l1)
  moreover have "ct_ctx (h_control c2)" using same_but_errorD(1) [OF loop_run_control [OF run]] ctl(1) by simp
  moreover have "\<not> h_thread_abandoned c1" using ctl(4) assms(1) by (simp add: startable_def)
  ultimately show "loop_inv l2 c2" "gone_clear l2 c2" "h_thread c2" "\<not> h_thread_abandoned c2"
    "ct_ctx (h_control c2)"
    using ctl(3) by (simp_all add: loop_frame_def)
qed

subsection \<open>The published format while capturing\<close>

definition served :: "sys \<Rightarrow> bool" where
  "served s \<longleftrightarrow> sys_init s \<and> published (s_h s)"

definition published_sys :: "sys \<Rightarrow> bool" where
  "published_sys s \<longleftrightarrow> published (s_h s)"

lemma published_loop:
  assumes inv: "loop_inv l c" and pub: "published c" and step: "loop_step i (l, c) = Inr (l', c')"
  shows "published c'"
proof (cases "lp_pc l")
  case (LPublish t)
  have c': "c' = publish_format t c" using step LPublish by (simp add: loop_step_def)
  have "h_requested_sink c \<noteq> [] \<longrightarrow> tg_sink t = h_requested_sink c"
    using inv LPublish by (simp add: loop_inv_def pc_target_def)
  then show ?thesis
    unfolding c' by (cases "h_requested_sink c = []") (simp_all add: published_publish)
qed (use step pub in \<open>auto simp: loop_steps sum_bind_eq_Inr
      split: prod.splits option.splits sum.splits if_splits\<close>)

lemma published_read:
  "published c \<Longrightarrow> read_frame_rel c c' \<Longrightarrow> published c'"
  by (simp add: published_def read_frame_rel_def mic_format_of_def)

lemma published_step: "sys_safe s \<Longrightarrow> published_sys s \<Longrightarrow> sys_step s a t \<Longrightarrow> published_sys t"
proof -
  assume safe: "sys_safe s" and pub: "published_sys s" and "sys_step s a t"
  from this(3) show "published_sys t"
  proof cases
    case sys_capture
    with safe pub published_loop show ?thesis by (auto simp: published_sys_def sys_safe_def)
  next
    case (sys_consume r i r' c')
    have "published c'"
    proof (cases "\<exists>st. rd_pc r = RReturn st")
      case True
      with sys_consume pub show ?thesis by (auto simp: read_step_def published_sys_def)
    next
      case False
      with sys_consume_inv [OF safe sys_consume(3)] have inv: "read_inv r (s_h s)" by blast
      from read_step_inv [OF inv, of i] sys_consume(5) pub published_read show ?thesis
        by (auto simp: published_sys_def)
    qed
    then show ?thesis unfolding sys_consume(2) by (simp add: published_sys_def)
  qed (use pub in \<open>simp_all add: published_sys_def\<close>)
qed

interpretation pub: relative_invariant served sys_step sys_safe published_sys
  by unfold_locales (auto simp: served_def published_sys_def intro: sys_safe_init sys_safe_step published_step
      dest: published_step)

lemma served_start:
  "startable c \<Longrightarrow> weba_capture_start e (Some c) = Inr (WEBA_OK, Some c', lo) \<Longrightarrow> served (sys_of c')"
  using start_started [of c e c' lo] by (simp add: served_def sys_init_def sys_of_def)

text \<open>A start leaves the configuration alone.\<close>

lemma start_config:
  assumes "weba_capture_start e (Some c) = Inr (st, Some c', lo)"
  shows "mic_format_of c' = mic_format_of c" "h_fixed_rate c' = h_fixed_rate c"
proof -
  have "mic_format_of c' = mic_format_of c \<and> h_fixed_rate c' = h_fixed_rate c"
    using assms by (cases rule: start_branches) (auto simp: mic_format_of_def publish_format_def set_error_def)
  then show "mic_format_of c' = mic_format_of c" "h_fixed_rate c' = h_fixed_rate c" by simp_all
qed

subsection \<open>The end of a running system\<close>

text \<open>A thread that has left has cleared \<open>running\<close>, whatever the consumer did in the meantime.\<close>

definition gone_sys :: "sys \<Rightarrow> bool" where
  "gone_sys s \<longleftrightarrow> gone_clear (s_loop s) (s_h s)"

lemma gone_sys_step: "sys_safe s \<Longrightarrow> gone_sys s \<Longrightarrow> sys_step s a t \<Longrightarrow> gone_sys t"
proof -
  assume safe: "sys_safe s" and gone: "gone_sys s" and "sys_step s a t"
  from this(3) show "gone_sys t"
  proof cases
    case sys_capture
    with gone gone_clear_step show ?thesis by (auto simp: gone_sys_def)
  next
    case (sys_consume r i r' c')
    have "h_running c' = h_running (s_h s)"
      using sys_consume(5) by (cases "rd_pc r")
        (auto simp: read_steps sum_bind_eq_Inr split: option.splits if_splits)
    with gone show ?thesis unfolding sys_consume(2) by (simp add: gone_sys_def gone_clear_def)
  qed (use gone in \<open>simp_all add: gone_sys_def gone_clear_def\<close>)
qed

lemma gone_sys_init: "sys_init s \<Longrightarrow> gone_sys s"
  by (simp add: gone_sys_def sys_init_sel)

interpretation gone: relative_invariant sys_init sys_step sys_safe gone_sys
  by unfold_locales (auto intro: gone_sys_init gone_sys_step)

text \<open>A destruction during which the thread gets ten steps returns, from every reachable state.\<close>

lemma destroy_returns:
  assumes "reachable sys_init sys_step s" "10 \<le> length is"
  shows "\<exists>lib. weba_capture_destroy sts is w (Some (s_loop s), Some (s_h s)) = Inr (Some lib)"
proof -
  let ?l = "s_loop s" and ?c = "s_h s"
  have inv: "loop_inv ?l ?c" and gone: "gone_clear ?l (stop_begin ?c)"
    using gone.both.invariant [OF assms(1)] by (simp_all add: sys_safe_def gone_sys_def gone_clear_def)
  have "exit_distance (lp_pc ?l) \<le> length is" using exit_distance_le [of "lp_pc ?l"] assms(2) by simp
  from exit_run [OF stop_begin_loop_inv [OF inv] _ gone this] obtain l' c' where
    "loop_run is (?l, stop_begin ?c) = Inr (l', c')" "\<not> h_running c'" by auto
  then have "\<exists>r. weba_capture_stop sts is w (Some ?l, Some ?c) = Inr (Some r) \<and> snd r \<noteq> None"
    by (simp add: weba_capture_stop_def thread_runs_def stop_wait_def Let_def)
  then show ?thesis by (auto simp: weba_capture_destroy_eq)
qed

text \<open>Retrying after a connection that failed or timed out with its thread running.\<close>

lemma failed_start_retry_terminates:
  assumes "startable c" and "ce_mainloop (se_connect e)" "ce_context (se_connect e)" "0 \<le> ce_connect_rc (se_connect e)"
    and "ce_spawn (se_connect e)"
    and "CtxReady \<notin> set (ce_connect_states (se_connect e) @ ce_wait_states (se_connect e))"
    and "ce_mainloop (se_connect e')" "ce_context (se_connect e')" "0 \<le> ce_connect_rc (se_connect e')"
    and "ce_spawn (se_connect e')"
  shows "\<exists>c'. weba_capture_start e (Some c) = Inr (WEBA_ERR_PULSE, Some c', None) \<and>
    weba_capture_start e' (Some c') = Inl Terminate"
proof -
  have "\<not> h_running c" "\<not> ct_thread (h_control c)" "\<not> ct_ready (h_control c)"
    using assms(1) by (simp_all add: startable_def control_new_def)
  from failed_start_thread [OF this(1,2) assms(2-6) this(3)] start_joinable_terminates [OF _ _ assms(7-10)]
  show ?thesis by blast
qed

end
