(* ===== verification/Recorder.thy ===== *)
theory Recorder
  imports Wav_File Sys_Exec Lifecycle
begin

text \<open>
  The recorder of \<open>examples/webacap-dump.c\<close>: the program \<open>main()\<close> over the model of the library. Its
  reads are calls on the running system, interleaved with the capture thread step by step. The
  comparisons of clock readings as floating-point numbers decide when the loop ends and when a
  report is printed; their outcomes are inputs, and the numbers printed from such readings are left
  out.
\<close>

subsection \<open>Names of flags\<close>

definition size_sub :: "nat \<Rightarrow> nat \<Rightarrow> nat" where
  "size_sub a b = (a + size_mod - b) mod size_mod"

definition strncat :: "string \<Rightarrow> string \<Rightarrow> nat \<Rightarrow> string" where
  "strncat buffer s n = buffer @ take n s"

definition flag_names :: "u32 \<Rightarrow> nat \<Rightarrow> string" where
  "flag_names flags size' =
     (let room = (\<lambda>b. size_sub (size_sub size' (length b)) 1);
          b = '''';
          b = (if has_flag flags WEBA_FRAME_DISCONTINUITY then strncat b ''discontinuity '' (room b) else b);
          b = (if has_flag flags WEBA_FRAME_SILENCE then strncat b ''silence '' (room b) else b);
          b = (if has_flag flags WEBA_FRAME_UNDERRUN then strncat b ''underrun '' (room b) else b)
      in if has_flag flags WEBA_FRAME_REINIT then strncat b ''reinit '' (room b) else b)"

subsection \<open>The loop's state\<close>

text \<open>The values of one line of the per-second report, and the local variables of the loop.\<close>

record report =
  rp_frames :: "64 word"
  rp_silent :: "64 word"
  rp_gaps :: "64 word"
  rp_dropped :: "64 word"
  rp_flags :: string

record dump_state =
  du_out :: wav_file
  du_buffer :: "byte list"
  du_frames :: "64 word"
  du_silent :: "64 word"
  du_gaps :: "64 word"
  du_dropped :: "64 word"
  du_reports :: "report list"
  du_errors :: "string list"

definition dump_start :: "wav_file \<Rightarrow> byte list \<Rightarrow> dump_state" where
  "dump_start out buffer = \<lparr>du_out = out, du_buffer = buffer, du_frames = 0, du_silent = 0,
     du_gaps = 0, du_dropped = 0, du_reports = [], du_errors = []\<rparr>"

text \<open>
  One turn of the loop: whether it is before the deadline; the steps of the capture thread since the
  last call; the time of the call and the steps of both threads until it returns; whether a second
  has passed since the last report.
\<close>

record turn =
  tn_before :: bool
  tn_idle :: "loop_in list"
  tn_now :: ns
  tn_steps :: "(loop_in + read_in) list"
  tn_report :: bool

subsection \<open>One turn\<close>

definition zero_frame :: weba_frame_info where
  "zero_frame = \<lparr>timestamp_ns = 0, fr_flags = 0, dropped_frames = 0\<rparr>"

text \<open>The call has returned when the machine is at its end; until then the turn is not over (\<open>None\<close>).\<close>

definition call_result :: "sys \<Rightarrow> (int \<times> byte list \<times> weba_frame_info) option" where
  "call_result s =
     (case s_read s of
        None \<Rightarrow> None
      | Some r \<Rightarrow> (case rd_pc r of
           RReturn status \<Rightarrow> Some (status, rd_dst r, case rd_info r of None \<Rightarrow> zero_frame | Some f \<Rightarrow> f)
         | _ \<Rightarrow> None))"

definition thread_act :: "loop_in + read_in \<Rightarrow> act" where
  "thread_act x = (case x of Inl i \<Rightarrow> Capture i | Inr i \<Rightarrow> Consume i)"

definition dump_read ::
  "weba_format_info \<Rightarrow> byte list \<Rightarrow> turn \<Rightarrow> sys \<Rightarrow> ((int \<times> byte list \<times> weba_frame_info) \<times> sys) option" where
  "dump_read info buffer t s =
     Option.bind (sys_next (Call buffer (fi_frame_samples info) (Some zero_frame) 1000 (tn_now t)) s) (\<lambda>s.
     Option.bind (sys_run (map thread_act (tn_steps t)) s) (\<lambda>s.
       map_option (\<lambda>res. (res, s)) (call_result s)))"

definition error_text :: "weba_capture \<Rightarrow> string" where
  "error_text c = (case weba_capture_last_error (Some c) '''' of (p, buffer) \<Rightarrow> read_ptr p buffer)"

definition dump_frame :: "nat \<Rightarrow> weba_frame_info \<Rightarrow> bool \<Rightarrow> dump_state \<Rightarrow> dump_state" where
  "dump_frame fb frame due d =
     (let d = d\<lparr>du_out := fwrite (take fb (du_buffer d)) (du_out d),
                du_frames := du_frames d + 1\<rparr>;
          d = (if has_flag (fr_flags frame) WEBA_FRAME_SILENCE then d\<lparr>du_silent := du_silent d + 1\<rparr> else d);
          d = (if has_flag (fr_flags frame) WEBA_FRAME_DISCONTINUITY then d\<lparr>du_gaps := du_gaps d + 1\<rparr> else d);
          d = d\<lparr>du_dropped := du_dropped d + ucast (dropped_frames frame)\<rparr>
      in if due
         then d\<lparr>du_reports := du_reports d @ [\<lparr>rp_frames = du_frames d, rp_silent = du_silent d,
                  rp_gaps = du_gaps d, rp_dropped = du_dropped d,
                  rp_flags = flag_names (fr_flags frame) 128\<rparr>]\<rparr>
         else d)"

text \<open>The result says whether the loop goes on.\<close>

definition dump_turn ::
  "weba_format_info \<Rightarrow> nat \<Rightarrow> turn \<Rightarrow> dump_state \<times> sys \<Rightarrow> (bool \<times> dump_state \<times> sys) option" where
  "dump_turn info fb t x =
     (let (d, s) = x in
      Option.bind (sys_run (map Capture (tn_idle t)) s) (\<lambda>s.
        if \<not> tn_before t then Some (False, d, s)
        else map_option (\<lambda>((status, buffer, frame), s).
          let d = d\<lparr>du_buffer := buffer\<rparr> in
          if status < 0
          then (False, d\<lparr>du_errors := du_errors d @
            [''weba_capture_read_frame: '' @ weba_strerror status @ '': '' @ error_text (s_h s)]\<rparr>, s)
          else if status = 0 then (True, d, s)
          else (True, dump_frame fb frame (tn_report t) d, s)) (dump_read info (du_buffer d) t s)))"

fun dump_loop :: "weba_format_info \<Rightarrow> nat \<Rightarrow> turn list \<Rightarrow> dump_state \<times> sys \<Rightarrow> (dump_state \<times> sys) option" where
  "dump_loop info fb [] x = None"
| "dump_loop info fb (t # ts) x =
     Option.bind (dump_turn info fb t x) (\<lambda>(again, x).
       if again then dump_loop info fb ts x else Some x)"

subsection \<open>The program\<close>

text \<open>
  What the surroundings answer: the uninitialised configuration; allocations; the server; the steps
  of the capture thread before the format is read; \<open>malloc\<close>, with the contents of the new block;
  \<open>fopen\<close>; the turns of the loop; and the end, as for \<open>weba_capture_stop\<close>.
\<close>

record dump_env =
  de_uninit :: weba_config
  de_handle_ok :: bool
  de_alloc_ok :: "nat \<Rightarrow> bool"
  de_start :: start_env
  de_clock :: ns
  de_idle :: "loop_in list"
  de_malloc :: "nat \<Rightarrow> byte list option"
  de_fopen :: bool
  de_turns :: "turn list"
  de_states :: "pa_context_state list"
  de_stop :: "loop_in list"
  de_waited :: int

text \<open>The exit status, the texts of the two streams, the file, the loop's variables, and the library.\<close>

record dump_end =
  dx_status :: int
  dx_out :: "string list"
  dx_err :: "string list"
  dx_file :: "byte list option"
  dx_tally :: "dump_state option"
  dx_lib :: "loop_state option \<times> weba_capture option"

definition dump_leave ::
  "dump_env \<Rightarrow> dump_end \<Rightarrow> dump_end option outcome" where
  "dump_leave e x =
     sum_bind (weba_capture_destroy (de_states e) (de_stop e) (de_waited e) (dx_lib x)) (\<lambda>r.
       Inr (map_option (\<lambda>lib. x\<lparr>dx_lib := lib\<rparr>) r))"

definition dump_intro :: "weba_format_info \<Rightarrow> string list" where
  "dump_intro info = [''sink:    '' @ fi_sink_name info, ''monitor: '' @ fi_monitor_name info,
     ''format:  '' @ nat_dec (unat (fi_sample_rate info)) @ '' Hz, '' @ nat_dec (unat (fi_channels info)) @
     '' ch, '' @ nat_dec (unat (fi_frame_samples info)) @ '' frames/frame'']"

definition dump_summary :: "dump_state \<Rightarrow> string list" where
  "dump_summary d = [''  synthesized silence: '' @ nat_dec (unat (du_silent d)) @ '' frames'',
     ''  discontinuities:     '' @ nat_dec (unat (du_gaps d)),
     ''  frames dropped:      '' @ nat_dec (unat (du_dropped d))]"

definition dump_frame_bytes :: "weba_format_info \<Rightarrow> nat" where
  "dump_frame_bytes info =
     size_mul (size_mul (unat (fi_frame_samples info)) (unat (fi_channels info))) (sample_bytes (fi_format info))"

definition dump_record ::
  "dump_env \<Rightarrow> string \<Rightarrow> string list \<Rightarrow> sys \<Rightarrow> dump_end option outcome" where
  "dump_record e path out s =
     (let x = \<lparr>dx_status = 1, dx_out = out, dx_err = [], dx_file = None, dx_tally = None,
               dx_lib = (Some (s_loop s), Some (s_h s))\<rparr> in
      case weba_capture_get_format (Some (s_h s)) True of
        (status, fo) \<Rightarrow>
          (if status \<noteq> WEBA_OK then dump_leave e (x\<lparr>dx_err := [''weba_capture_get_format failed'']\<rparr>)
           else case fo of
             None \<Rightarrow> Inr None
           | Some info \<Rightarrow>
               let x = x\<lparr>dx_out := out @ dump_intro info\<rparr> in
               case de_malloc e (dump_frame_bytes info) of
                 None \<Rightarrow> dump_leave e (x\<lparr>dx_err := [''out of memory'']\<rparr>)
               | Some buffer \<Rightarrow>
                   if \<not> de_fopen e then dump_leave e (x\<lparr>dx_err := [''cannot open '' @ path]\<rparr>)
                   else
                     let header = write_header info fopen_wb; data_offset = ftell header in
                     case dump_loop info (dump_frame_bytes info) (de_turns e) (dump_start header buffer, s) of
                       None \<Rightarrow> Inr None
                     | Some (d, s') \<Rightarrow>
                         dump_leave e (x\<lparr>dx_status := 0, dx_out := dx_out x @ dump_summary d,
                           dx_err := du_errors d, dx_tally := Some d,
                           dx_file := Some (wv_bytes (patch_sizes data_offset (du_out d))),
                           dx_lib := (Some (s_loop s'), Some (s_h s'))\<rparr>)))"

definition dump_config :: "dump_env \<Rightarrow> string option \<Rightarrow> weba_config" where
  "dump_config e sink =
     (case weba_config_defaults (Some (de_uninit e)) of
        None \<Rightarrow> de_uninit e | Some cfg \<Rightarrow> cfg)\<lparr>cfg_sink := sink\<rparr>"

text \<open>The new thread's state and the handle make the running system; \<open>None\<close>: the program has not ended.\<close>

definition dump_main :: "dump_env \<Rightarrow> string \<Rightarrow> string option \<Rightarrow> dump_end option outcome" where
  "dump_main e path sink =
     (let out = [''webacapture '' @ weba_version_string];
          x = \<lparr>dx_status = 1, dx_out = out, dx_err = [], dx_file = None, dx_tally = None, dx_lib = (None, None)\<rparr> in
      sum_bind (weba_capture_create True (de_handle_ok e) (de_alloc_ok e) (Some (dump_config e sink)))
        (\<lambda>(status, capture).
         if status \<noteq> WEBA_OK
         then Inr (Some (x\<lparr>dx_err := [''weba_capture_create: '' @ weba_strerror status], dx_lib := (None, capture)\<rparr>))
         else sum_bind (weba_capture_start (de_start e) capture) (\<lambda>(status, capture, thread).
           if status \<noteq> WEBA_OK
           then dump_leave e (x\<lparr>dx_lib := (thread, capture),
             dx_err := [''weba_capture_start: '' @ weba_strerror status @ '': '' @
               (case capture of None \<Rightarrow> '''' | Some c \<Rightarrow> error_text c)]\<rparr>)
           else case (capture, thread) of
             (Some c, Some l) \<Rightarrow>
               (case sys_run (map Capture (de_idle e))
                       \<lparr>s_h = c, s_loop = l, s_read = None, s_clock = de_clock e, s_pushed = [], s_got = [],
                        s_released = []\<rparr> of
                  None \<Rightarrow> Inr None
                | Some s \<Rightarrow> dump_record e path out s)
           | _ \<Rightarrow> Inr None)))"

end
