(* ===== verification/Typing.thy ===== *)
theory Typing
  imports Delivered
begin

text \<open>
  The values that the state of the running system takes: the pending flags are none or those of a
  reopening, a program counter carries a value in its range, a call returns a documented status, and
  a frame carries one of five combinations of flags.
\<close>

definition pending_words :: "u32 set" where
  "pending_words = {0, reinit_flags}"

definition flag_words :: "u32 set" where
  "flag_words = {0, WEBA_FRAME_DISCONTINUITY, WEBA_FRAME_SILENCE OR WEBA_FRAME_UNDERRUN, reinit_flags,
     reinit_flags OR (WEBA_FRAME_SILENCE OR WEBA_FRAME_UNDERRUN)}"

definition read_statuses :: "int set" where
  "read_statuses = {1, 0, WEBA_ERR_STATE, WEBA_ERR_INVAL}"

definition read_typed :: "read_state \<Rightarrow> bool" where
  "read_typed r \<longleftrightarrow>
     (case rd_pc r of
        RPopWait w \<Rightarrow> 0 \<le> w
      | RSleep w \<Rightarrow> 0 < w
      | RFlags res \<Rightarrow> res = 0 \<or> res = 1
      | RAfter fl \<Rightarrow> fl \<in> flag_words
      | RReturn st \<Rightarrow> st \<in> read_statuses \<and>
          (st = 1 \<longrightarrow> (\<forall>info. rd_info r = Some info \<longrightarrow> fr_flags info \<in> flag_words))
      | _ \<Rightarrow> True)"

definition sys_typed :: "sys \<Rightarrow> bool" where
  "sys_typed s \<longleftrightarrow> h_pending_flags (s_h s) \<in> pending_words \<and>
     (\<forall>r. s_read s = Some r \<longrightarrow> read_typed r)"

lemma reinit_word [simp]: "reinit_flags OR reinit_flags = reinit_flags"
  by (simp add: reinit_flags_def)

lemma reinit_gap [simp]: "reinit_flags OR WEBA_FRAME_DISCONTINUITY = reinit_flags"
  by (simp add: reinit_flags_def or.assoc)

lemma pending_typed_loop:
  "loop_step i (l, c) = Inr (l', c') \<Longrightarrow> h_pending_flags c \<in> pending_words \<Longrightarrow> h_pending_flags c' \<in> pending_words"
  using loop_step_pending [of i l c l' c'] by (auto simp: pending_words_def)

lemma pending_typed_read:
  "read_step i (r, c) = Inr (r', c') \<Longrightarrow> h_pending_flags c \<in> pending_words \<Longrightarrow> h_pending_flags c' \<in> pending_words"
  by (cases "rd_pc r")
    (auto simp: read_steps pending_words_def sum_bind_eq_Inr split: option.splits if_splits)

lemma read_typed_step:
  assumes inv: "read_inv r c" and pend: "h_pending_flags c \<in> pending_words"
    and fresh: "unpopped (rd_pc r) \<longrightarrow> rd_total r = 0" and typed: "read_typed r"
    and step: "read_step i (r, c) = Inr (r', c')"
  shows "read_typed r'"
proof (cases "popping (rd_pc r)")
  case True
  from step True show ?thesis
  proof (cases rule: read_step_pop)
    case pop
    from inv pop show ?thesis
      by (cases rule: step_pop_cases)
        (use True in \<open>auto simp: read_typed_def pop_leads_def popping_def read_statuses_def WEBA_ERR_STATE_def
           split: read_pc.splits\<close>)
  qed (use typed in simp)
next
  case False
  with step typed pend fresh show ?thesis
    by (cases "rd_pc r")
      (auto simp: read_steps read_typed_def popping_def unpopped_def pending_words_def flag_words_def
        read_statuses_def sum_bind_eq_Inr split: option.splits if_splits)
qed

lemma sys_typed_init: "sys_init s \<Longrightarrow> sys_typed s"
  using sys_init_sel [of s] by (simp add: sys_typed_def started_def pending_words_def)

lemma sys_typed_step:
  "sys_safe s \<and> accounted s \<Longrightarrow> sys_typed s \<Longrightarrow> sys_step s a t \<Longrightarrow> sys_typed t"
proof -
  assume *: "sys_safe s \<and> accounted s" and typed: "sys_typed s" and "sys_step s a t"
  from this(3) show "sys_typed t"
  proof cases
    case sys_capture
    with typed pending_typed_loop show ?thesis by (auto simp: sys_typed_def)
  next
    case (sys_consume r i r' c')
    have pend: "h_pending_flags (s_h s) \<in> pending_words" and r: "read_typed r"
      using typed sys_consume(3) by (simp_all add: sys_typed_def)
    have "read_typed r'"
    proof (cases "\<exists>st. rd_pc r = RReturn st")
      case True
      with sys_consume(5) r show ?thesis by (auto simp: read_step_def)
    next
      case False
      have "unpopped (rd_pc r) \<longrightarrow> rd_total r = 0"
        using * sys_consume(3) by (simp add: accounted_def no_loss_yet_def)
      with read_typed_step [OF _ pend _ r sys_consume(5)] sys_consume_inv [of s r] * sys_consume(3) False
      show ?thesis by blast
    qed
    with pending_typed_read [OF sys_consume(5) pend] show ?thesis
      unfolding sys_consume(2) by (simp add: sys_typed_def)
  next
    case (sys_call now d cap info timeout r)
    have wf: "handle_wf (s_h s)" using * by (simp add: sys_safe_def)
    have "read_typed r"
      using sys_call(6) unfolding read_entry_cases [OF wf]
      by (auto simp: read_typed_def read_refused_def read_statuses_def WEBA_ERR_STATE_def WEBA_ERR_INVAL_def
          split: if_splits)
    with typed show ?thesis unfolding sys_call(2) by (simp add: sys_typed_def)
  qed (use typed in \<open>simp_all add: sys_typed_def\<close>)
qed

interpretation typed: relative_invariant sys_init sys_step "\<lambda>s. sys_safe s \<and> accounted s" sys_typed
  by unfold_locales (auto intro: sys_typed_init sys_typed_step [OF conjI] acct.both.inv_init
      dest: acct.both.inv_step)

end
