(* ===== verification/Recording.thy ===== *)
theory Recording
  imports Recorder Typing
begin

text \<open>
  What the recorder's file and counters say, against the history of the running system: the invariant
  of a call, of a turn of the loop and of the whole loop, and the end of the program.
\<close>

subsection \<open>What a step keeps\<close>

lemma sys_step_keeps:
  assumes safe: "sys_safe s" and step: "sys_step s a t"
  shows "mic_format_of (s_h t) = mic_format_of (s_h s) \<and> h_fixed_rate (s_h t) = h_fixed_rate (s_h s) \<and>
    (a \<noteq> RequestStop \<longrightarrow> h_stop_requested (s_h t) = h_stop_requested (s_h s))"
  using step
proof cases
  case (sys_capture i l' c')
  have "loop_inv (s_loop s) (s_h s)" using safe by (simp add: sys_safe_def)
  from loop_step_inv [OF this, of i] sys_capture(3) show ?thesis
    unfolding sys_capture(2) by (auto simp: loop_frame_def)
next
  case (sys_consume r i r' c')
  show ?thesis
  proof (cases "\<exists>st. rd_pc r = RReturn st")
    case True
    then show ?thesis using sys_consume(5) unfolding sys_consume(2) by (auto simp: read_step_def)
  next
    case False
    with sys_consume_inv [OF safe sys_consume(3)] have "read_inv r (s_h s)" by blast
    from read_step_inv [OF this, of i] sys_consume(5) show ?thesis
      unfolding sys_consume(2) by (auto simp: read_frame_rel_def)
  qed
qed (simp_all add: mic_format_of_def)

lemmas sys_step_format = sys_step_keeps [THEN conjunct1]

text \<open>
  Where a call stands, against the history \<open>g\<close> at its start: it has taken nothing, or one frame,
  and its flags tell which; the buffer keeps its length, and only the documented statuses come back.
\<close>

definition taken_one :: "'a list \<Rightarrow> 'a list \<Rightarrow> bool" where
  "taken_one g got \<longleftrightarrow> (\<exists>x. got = g @ [x])"

definition taken_by_flags :: "u32 \<Rightarrow> 'a list \<Rightarrow> 'a list \<Rightarrow> bool" where
  "taken_by_flags fl g got \<longleftrightarrow> (if has_flag fl WEBA_FRAME_SILENCE then got = g else taken_one g got)"

definition call_note :: "nat \<Rightarrow> 'a list \<Rightarrow> 'a list \<Rightarrow> read_state \<Rightarrow> bool" where
  "call_note n g got r \<longleftrightarrow> length (rd_dst r) = n \<and> rd_info r \<noteq> None \<and>
     (case rd_pc r of
        RFlags res \<Rightarrow> if res = 0 then got = g else taken_one g got
      | RInfo \<Rightarrow> taken_one g got
      | RAfter fl \<Rightarrow> taken_by_flags fl g got
      | RReturn st \<Rightarrow> st \<in> read_statuses \<and>
          (if st = 1 then \<forall>info. rd_info r = Some info \<longrightarrow> taken_by_flags (fr_flags info) g got else got = g)
      | _ \<Rightarrow> got = g)"

lemma call_note_step:
  assumes inv: "read_inv r c" and clean: "clean_pending c" and note': "call_note n g got r"
    and step: "read_step i (r, c) = Inr (r', c')"
  shows "call_note n g (got @ newly_got r r' c) r'"
proof -
  have len: "length (rd_dst r') = n" using read_step_inv [OF inv, of i] step note' by (auto simp: call_note_def)
  show ?thesis
  proof (cases "popping (rd_pc r)")
    case True
    then have g: "got = g" "rd_info r \<noteq> None"
      using note' by (auto simp: call_note_def popping_def split: read_pc.splits)
    from step True show ?thesis
    proof (cases rule: read_step_pop)
      case blocked
      have "\<not> got_frame (rd_pc r)" using True by (auto simp: popping_def got_frame_def split: read_pc.splits)
      with blocked note' show ?thesis by (simp add: newly_got_def)
    next
      case pop
      from inv pop show ?thesis
        by (cases rule: step_pop_cases)
          (use True g len in \<open>auto simp: call_note_def newly_got_def got_frame_def pop_leads_def popping_def
             taken_one_def read_statuses_def WEBA_ERR_STATE_def split: read_pc.splits\<close>)
    qed
  next
    case False
    with read_step_quiet(2) [OF step] have "newly_got r r' c = []" .
    with step False note' clean len show ?thesis
      by (cases "rd_pc r")
        (auto simp: read_steps call_note_def popping_def clean_pending_def taken_by_flags_def
          read_statuses_def sum_bind_eq_Inr split: option.splits if_splits)
  qed
qed


subsection \<open>What a call gives the recorder\<close>

lemma served_reach:
  assumes "reachable served sys_step s"
  shows "reachable sys_init sys_step s" "sys_safe s" "accounted s" "labelled s" "published (s_h s)"
proof -
  show r: "reachable sys_init sys_step s"
    by (rule reachable_mono [OF assms]) (simp add: served_def)
  from reachable_labelled [OF r] show "sys_safe s" "accounted s" "labelled s" by simp_all
  show "published (s_h s)" using pub.both.invariant [OF assms] by (simp add: published_sys_def)
qed

text \<open>The runs between calls, and those inside one.\<close>

lemma idle_run:
  "sys_run (map Capture is) s = Some t \<Longrightarrow> reachable served sys_step s \<Longrightarrow>
     reachable served sys_step t \<and> s_read t = s_read s \<and> s_got t = s_got s \<and> s_clock t = s_clock s \<and>
     mic_format_of (s_h t) = mic_format_of (s_h s)"
proof (induction "is" arbitrary: s)
  case (Cons i "is")
  then obtain u where u: "sys_next (Capture i) s = Some u" "sys_run (map Capture is) u = Some t"
    by (auto simp: Option.bind_eq_Some_conv)
  then have step: "sys_step s (Capture i) u" by (intro sys_next_step)
  then have "s_read u = s_read s" "s_got u = s_got s" "s_clock u = s_clock s" by (auto elim: sys_captureE)
  moreover have "mic_format_of (s_h u) = mic_format_of (s_h s)"
    by (rule sys_step_format [OF served_reach(2) [OF Cons.prems(2)] step])
  ultimately show ?case using Cons.IH [OF u(2)] reach_step [OF Cons.prems(2) step] by simp
qed simp

lemma call_step:
  assumes reach: "reachable served sys_step s" and r: "s_read s = Some r" "call_note n g (s_got s) r"
    and step: "sys_step s (thread_act x) t"
  shows "\<exists>r'. s_read t = Some r' \<and> call_note n g (s_got t) r'"
proof (cases x)
  case (Inl i)
  with step have "s_read t = s_read s" "s_got t = s_got s" by (auto simp: thread_act_def elim: sys_captureE)
  with r show ?thesis by simp
next
  case (Inr i)
  with step r(1) obtain r' c' where st: "read_step i (r, s_h s) = Inr (r', c')"
    "s_read t = Some r'" "s_got t = s_got s @ newly_got r r' (s_h s)"
    by (auto simp: thread_act_def elim!: sys_consumeE)
  show ?thesis
  proof (cases "\<exists>k. rd_pc r = RReturn k")
    case True
    then have "r' = r" "newly_got r r' (s_h s) = []"
      using st(1) by (auto simp: read_step_def newly_got_def popping_def)
    with st r show ?thesis by simp
  next
    case False
    note inv = served_reach [OF reach]
    have "clean_pending (s_h s)" using inv(4) by (simp add: labelled_def)
    with call_note_step [OF sys_consume_inv [OF inv(2) r(1) False] _ r(2) st(1)] st(2,3)
    show ?thesis by simp
  qed
qed

lemma call_run:
  "sys_run (map thread_act xs) s = Some t \<Longrightarrow> reachable served sys_step s \<Longrightarrow>
     s_read s = Some r \<Longrightarrow> call_note n g (s_got s) r \<Longrightarrow>
     reachable served sys_step t \<and> mic_format_of (s_h t) = mic_format_of (s_h s) \<and>
     (\<exists>r'. s_read t = Some r' \<and> call_note n g (s_got t) r')"
proof (induction xs arbitrary: s r)
  case (Cons x xs)
  then obtain u where u: "sys_next (thread_act x) s = Some u" "sys_run (map thread_act xs) u = Some t"
    by (auto simp: Option.bind_eq_Some_conv)
  then have step: "sys_step s (thread_act x) u" by (intro sys_next_step)
  from call_step [OF Cons.prems(2-4) step] obtain r' where
    r': "s_read u = Some r'" "call_note n g (s_got u) r'" by blast
  from Cons.IH [OF u(2) reach_step [OF Cons.prems(2) step] r']
    sys_step_format [OF served_reach(2) [OF Cons.prems(2)] step]
  show ?case by simp
qed auto

text \<open>The result of one read: nothing taken, or silence, or the next captured frame.\<close>

definition read_gives ::
  "nat \<Rightarrow> (nat \<times> byte list) list \<Rightarrow> (nat \<times> byte list) list \<Rightarrow> int \<Rightarrow> byte list \<Rightarrow> weba_frame_info \<Rightarrow> bool" where
  "read_gives fb g got st buf frame \<longleftrightarrow> st \<in> read_statuses \<and>
     (if st = 1
      then \<exists>lost. dropped_frames frame = word_of_nat lost \<and>
        (silent_frame fb (fr_flags frame) lost buf \<and> got = g \<or>
         captured_frame fb got (fr_flags frame) lost buf \<and> got = g @ [(lost, take fb buf)])
      else got = g)"

lemma dump_read_gives:
  assumes reach: "reachable served sys_step s"
    and read: "dump_read info buffer t s = Some ((st, buf, frame), s')"
  shows "reachable served sys_step s'" "idle (s_read s')" "length buf = length buffer"
    "mic_format_of (s_h s') = mic_format_of (s_h s)"
    "read_gives (frame_bytes (s_h s)) (s_got s) (s_got s') st buf frame"
proof -
  from read obtain u where
    call: "sys_next (Call buffer (fi_frame_samples info) (Some zero_frame) 1000 (tn_now t)) s = Some u"
    and run: "sys_run (map thread_act (tn_steps t)) u = Some s'"
    and res: "call_result s' = Some (st, buf, frame)"
    by (auto simp: dump_read_def Option.bind_eq_Some_conv)
  note step = sys_next_step [OF call]
  have wf: "handle_wf (s_h s)" using served_reach(2) [OF reach] by (simp add: sys_safe_def)
  from step obtain r0 where
    entry: "read_frame_entry (Some (s_h s)) (Some buffer) (fi_frame_samples info) (Some zero_frame) 1000 (tn_now t) = Inr r0"
    and u: "s_read u = Some r0" "s_got u = s_got s" "s_h u = s_h s"
    by (auto elim!: sys_callE)
  have note0: "call_note (length buffer) (s_got s) (s_got u) r0"
    using entry unfolding read_entry_cases [OF wf]
    by (auto simp: call_note_def u(2) read_refused_def read_statuses_def WEBA_ERR_STATE_def WEBA_ERR_INVAL_def
        split: if_splits)
  from call_run [OF run reach_step [OF reach step] u(1) note0] obtain r where
    r: "reachable served sys_step s'" "mic_format_of (s_h s') = mic_format_of (s_h s)"
      "s_read s' = Some r" "call_note (length buffer) (s_got s) (s_got s') r" by (auto simp: u(3))
  from res r(3,4) have pc: "rd_pc r = RReturn st" "buf = rd_dst r" "rd_info r = Some frame"
    by (auto simp: call_result_def call_note_def split: read_pc.splits option.splits)
  show "reachable served sys_step s'" "mic_format_of (s_h s') = mic_format_of (s_h s)" by (fact r(1), fact r(2))
  show "idle (s_read s')" by (simp add: idle_def r(3) pc)
  show "length buf = length buffer" using r(4) by (simp add: call_note_def pc)
  have fb: "frame_bytes (s_h s') = frame_bytes (s_h s)" by (simp add: frame_bytes_mic r(2))
  have noted: "frame_note (frame_bytes (s_h s)) (s_got s') r"
    using served_reach(4) [OF r(1)] r(3) by (simp add: labelled_def fb)
  show "read_gives (frame_bytes (s_h s)) (s_got s) (s_got s') st buf frame"
    using noted r(4) pc
    by (auto simp: read_gives_def frame_note_def call_note_def handed_frame_def taken_by_flags_def
        taken_one_def silent_frame_def captured_frame_def taken_frame_def)
qed


subsection \<open>What the recording holds\<close>

text \<open>
  The frames recorded, as a list of flags, drop count and data. The log explains the file, the
  counters, and the history of what the queue handed out.
\<close>

type_synonym log_entry = "u32 \<times> nat \<times> byte list"

definition le_silent :: "log_entry \<Rightarrow> bool" where
  "le_silent e \<longleftrightarrow> has_flag (fst e) WEBA_FRAME_SILENCE"

definition le_data :: "log_entry \<Rightarrow> byte list" where
  "le_data e = snd (snd e)"

definition entry_ok :: "nat \<Rightarrow> log_entry \<Rightarrow> bool" where
  "entry_ok fb e \<longleftrightarrow> length (le_data e) = fb \<and>
     (if le_silent e then le_data e = replicate fb 0 \<and> fst (snd e) = 0
      else 0 < fst (snd e) \<longrightarrow> has_flag (fst e) WEBA_FRAME_DISCONTINUITY)"

definition log_of :: "nat \<Rightarrow> (nat \<times> byte list) list \<Rightarrow> log_entry list \<Rightarrow> bool" where
  "log_of fb got log \<longleftrightarrow> list_all (entry_ok fb) log \<and>
     map snd (filter (\<lambda>e. \<not> le_silent e) log) = got"

definition count_flag :: "u32 \<Rightarrow> log_entry list \<Rightarrow> nat" where
  "count_flag f log = length (filter (\<lambda>e. has_flag (fst e) f) log)"

text \<open>Each drop count reaches the recorder as 32 bits.\<close>

definition lost_in :: "log_entry list \<Rightarrow> nat" where
  "lost_in log = sum_list (map (\<lambda>e. fst (snd e) mod 2 ^ 32) log)"

definition tallied :: "weba_format_info \<Rightarrow> log_entry list \<Rightarrow> dump_state \<Rightarrow> bool" where
  "tallied info log d \<longleftrightarrow>
     du_out d = wav_at (wav_bytes info 0 0 (concat (map le_data log))) \<and>
     du_frames d = word_of_nat (length log) \<and>
     du_silent d = word_of_nat (count_flag WEBA_FRAME_SILENCE log) \<and>
     du_gaps d = word_of_nat (count_flag WEBA_FRAME_DISCONTINUITY log) \<and>
     du_dropped d = word_of_nat (lost_in log)"

lemma log_of_Nil [simp]: "log_of fb [] []"
  by (simp add: log_of_def)

lemma log_of_snoc:
  assumes "log_of fb got log"
    and "silent_frame fb fl lost buf \<and> got' = got \<or>
      captured_frame fb got' fl lost buf \<and> got' = got @ [(lost, take fb buf)]"
    and "fb \<le> length buf"
  shows "log_of fb got' (log @ [(fl, lost, take fb buf)])"
  using assms
  by (auto simp: log_of_def entry_ok_def le_silent_def le_data_def silent_frame_def captured_frame_def
      taken_frame_def)

lemma count_flag_snoc:
  "count_flag f (log @ [e]) = count_flag f log + (if has_flag (fst e) f then 1 else 0)"
  by (simp add: count_flag_def)

lemma ucast_lost: "(ucast (word_of_nat n :: u32) :: 64 word) = word_of_nat (n mod 2 ^ 32)"
  by (simp add: unsigned_of_nat take_bit_eq_mod)

text \<open>One frame more, in the file and in the counters.\<close>

lemma tallied_frame:
  assumes "tallied info log d" and "dropped_frames frame = word_of_nat lost"
  shows "tallied info (log @ [(fr_flags frame, lost, take fb (du_buffer d))]) (dump_frame fb frame due d)"
  using assms
  by (auto simp: tallied_def dump_frame_def count_flag_snoc lost_in_def ucast_lost le_data_def
      fwrite_wav_at wav_bytes_append Let_def ac_simps)

lemma dump_frame_sel [simp]:
  "du_buffer (dump_frame fb frame due d) = du_buffer d"
  "du_errors (dump_frame fb frame due d) = du_errors d"
  by (simp_all add: dump_frame_def Let_def)

lemma dump_start_buffer [simp]: "du_buffer (dump_start out buffer) = buffer"
  by (simp add: dump_start_def)

lemma tallied_other [simp]:
  "tallied info log (d\<lparr>du_buffer := b\<rparr>) = tallied info log d"
  "tallied info log (d\<lparr>du_errors := es\<rparr>) = tallied info log d"
  by (simp_all add: tallied_def)

subsection \<open>The invariant of the loop\<close>

text \<open>\<open>F\<close> is the format of the handle, \<open>n\<close> the size of the buffer.\<close>

definition dump_inv :: "weba_format_info \<Rightarrow> mic_format_t \<Rightarrow> nat \<Rightarrow> dump_state \<times> sys \<Rightarrow> bool" where
  "dump_inv info F n x \<longleftrightarrow>
     (let (d, s) = x in
      reachable served sys_step s \<and> idle (s_read s) \<and> mic_format_of (s_h s) = F \<and>
      length (du_buffer d) = n \<and>
      (\<exists>log. log_of (mic_frame_bytes F) (s_got s) log \<and> tallied info log d))"

text \<open>A turn that reads keeps the log: a frame is added to it and counted, anything else is not.\<close>

lemma dump_turn_log:
  assumes turn: "dump_turn info fb t (d, s) = Some (again, d', s')"
    and idle: "sys_run (map Capture (tn_idle t)) s = Some u" "tn_before t"
    and read: "dump_read info (du_buffer d) t u = Some ((st, buf, frame), s')"
    and gives: "read_gives fb (s_got s) (s_got s') st buf frame" and buf: "fb \<le> length buf"
    and log: "log_of fb (s_got s) log" "tallied info log d"
  shows "\<exists>log. log_of fb (s_got s') log \<and> tallied info log d'"
proof (cases "st = 1")
  case True
  with gives obtain lost where lost: "dropped_frames frame = word_of_nat lost"
    "silent_frame fb (fr_flags frame) lost buf \<and> s_got s' = s_got s \<or>
     captured_frame fb (s_got s') (fr_flags frame) lost buf \<and> s_got s' = s_got s @ [(lost, take fb buf)]"
    by (auto simp: read_gives_def)
  have "d' = dump_frame fb frame (tn_report t) (d\<lparr>du_buffer := buf\<rparr>)"
    using turn idle read True by (auto simp: dump_turn_def Let_def)
  with log_of_snoc [OF log(1) lost(2) buf] tallied_frame [of info log "d\<lparr>du_buffer := buf\<rparr>"] log(2) lost(1)
  show ?thesis by auto
next
  case False
  with gives have st: "s_got s' = s_got s" "st \<in> read_statuses" by (simp_all add: read_gives_def)
  have "tallied info log d'"
    using turn idle read False st(2) log(2) by (auto simp: dump_turn_def read_statuses_def status_defs Let_def)
  with st(1) log(1) show ?thesis by auto
qed

lemma dump_turn_inv:
  assumes inv: "dump_inv info F n (d, s)" and n: "mic_frame_bytes F \<le> n"
    and turn: "dump_turn info (mic_frame_bytes F) t (d, s) = Some (again, d', s')"
  shows "dump_inv info F n (d', s')"
proof -
  let ?fb = "mic_frame_bytes F"
  from inv obtain log where s: "reachable served sys_step s" "idle (s_read s)" "mic_format_of (s_h s) = F"
    "length (du_buffer d) = n" and log: "log_of ?fb (s_got s) log" "tallied info log d"
    by (auto simp: dump_inv_def)
  from turn obtain u where idle: "sys_run (map Capture (tn_idle t)) s = Some u"
    by (auto simp: dump_turn_def Option.bind_eq_Some_conv)
  from idle_run [OF idle s(1)] s have u: "reachable served sys_step u" "idle (s_read u)" "s_got u = s_got s"
    "mic_format_of (s_h u) = F" by simp_all
  show ?thesis
  proof (cases "tn_before t")
    case False
    then have "d' = d" "s' = u" using turn idle by (auto simp: dump_turn_def)
    with u s(4) log show ?thesis by (auto simp: dump_inv_def)
  next
    case True
    with turn idle obtain st buf frame where
      read: "dump_read info (du_buffer d) t u = Some ((st, buf, frame), s')"
      by (auto simp: dump_turn_def Let_def split: if_splits)
    note g = dump_read_gives [OF u(1) read]
    have "read_gives ?fb (s_got s) (s_got s') st buf frame" using g(5) by (simp add: frame_bytes_mic u(3,4))
    moreover have "?fb \<le> length buf" using n g(3) s(4) by simp
    ultimately have "\<exists>log. log_of ?fb (s_got s') log \<and> tallied info log d'"
      by (rule dump_turn_log [OF turn idle True read _ _ log])
    moreover have "length (du_buffer d') = n"
      using turn idle True read g(3) s(4) by (auto simp: dump_turn_def Let_def split: if_splits)
    ultimately show ?thesis using g(1,2,4) u(4) by (simp add: dump_inv_def)
  qed
qed

lemma dump_loop_inv:
  "dump_loop info (mic_frame_bytes F) ts x = Some y \<Longrightarrow> dump_inv info F n x \<Longrightarrow> mic_frame_bytes F \<le> n \<Longrightarrow>
     dump_inv info F n y"
proof (induction ts arbitrary: x)
  case (Cons t ts)
  obtain d s where x: "x = (d, s)" by (cases x)
  from Cons.prems(1) obtain again d' s' where turn: "dump_turn info (mic_frame_bytes F) t (d, s) = Some (again, d', s')"
    and rest: "(if again then dump_loop info (mic_frame_bytes F) ts (d', s') else Some (d', s')) = Some y"
    by (auto simp: x Option.bind_eq_Some_conv)
  have "dump_inv info F n (d', s')" by (rule dump_turn_inv [OF Cons.prems(2) [unfolded x] Cons.prems(3) turn])
  with rest Cons.IH [OF _ _ Cons.prems(3)] show ?case by (auto split: if_splits)
qed simp


subsection \<open>The whole program\<close>

definition malloc_ok :: "dump_env \<Rightarrow> bool" where
  "malloc_ok e \<longleftrightarrow> (\<forall>n b. de_malloc e n = Some b \<longrightarrow> length b = n)"

text \<open>The format that a handle publishes gives the recorder the size of the handle's frames.\<close>

definition describes :: "weba_format_info \<Rightarrow> mic_format_t \<Rightarrow> bool" where
  "describes info F \<longleftrightarrow> fi_sample_rate info = mf_sample_rate F \<and> fi_channels info = mf_channels F \<and>
     fi_frame_samples info = mf_frame_samples F \<and> fi_format info = mf_format F"

lemma published_describes: "published c \<Longrightarrow> describes (h_format_info c) (mic_format_of c)"
  by (simp add: published_def describes_def mic_format_of_def)

lemma dump_frame_bytes_eq:
  assumes "describes info F" "mic_format_valid F"
  shows "dump_frame_bytes info = mic_frame_bytes F"
  using assms
  by (auto simp: dump_frame_bytes_def describes_def mic_frame_bytes_def mic_format_valid_def sample_bytes_def
      bytes_per_sample_of_def split: weba_sample_format.splits)

lemma dump_buffer_honest:
  assumes wf: "handle_wf c" and info: "describes info (mic_format_of c)" and len: "length b = dump_frame_bytes info"
  shows "honest_buffer c b (fi_frame_samples info)"
proof -
  have valid: "mic_format_valid (mic_format_of c)" using wf by (simp add: handle_wf_def format_wf_def)
  then have "channels_supported (h_channels c)" by (simp add: mic_format_valid_def mic_format_of_def)
  from frame_bytes_eq [OF this] dump_frame_bytes_eq [OF info valid] info len show ?thesis
    by (simp add: honest_buffer_def describes_def frame_bytes_mic mic_format_of_def)
qed

lemma dump_leave_iff:
  "dump_leave e x = Inr (Some y) \<longleftrightarrow>
     (\<exists>lib. weba_capture_destroy (de_states e) (de_stop e) (de_waited e) (dx_lib x) = Inr (Some lib) \<and>
        y = x\<lparr>dx_lib := lib\<rparr>)"
  by (auto simp: dump_leave_def sum_bind_eq_Inr)

text \<open>What the recorder has done when it leaves its loop, and what it writes then.\<close>

lemma dump_record_file:
  assumes reach: "reachable served sys_step s" and idle: "s_read s = None" and got: "s_got s = []"
    and run: "dump_record e path out s = Inr (Some x)" and ok: "dx_status x = 0" and mem: "malloc_ok e"
  shows "\<exists>info d s' log. describes info (mic_format_of (s_h s)) \<and> reachable served sys_step s' \<and>
    mic_format_of (s_h s') = mic_format_of (s_h s) \<and>
    dx_tally x = Some d \<and> log_of (frame_bytes (s_h s)) (s_got s') log \<and> tallied info log d \<and>
    dx_file x = Some (wav_bytes info (36 + word_of_nat (length (concat (map le_data log))))
      (word_of_nat (length (concat (map le_data log)))) (concat (map le_data log)))"
proof -
  let ?F = "mic_format_of (s_h s)" and ?info = "h_format_info (s_h s)"
  have wf: "handle_wf (s_h s)" using served_reach(2) [OF reach] by (simp add: sys_safe_def)
  then have valid: "mic_format_valid ?F" by (simp add: handle_wf_def format_wf_def)
  have info: "describes ?info ?F" by (rule published_describes [OF served_reach(5) [OF reach]])
  have fb: "dump_frame_bytes ?info = mic_frame_bytes ?F" by (rule dump_frame_bytes_eq [OF info valid])
  let ?header = "write_header ?info fopen_wb"
  from run ok obtain buffer d s' where buf: "de_malloc e (mic_frame_bytes ?F) = Some buffer"
    and loop: "dump_loop ?info (mic_frame_bytes ?F) (de_turns e) (dump_start ?header buffer, s) = Some (d, s')"
    and x: "dx_tally x = Some d" "dx_file x = Some (wv_bytes (patch_sizes (ftell ?header) (du_out d)))"
    by (auto simp: dump_record_def weba_capture_get_format_def Let_def fb dump_leave_iff
        split: option.splits if_splits)
  have "tallied ?info [] (dump_start ?header buffer)"
    by (simp add: tallied_def dump_start_def write_header_bytes count_flag_def lost_in_def)
  then have "dump_inv ?info ?F (mic_frame_bytes ?F) (dump_start ?header buffer, s)"
    using reach idle got buf mem log_of_Nil
    by (auto simp: dump_inv_def idle_def malloc_ok_def intro: exI [of _ "[]"])
  from dump_loop_inv [OF loop this order_refl] obtain log where
    "reachable served sys_step s'" "mic_format_of (s_h s') = ?F"
    "log_of (mic_frame_bytes ?F) (s_got s') log" "tallied ?info log d"
    by (auto simp: dump_inv_def)
  moreover from this(4) have out: "du_out d = wav_at (wav_bytes ?info 0 0 (concat (map le_data log)))"
    by (simp add: tallied_def)
  have "ftell ?header = 44" by (simp add: write_header_bytes ftell_def wav_at_def)
  then have "dx_file x = Some (wav_bytes ?info (36 + word_of_nat (length (concat (map le_data log))))
      (word_of_nat (length (concat (map le_data log)))) (concat (map le_data log)))"
    by (simp add: x(2) out patch_sizes_bytes)
  ultimately show ?thesis using info x(1) by (auto simp: frame_bytes_mic)
qed

lemma dump_config_eq:
  "dump_config e sink = \<lparr>cfg_sample_rate = 48000, cfg_channels = 2, cfg_format = WEBA_SAMPLE_F32LE,
     cfg_frame_samples = 960, cfg_sink = sink, cfg_ring_frames = 100, cfg_fixed_rate = 1,
     cfg_sink_recheck_ms = 1000\<rparr>"
  by (simp add: dump_config_def weba_config_defaults_def default_defs)

lemma dump_configured:
  "mic_format_of (configured (Some (dump_config e sink))) =
     \<lparr>mf_sample_rate = 48000, mf_channels = 2, mf_format = WEBA_SAMPLE_F32LE, mf_frame_samples = 960\<rparr>"
  "frame_bytes (configured (Some (dump_config e sink))) = 7680"
  "unat (h_queue_frames (configured (Some (dump_config e sink)))) = 100"
  by (simp_all add: dump_config_eq configured_def apply_config_def or_default_def mic_format_of_def
      frame_bytes_def size_mod_def)


text \<open>The system in which the recorder runs, once its start has succeeded.\<close>

definition dump_system :: "dump_env \<Rightarrow> weba_capture \<Rightarrow> sys" where
  "dump_system e c = (sys_of c)\<lparr>s_clock := de_clock e\<rparr>"

text \<open>The handle that the recorder creates.\<close>

lemma dump_created:
  assumes "weba_capture_create True handle_ok alloc_ok (Some (dump_config e sink)) = Inr (st, co)"
  shows "st \<noteq> WEBA_OK \<Longrightarrow> co = None"
    and "st = WEBA_OK \<Longrightarrow> \<exists>c. co = Some c \<and> startable c \<and> mic_format_of c =
      \<lparr>mf_sample_rate = 48000, mf_channels = 2, mf_format = WEBA_SAMPLE_F32LE, mf_frame_samples = 960\<rparr>"
proof -
  let ?c0 = "configured (Some (dump_config e sink))"
  show "st \<noteq> WEBA_OK \<Longrightarrow> co = None" using assms
    by (auto simp: weba_capture_create_def Let_def sum_bind_eq_Inr split: if_splits)
  assume "st = WEBA_OK"
  then obtain c where c: "co = Some c" using assms
    by (auto simp: weba_capture_create_def Let_def sum_bind_eq_Inr status_defs split: if_splits)
  note create = assms [unfolded c]
  have size: "unat (h_queue_frames ?c0) * frame_bytes ?c0 < 2 ^ 64" by (simp add: dump_configured)
  have "c = ?c0\<lparr>h_queue := h_queue c\<rparr>" by (rule create_wf(5) [OF create size])
  from arg_cong [where f = mic_format_of, OF this]
  have "mic_format_of c = mic_format_of ?c0" by (simp add: mic_format_of_def)
  with c create_startable [OF create size] show "\<exists>c. co = Some c \<and> startable c \<and> mic_format_of c =
      \<lparr>mf_sample_rate = 48000, mf_channels = 2, mf_format = WEBA_SAMPLE_F32LE, mf_frame_samples = 960\<rparr>"
    by (simp add: dump_configured)
qed

lemma dump_main_cases:
  assumes run: "dump_main e path sink = Inr (Some x)"
  obtains (no_handle) st where "st \<noteq> WEBA_OK" "dx_status x = 1" "dx_file x = None" "dx_lib x = (None, None)"
      "dx_err x = [''weba_capture_create: '' @ weba_strerror st]"
    | (no_start) st c c' where "st \<noteq> WEBA_OK" "startable c"
      "weba_capture_start (de_start e) (Some c) = Inr (st, Some c', None)"
      "dx_status x = 1" "dx_file x = None"
      "dx_err x = [''weba_capture_start: '' @ weba_strerror st @ '': '' @ error_text c']"
      "weba_capture_destroy (de_states e) (de_stop e) (de_waited e) (None, Some c') = Inr (Some (dx_lib x))"
    | (recorded) c c' s where "startable c" "mic_format_of c =
        \<lparr>mf_sample_rate = 48000, mf_channels = 2, mf_format = WEBA_SAMPLE_F32LE, mf_frame_samples = 960\<rparr>"
      "weba_capture_start (de_start e) (Some c) = Inr (WEBA_OK, Some c', Some (loop_start c'))"
      "sys_run (map Capture (de_idle e)) (dump_system e c') = Some s"
      "dump_record e path [''webacapture '' @ weba_version_string] s = Inr (Some x)"
proof -
  obtain st co where create: "weba_capture_create True (de_handle_ok e) (de_alloc_ok e) (Some (dump_config e sink)) = Inr (st, co)"
    using run by (auto simp: dump_main_def sum_bind_eq_Inr Let_def)
  show ?thesis
  proof (cases "st = WEBA_OK")
    case False
    with dump_created(1) [OF create] run create show ?thesis by (intro that(1)) (auto simp: dump_main_def Let_def)
  next
    case True
    from dump_created(2) [OF create True] obtain c where c: "co = Some c" "startable c" and F: "mic_format_of c =
        \<lparr>mf_sample_rate = 48000, mf_channels = 2, mf_format = WEBA_SAMPLE_F32LE, mf_frame_samples = 960\<rparr>" by blast
    from run create c(1) True obtain st' co' lo where
      "weba_capture_start (de_start e) (Some c) = Inr (st', co', lo)"
      by (auto simp: dump_main_def sum_bind_eq_Inr Let_def)
    moreover from this obtain c' where "co' = Some c'" by (cases rule: start_branches) auto
    ultimately have start: "weba_capture_start (de_start e) (Some c) = Inr (st', Some c', lo)" by simp
    have nr: "\<not> h_running c" by (rule startable_new [OF c(2)])
    show ?thesis
    proof (cases "st' = WEBA_OK")
      case False
      with start_fails [OF start nr False] run create c(1) True start show ?thesis
        by (intro that(2) [OF False c(2)])
          (auto simp: dump_main_def Let_def dump_leave_iff weba_capture_destroy_eq sum_bind_eq_Inr)
    next
      case ok: True
      have start': "weba_capture_start (de_start e) (Some c) = Inr (WEBA_OK, Some c', Some (loop_start c'))"
        using start start_started(3) [OF c(2) start [unfolded ok]] ok by simp
      from run create c(1) True start' obtain s where
        "sys_run (map Capture (de_idle e)) (dump_system e c') = Some s"
        "dump_record e path [''webacapture '' @ weba_version_string] s = Inr (Some x)"
        by (auto simp: dump_main_def Let_def dump_system_def sys_of_def split: option.splits)
      with c(2) F start' show ?thesis by (rule that(3))
    qed
  qed
qed

lemma dump_system_served:
  assumes "startable c" "weba_capture_start e' (Some c) = Inr (WEBA_OK, Some c', Some l)"
  shows "served (dump_system e c')"
  using start_started [OF assms] by (simp add: served_def sys_init_def dump_system_def sys_of_def)

lemma recorded_capture:
  assumes run: "dump_main e path sink = Inr (Some x)" and ok: "dx_status x = 0" and mem: "malloc_ok e"
  obtains info s d log where "reachable served sys_step s" "dx_tally x = Some d"
    "describes info \<lparr>mf_sample_rate = 48000, mf_channels = 2, mf_format = WEBA_SAMPLE_F32LE, mf_frame_samples = 960\<rparr>"
    "log_of 7680 (s_got s) log" "tallied info log d"
    "dx_file x = Some (wav_bytes info (36 + word_of_nat (length (concat (map le_data log))))
       (word_of_nat (length (concat (map le_data log)))) (concat (map le_data log)))"
  using run
proof (cases rule: dump_main_cases)
  case (recorded c c' s)
  let ?F = "\<lparr>mf_sample_rate = 48000, mf_channels = 2, mf_format = WEBA_SAMPLE_F32LE, mf_frame_samples = 960\<rparr>"
  have served: "served (dump_system e c')" by (rule dump_system_served [OF recorded(1,3)])
  from idle_run [OF recorded(4) reach_init [of served, OF served]]
  have s: "reachable served sys_step s" "s_read s = None" "s_got s = []"
    "mic_format_of (s_h s) = mic_format_of c'" by (simp_all add: dump_system_def sys_of_def)
  have F: "mic_format_of (s_h s) = ?F" using start_config(1) [OF recorded(3)] recorded(2) s(4) by simp
  have fb: "frame_bytes (s_h s) = 7680"
    by (simp add: frame_bytes_mic F mic_frame_bytes_def bytes_per_sample_of_def size_mod_def)
  from dump_record_file [OF s(1-3) recorded(5) ok mem] obtain info d s' log where
    "describes info ?F" "reachable served sys_step s'" "dx_tally x = Some d" "log_of 7680 (s_got s') log"
    "tallied info log d" "dx_file x = Some (wav_bytes info (36 + word_of_nat (length (concat (map le_data log))))
       (word_of_nat (length (concat (map le_data log)))) (concat (map le_data log)))"
    unfolding F fb by blast
  from this(2,3,1,4-) show ?thesis by (rule that)
qed (use ok in simp_all)

lemma lost_in_got:
  assumes "log_of fb got log" and "\<forall>(n, f)\<in>set got. n < 2 ^ 32"
  shows "lost_in log = sum_list (map fst got)"
proof -
  have "list_all (entry_ok fb) log \<Longrightarrow> \<forall>(n, f)\<in>set (map snd (filter (\<lambda>e. \<not> le_silent e) log)). n < 2 ^ 32 \<Longrightarrow>
      lost_in log = sum_list (map fst (map snd (filter (\<lambda>e. \<not> le_silent e) log)))"
    by (induction log) (auto simp: lost_in_def entry_ok_def)
  with assms show ?thesis by (auto simp: log_of_def)
qed

lemma count_flag_silent:
  "log_of fb got log \<Longrightarrow> length log = count_flag WEBA_FRAME_SILENCE log + length got"
  using sum_length_filter_compl [of "\<lambda>e. has_flag (fst e) WEBA_FRAME_SILENCE" log]
  by (auto simp: log_of_def count_flag_def le_silent_def)

lemma log_length: "log_of fb got log \<Longrightarrow> length (concat (map le_data log)) = length log * fb"
proof -
  have "list_all (entry_ok fb) log \<Longrightarrow> length (concat (map le_data log)) = length log * fb"
    by (induction log) (simp_all add: entry_ok_def)
  then show "log_of fb got log \<Longrightarrow> length (concat (map le_data log)) = length log * fb" by (simp add: log_of_def)
qed

lemma unat_word64: "n < 2 ^ 64 \<Longrightarrow> unat (word_of_nat n :: 64 word) = n"
  by (simp add: unsigned_of_nat take_bit_nat_eq_self)

lemma destroyed_lib:
  assumes "weba_capture_destroy sts is w lib = Inr (Some (lo, Some c))"
  shows "h_thread_abandoned c"
proof -
  from assms obtain r where "(case r of None \<Rightarrow> None | Some (lo, None) \<Rightarrow> Some (lo, None)
      | Some (lo, Some c) \<Rightarrow> Some (if h_thread_abandoned c then (lo, Some c) else (lo, None))) = Some (lo, Some c)"
    by (auto simp: weba_capture_destroy_eq sum_bind_eq_Inr)
  then show ?thesis by (auto split: option.splits if_splits)
qed

lemma dump_record_ends:
  assumes "dump_record e path out s = Inr (Some x)"
  shows "(dx_status x = 0 \<and> dx_file x \<noteq> None \<or> dx_status x = 1 \<and> dx_file x = None \<and> length (dx_err x) = 1) \<and>
    (\<exists>lib. weba_capture_destroy (de_states e) (de_stop e) (de_waited e) lib = Inr (Some (dx_lib x)))"
proof -
  from assms obtain y where "dump_leave e y = Inr (Some x)"
    "dx_status y = 0 \<and> dx_file y \<noteq> None \<or> dx_status y = 1 \<and> dx_file y = None \<and> length (dx_err y) = 1"
    by (simp add: dump_record_def weba_capture_get_format_def Let_def split: option.splits if_splits prod.splits)
  moreover from this(1) obtain lib where
    "weba_capture_destroy (de_states e) (de_stop e) (de_waited e) (dx_lib y) = Inr (Some lib)"
    "x = y\<lparr>dx_lib := lib\<rparr>" unfolding dump_leave_iff by blast
  ultimately show ?thesis by (intro conjI exI [of _ "dx_lib y"]) simp_all
qed

end
