(* ===== verification/System_Call.thy ===== *)
theory System_Call
  imports Sys_Exec Cadence
begin

text \<open>
  Calls of the running system. Until a stop is requested the capture runs and the queue is open; the
  next frame is never due later than one period from now; and a call, with the capture thread's
  steps between its own, is an execution of the consumer alone whose surroundings keep the thread's
  guarantee.
\<close>

subsection \<open>Running until a stop is requested\<close>

definition awake :: "sys \<Rightarrow> bool" where
  "awake s \<longleftrightarrow> (\<not> h_stop_requested (s_h s) \<longrightarrow>
     h_running (s_h s) \<and> \<not> closed (h_queue (s_h s)) \<and> \<not> exiting (lp_pc (s_loop s)))"

lemma awake_init: "sys_init s \<Longrightarrow> awake s"
  using sys_init_sel [of s] by (simp add: awake_def started_def loop_start_def exiting_def)

lemma awake_step: "sys_safe s \<Longrightarrow> awake s \<Longrightarrow> sys_step s a t \<Longrightarrow> awake t"
proof -
  assume safe: "sys_safe s" and aw: "awake s" and "sys_step s a t"
  from this(3) show "awake t"
  proof cases
    case (sys_capture i l' c')
    have "loop_inv (s_loop s) (s_h s)" using safe by (simp add: sys_safe_def)
    from loop_step_inv [OF this, of i] sys_capture(3) have "loop_frame (s_h s) c'" by auto
    with loop_step_exit [OF sys_capture(3)] aw show ?thesis
      unfolding sys_capture(2) by (auto simp: awake_def loop_frame_def exiting_def)
  next
    case (sys_consume r i r' c')
    have "read_frame_rel (s_h s) c'"
    proof (cases "\<exists>st. rd_pc r = RReturn st")
      case True
      with sys_consume(5) show ?thesis by (auto simp: read_step_def)
    next
      case False
      with sys_consume_inv [OF safe sys_consume(3)] have inv: "read_inv r (s_h s)" by blast
      from read_step_inv [OF inv, of i] sys_consume(5) show ?thesis by auto
    qed
    with aw show ?thesis unfolding sys_consume(2) by (simp add: awake_def read_frame_rel_def)
  qed (use aw in \<open>simp_all add: awake_def\<close>)
qed

interpretation aw: relative_invariant sys_init sys_step sys_safe awake
  by unfold_locales (auto intro: awake_init awake_step)

subsection \<open>The next frame is due within a period\<close>

definition due_soon :: "sys \<Rightarrow> bool" where
  "due_soon s \<longleftrightarrow> (h_deadline_valid (s_h s) \<longrightarrow> h_next_deadline (s_h s) \<le> s_clock s + period_ns (s_h s))"

lemma due_soon_init: "sys_init s \<Longrightarrow> due_soon s"
  using sys_init_sel [of s] by (simp add: due_soon_def started_def)

lemma due_soon_read:
  assumes inv: "read_inv r c" and step: "read_step i (r, c) = Inr (r', c')" and now: "clk \<le> ri_now i"
    and soon: "h_deadline_valid c \<longrightarrow> h_next_deadline c \<le> clk + period_ns c"
    and due: "awaited r c clk"
  shows "h_deadline_valid c' \<longrightarrow> h_next_deadline c' \<le> ri_now i + period_ns c'"
proof -
  from read_step_inv [OF inv, of i] step have "mic_format_of c' = mic_format_of c"
    by (auto simp: read_frame_rel_def)
  then have p: "period_ns c' = period_ns c" by (simp add: period_ns_def mic_format_of_def)
  have per: "us_to_ns (rd_period r) = period_ns c" using inv by (simp add: read_inv_def period_ns_def)
  show ?thesis unfolding p
    using step now soon due per period_ns_nonneg [of c]
    by (cases "rd_pc r")
      (auto simp: read_step_def step_top_def step_after_def step_info_def awaited_def past_due_def Let_def
        dest!: step_pop_deadline step_flags_deadline split: if_splits option.splits)
qed

lemma due_soon_step: "sys_safe s \<and> cadenced s \<Longrightarrow> due_soon s \<Longrightarrow> sys_step s a t \<Longrightarrow> due_soon t"
proof -
  assume *: "sys_safe s \<and> cadenced s" and soon: "due_soon s" and "sys_step s a t"
  from this(3) show "due_soon t"
  proof cases
    case (sys_capture i l' c')
    have "loop_inv (s_loop s) (s_h s)" using * by (simp add: sys_safe_def)
    from loop_step_inv [OF this, of i] sys_capture(3) have "loop_frame (s_h s) c'" by auto
    with soon show ?thesis
      unfolding sys_capture(2) by (simp add: due_soon_def loop_frame_def period_ns_def mic_format_of_def)
  next
    case (sys_consume r i r' c')
    show ?thesis
    proof (cases "\<exists>st. rd_pc r = RReturn st")
      case True
      with sys_consume(4,5) soon show ?thesis
        unfolding sys_consume(2) by (auto simp: read_step_def due_soon_def)
    next
      case False
      with sys_consume_inv [of s r] * sys_consume(3) have inv: "read_inv r (s_h s)" by blast
      have "awaited r (s_h s) (s_clock s)" using * sys_consume(3) by (simp add: cadenced_def)
      with due_soon_read [OF inv sys_consume(5,4)] soon show ?thesis
        unfolding sys_consume(2) by (simp add: due_soon_def)
    qed
  qed (use soon in \<open>auto simp: due_soon_def period_ns_def\<close>)
qed

interpretation soon: relative_invariant sys_init sys_step "\<lambda>s. sys_safe s \<and> cadenced s" due_soon
  by unfold_locales (auto intro: due_soon_init due_soon_step [OF conjI] cad.both.inv_init
      dest: cad.both.inv_step)

subsection \<open>A call and its surroundings\<close>

text \<open>A round is any number of steps of the capture thread and then one of the consumer.\<close>

definition round_acts :: "loop_in list \<times> read_in \<Rightarrow> act list" where
  "round_acts x = map Capture (fst x) @ [Consume (snd x)]"

definition rounds :: "(loop_in list \<times> read_in) list \<Rightarrow> act list" where
  "rounds rs = concat (map round_acts rs)"

fun clock_runs :: "ns \<Rightarrow> (loop_in list \<times> read_in) list \<Rightarrow> bool" where
  "clock_runs now [] = True"
| "clock_runs now (x # rs) \<longleftrightarrow> now \<le> ri_now (snd x) \<and> clock_runs (ri_now (snd x)) rs"

lemma sys_run_append: "sys_run (xs @ ys) s = Option.bind (sys_run xs s) (sys_run ys)"
  by (induction xs arbitrary: s) (simp_all split: Option.bind_split)

text \<open>No step of the system joins the capture thread, or abandons it.\<close>

lemma sys_step_thread:
  assumes safe: "sys_safe s" and step: "sys_step s a t"
  shows "h_thread (s_h t) = h_thread (s_h s) \<and> h_thread_abandoned (s_h t) = h_thread_abandoned (s_h s)"
  using step
proof cases
  case (sys_capture i l' c')
  have "loop_inv (s_loop s) (s_h s)" using safe by (simp add: sys_safe_def)
  from loop_step_inv [OF this, of i] sys_capture(3) show ?thesis
    unfolding sys_capture(2) by (auto simp: loop_frame_def)
next
  case (sys_consume r i r' c')
  from sys_consume(5) show ?thesis unfolding sys_consume(2)
    by (cases "rd_pc r") (auto simp: read_steps sum_bind_eq_Inr split: option.splits if_splits)
qed simp_all

lemma sys_run_thread:
  "sys_run as s = Some t \<Longrightarrow> sys_safe s \<Longrightarrow>
     h_thread (s_h t) = h_thread (s_h s) \<and> h_thread_abandoned (s_h t) = h_thread_abandoned (s_h s)"
proof (induction as arbitrary: s)
  case (Cons a as)
  then obtain u where u: "sys_next a s = Some u" "sys_run as u = Some t"
    by (auto simp: Option.bind_eq_Some_conv)
  note step = sys_next_step [OF u(1)]
  from Cons.IH [OF u(2) sys_safe_step [OF Cons.prems(2) step]] sys_step_thread [OF Cons.prems(2) step]
  show ?case by simp
qed simp

lemma captures_run:
  assumes "sys_safe s"
  obtains t where "sys_run (map Capture is) s = Some t" "sys_safe t" "s_read t = s_read s"
    "s_clock t = s_clock s" "loop_frame (s_h s) (s_h t)" "s_got t = s_got s"
proof -
  have "\<exists>t. sys_run (map Capture is) s = Some t \<and> sys_safe t \<and> s_read t = s_read s \<and>
      s_clock t = s_clock s \<and> loop_frame (s_h s) (s_h t) \<and> s_got t = s_got s"
    using assms
  proof (induction "is" arbitrary: s)
    case (Cons i "is")
    from sys_next_capture [OF Cons.prems, of i] obtain u where u: "sys_next (Capture i) s = Some u" by blast
    note step = sys_next_step [OF u]
    have "loop_inv (s_loop s) (s_h s)" using Cons.prems by (simp add: sys_safe_def)
    from loop_step_inv [OF this, of i] step have "loop_frame (s_h s) (s_h u)" by (auto elim!: sys_captureE)
    moreover have "s_read u = s_read s" "s_clock u = s_clock s" "s_got u = s_got s"
      using step by (auto elim!: sys_captureE)
    moreover from Cons.IH [OF sys_safe_step [OF Cons.prems step]] obtain t where
      "sys_run (map Capture is) u = Some t" "sys_safe t" "s_read t = s_read u" "s_clock t = s_clock u"
      "loop_frame (s_h u) (s_h t)" "s_got t = s_got u" by blast
    ultimately show ?case using u loop_frame_trans by auto
  qed simp
  with that show ?thesis by blast
qed

text \<open>What the thread did, as a guarantee: one handle is replaced, and every other left alone.\<close>

lemma override_guarantee:
  "handle_wf d \<Longrightarrow> loop_frame c d \<Longrightarrow> capture_guarantee (\<lambda>x. if x = c then d else x)"
  by (auto simp: capture_guarantee_def)

lemma rounds_exec:
  "sys_safe s \<Longrightarrow> s_read s = Some r \<Longrightarrow> clock_runs (s_clock s) rs \<Longrightarrow>
     \<exists>t r' gs. sys_run (rounds rs) s = Some t \<and> sys_safe t \<and> s_read t = Some r' \<and> length gs = length rs \<and>
       (\<forall>g\<in>set gs. capture_guarantee g) \<and>
       read_exec (zip (map snd rs) gs) (r, s_h s) = Inr (r', s_h t)"
proof (induction rs arbitrary: s r)
  case Nil
  then show ?case by (auto simp: rounds_def)
next
  case (Cons x rs)
  obtain "is" i where x: "x = (is, i)" by (cases x)
  obtain u where u: "sys_run (map Capture is) s = Some u" "sys_safe u" "s_read u = Some r"
    "s_clock u = s_clock s" "loop_frame (s_h s) (s_h u)"
    by (rule captures_run [OF Cons.prems(1), of "is"]) (simp add: Cons.prems(2))
  have clk: "s_clock u \<le> ri_now i" "clock_runs (ri_now i) rs" using Cons.prems(3) u(4) by (simp_all add: x)
  from sys_next_consume [OF u(2,3) clk(1)] obtain v where v: "sys_next (Consume i) u = Some v" by blast
  note step = sys_next_step [OF v]
  from step u(3) obtain r1 where r1: "read_step i (r, s_h u) = Inr (r1, s_h v)" "s_read v = Some r1"
    "s_clock v = ri_now i" by (auto elim!: sys_consumeE)
  from Cons.IH [OF sys_safe_step [OF u(2) step] r1(2)] clk(2) r1(3) obtain t r' gs where
    t: "sys_run (rounds rs) v = Some t" "sys_safe t" "s_read t = Some r'" "length gs = length rs"
      "\<forall>g\<in>set gs. capture_guarantee g" "read_exec (zip (map snd rs) gs) (r1, s_h v) = Inr (r', s_h t)"
    by auto
  let ?g = "\<lambda>y. if y = s_h s then s_h u else y"
  have "handle_wf (s_h u)" using u(2) by (simp add: sys_safe_def)
  from override_guarantee [OF this u(5)] have "\<forall>g\<in>set (?g # gs). capture_guarantee g" using t(5) by simp
  moreover have "read_exec (zip (map snd (x # rs)) (?g # gs)) (r, s_h s) = Inr (r', s_h t)"
    using r1(1) t(6) by (simp add: x)
  moreover have "sys_run (rounds (x # rs)) s = Some t"
    using u(1) v t(1) by (simp add: rounds_def round_acts_def x sys_run_append)
  moreover have "length (?g # gs) = length (x # rs)" using t(4) by simp
  ultimately show ?case using t(2,3) by blast
qed


subsection \<open>Every call delivers until a stop is requested\<close>

lemma six_steps_zip:
  assumes "length is = 6" "length gs = 6"
  shows "zip is gs = six_steps (\<lambda>k. is ! k) (\<lambda>k. gs ! k)"
proof -
  have "six_steps (\<lambda>k. is ! k) (\<lambda>k. gs ! k) = map (\<lambda>k. (is ! k, gs ! k)) [0..<6]"
    by (simp add: six_steps_def upt_rec numeral_eq_Suc)
  also have "\<dots> = zip is gs" using assms by (intro nth_equalityI) simp_all
  finally show ?thesis by simp
qed

lemma due_at_soon:
  assumes "due_soon s" "s_clock s \<le> t"
  shows "due_at (s_h s) t (period_us (h_frame_samples (s_h s)) (h_sample_rate (s_h s))) \<le> t + period_ns (s_h s)"
  using assms by (auto simp: due_at_def due_soon_def period_ns_def)

lemma system_call_delivers:
  assumes reach: "reachable sys_init sys_step s" and idle: "idle (s_read s)" and clock: "s_clock s \<le> now"
    and go: "\<not> h_stop_requested (s_h s)" "h_fixed_rate (s_h s)"
    and buffer: "honest_buffer (s_h s) d cap" "h_frame_samples (s_h s) \<le> cap"
    and entry: "read_frame_entry (Some (s_h s)) (Some d) cap info timeout now = Inr r"
    and six: "length rs = 6" "clock_runs now rs"
    and sleep: "sleep_honoured (s_h s) r (snd (rs ! 0)) (snd (rs ! 1)) (snd (rs ! 2))"
    and time: "ri_now (snd (rs ! 0)) + period_ns (s_h s) + 1001000 \<le> now + ms_to_ns timeout"
  shows "\<exists>t r'. sys_run (Call d cap info timeout now # rounds rs) s = Some t \<and> s_read t = Some r' \<and>
    rd_pc r' = RReturn 1 \<and> reachable sys_init sys_step t"
proof -
  let ?c = "s_h s"
  have safe: "sys_safe s" and awake: "awake s" using aw.both.invariant [OF reach] by simp_all
  have soon: "due_soon s" using soon.both.invariant [OF reach] by simp
  have wf: "handle_wf ?c" using safe by (simp add: sys_safe_def)
  have up: "h_running ?c" "\<not> closed (h_queue ?c)" using awake go(1) by (simp_all add: awake_def)
  from entry up(1) buffer(2) have r: "rd_pc r = RTop" "rd_dst r = d"
    "rd_period r = period_us (h_frame_samples ?c) (h_sample_rate ?c)"
    "rd_call_deadline r = now + ms_to_ns (max timeout 0)"
    by (auto simp: read_entry_cases [OF wf])
  have inv: "read_inv r ?c"
    using honest_buffer_size [OF wf buffer(1)] buffer(2) wf r by (simp add: read_inv_def)
  let ?u = "s\<lparr>s_read := Some r, s_clock := now\<rparr>"
  have call: "sys_next (Call d cap info timeout now) s = Some ?u"
    using idle clock buffer(1) entry by (simp add: sys_next_def)
  note step = sys_next_step [OF call]
  from rounds_exec [OF sys_safe_step [OF safe step], of r rs] six obtain t r' gs where
    t: "sys_run (rounds rs) ?u = Some t" "s_read t = Some r'" "length gs = 6"
      "\<forall>g\<in>set gs. capture_guarantee g" "read_exec (zip (map snd rs) gs) (r, ?c) = Inr (r', s_h t)"
    by auto
  define g where "g k = (if k < 6 then gs ! k else id)" for k
  have g: "capture_guarantee (g k)" for k
    using t(3,4) by (auto simp: g_def capture_guarantee_def)
  have zip: "zip (map snd rs) gs = six_steps (\<lambda>k. map snd rs ! k) g"
    using six_steps_zip [of "map snd rs" gs] six(1) t(3) by (simp add: six_steps_def g_def)
  have sleep': "sleep_honoured ?c r (map snd rs ! 0) (map snd rs ! 1) (map snd rs ! 2)"
    using sleep six(1) by simp
  have "now \<le> ri_now (snd (rs ! 0))" using six by (cases rs) auto
  with due_at_soon [OF soon, of "ri_now (snd (rs ! 0))"] clock time six(1)
  have "due_at ?c (ri_now (map snd rs ! 0)) (rd_period r) + 1001000 \<le> rd_call_deadline r"
    by (simp add: r(3,4) ms_to_ns_def max_def)
  from exec_delivers [where g = g, OF inv r(1) go(2,1) up(2) g sleep' this] t(5)
  have "rd_pc r' = RReturn 1" by (auto simp: zip returned_def)
  moreover have run: "sys_run (Call d cap info timeout now # rounds rs) s = Some t" using call t(1) by simp
  moreover have "reachable sys_init sys_step t"
    by (rule execution_reachable [OF sys_run_execution [OF run] reach])
  ultimately show ?thesis using t(2) by blast
qed

text \<open>A call returns: at fixed rate after six steps, without it once the caller's deadline has passed.\<close>

lemma read_frame_returns:
  assumes "handle_wf c" "h_fixed_rate c" "\<not> h_stop_requested c" "h_running c"
    and buffer: "honest_buffer c d cap" "h_frame_samples c \<le> cap"
    and entry: "read_frame_entry (Some c) (Some d) cap info timeout now = Inr r"
    and others: "\<And>k. capture_guarantee (g k)"
    and sleep: "sleep_honoured c r (i 0) (i 1) (i 2)"
  shows "\<exists>r' c' st. read_exec (six_steps i g) (r, c) = Inr (r', c') \<and> rd_pc r' = RReturn st \<and>
    (st = 0 \<or> st = 1 \<or> st = WEBA_ERR_STATE \<and> closed (h_queue c))"
proof -
  have "frame_bytes c \<le> length d" using honest_buffer_size [OF assms(1) buffer(1)] buffer(2) by simp
  with entry assms(1,4) buffer(2) have "read_inv r c" "rd_pc r = RTop"
    by (auto simp: read_entry_cases read_inv_def)
  from exec_returns [where g = g, OF this assms(2,3) others sleep] show ?thesis
    by (auto simp: returned_def split: if_splits)
qed

lemma unpaced_call_returns:
  assumes "handle_wf c" "\<not> h_fixed_rate c" "h_running c"
    and buffer: "honest_buffer c d cap" "h_frame_samples c \<le> cap"
    and entry: "read_frame_entry (Some c) (Some d) cap info timeout now = Inr r"
    and others: "\<And>k. capture_guarantee (g k)"
    and late: "now + ms_to_ns (max timeout 0) \<le> ri_now (i 0)" "ri_now (i 0) \<le> ri_now (i 2)" "0 \<le> ri_waited (i 1)"
  shows "\<exists>r' c' st. read_exec [(i 0, g 0), (i 1, g 1), (i 2, g 2)] (r, c) = Inr (r', c') \<and>
    rd_pc r' = RReturn st \<and> (st = 0 \<or> st = 1 \<or> st = WEBA_ERR_STATE \<and> closed (h_queue c))"
proof -
  have "frame_bytes c \<le> length d" using honest_buffer_size [OF assms(1) buffer(1)] buffer(2) by simp
  with entry assms(1,3) buffer(2) have r: "read_inv r c" "rd_pc r = RTop"
    "rd_call_deadline r = now + ms_to_ns (max timeout 0)"
    by (auto simp: read_entry_cases read_inv_def)
  have "rd_call_deadline r \<le> ri_now (i 0)" "rd_call_deadline r \<le> ri_now (i 2)"
    using late(1,2) by (simp_all add: r(3))
  from nonfixed_exec_returns [where g = g, OF r(1,2) assms(2) others this late(3)] show ?thesis
    by (auto simp: returned_def split: if_splits)
qed

end
