(* ===== verification/Recorder_Progress.thy ===== *)
theory Recorder_Progress
  imports Recording System_Call
begin

text \<open>
  The progress of the recorder: a turn of its loop in which both threads run and the one sleep is
  honoured writes exactly one frame, hence a recording of \<open>n\<close> such turns has \<open>n\<close> frames.
\<close>

subsection \<open>The steps of a turn as rounds\<close>

text \<open>Each step of the consumer closes a round, after the steps of the capture thread before it.\<close>

fun rounds_of :: "loop_in list \<Rightarrow> (loop_in + read_in) list \<Rightarrow> (loop_in list \<times> read_in) list" where
  "rounds_of is [] = []"
| "rounds_of is (Inl i # xs) = rounds_of (is @ [i]) xs"
| "rounds_of is (Inr i # xs) = (is, i) # rounds_of [] xs"

fun ends_reading :: "(loop_in + read_in) list \<Rightarrow> bool" where
  "ends_reading [] = False"
| "ends_reading (x # xs) = (if xs = [] then \<not> isl x else ends_reading xs)"

lemma rounds_of_acts:
  "ends_reading xs \<Longrightarrow> rounds (rounds_of is xs) = map Capture is @ map thread_act xs"
proof (induction "is" xs rule: rounds_of.induct)
  case (3 "is" i xs)
  then show ?case
    by (cases "xs = []") (simp_all add: rounds_def round_acts_def thread_act_def)
qed (auto simp: thread_act_def split: if_splits)

text \<open>
  A turn is served if it is before the deadline, its call returns within six steps of the consumer,
  however many of the capture thread lie between, its one sleep lasts as long as asked, and the
  timeout of a second leaves a period and 1.001 ms from the first look at the clock.
\<close>

definition turn_served :: "turn \<Rightarrow> sys \<Rightarrow> bool" where
  "turn_served t s \<longleftrightarrow>
     (let rs = rounds_of [] (tn_steps t); i = (\<lambda>k. snd (rs ! k)); limit = tn_now t + ms_to_ns 1000;
          w = sleep_wait (due_at (s_h s) (ri_now (i 0))
                (period_us (h_frame_samples (s_h s)) (h_sample_rate (s_h s)))) limit (ri_now (i 0))
      in tn_before t \<and> s_clock s \<le> tn_now t \<and> ends_reading (tn_steps t) \<and> length rs = 6 \<and>
         clock_runs (tn_now t) rs \<and> w \<le> ri_waited (i 1) \<and> ri_now (i 0) + us_to_ns w \<le> ri_now (i 2) \<and>
         ri_now (i 0) + period_ns (s_h s) + 1001000 \<le> limit)"

fun turns_served :: "weba_format_info \<Rightarrow> nat \<Rightarrow> turn list \<Rightarrow> dump_state \<times> sys \<Rightarrow> bool" where
  "turns_served info fb [] x = True"
| "turns_served info fb (t # ts) x =
     (turn_served t (snd x) \<and>
      (case dump_turn info fb t x of None \<Rightarrow> True | Some (again, y) \<Rightarrow> turns_served info fb ts y))"

subsection \<open>What a turn keeps\<close>

lemma sys_run_keeps:
  "sys_run as s = Some t \<Longrightarrow> sys_safe s \<Longrightarrow> RequestStop \<notin> set as \<Longrightarrow>
     h_stop_requested (s_h t) = h_stop_requested (s_h s) \<and> h_fixed_rate (s_h t) = h_fixed_rate (s_h s)"
proof (induction as arbitrary: s)
  case (Cons a as)
  then obtain u where u: "sys_next a s = Some u" "sys_run as u = Some t"
    by (auto simp: Option.bind_eq_Some_conv)
  note step = sys_next_step [OF u(1)]
  from Cons.IH [OF u(2) sys_safe_step [OF Cons.prems(2) step]] sys_step_keeps [OF Cons.prems(2) step] Cons.prems(3)
  show ?case by auto
qed simp

text \<open>The recorder between two turns, with the capture unstopped and paced.\<close>

definition recording :: "weba_format_info \<Rightarrow> dump_state \<times> sys \<Rightarrow> bool" where
  "recording info x \<longleftrightarrow>
     (let (d, s) = x in
      reachable served sys_step s \<and> idle (s_read s) \<and> \<not> h_stop_requested (s_h s) \<and> h_fixed_rate (s_h s) \<and>
      describes info (mic_format_of (s_h s)) \<and> length (du_buffer d) = dump_frame_bytes info)"

lemma served_read:
  assumes rec: "recording info (d, s)" and "turn_served t s"
  obtains buf frame s' where "dump_read info (du_buffer d) t s = Some ((1, buf, frame), s')"
    "h_stop_requested (s_h s') = h_stop_requested (s_h s)" "h_fixed_rate (s_h s') = h_fixed_rate (s_h s)"
proof -
  let ?c = "s_h s" and ?rs = "rounds_of [] (tn_steps t)"
  have reach: "reachable served sys_step s" and idle: "idle (s_read s)" and go: "\<not> h_stop_requested ?c" "h_fixed_rate ?c"
    and info: "describes info (mic_format_of ?c)" and len: "length (du_buffer d) = dump_frame_bytes info"
    using rec by (simp_all add: recording_def)
  note r = served_reach(1,2) [OF reach]
  have wf: "handle_wf ?c" using r(2) by (simp add: sys_safe_def)
  have run: "h_running ?c" using aw.both.invariant [OF r(1)] go(1) by (simp add: awake_def)
  have cap: "h_frame_samples ?c = fi_frame_samples info" using info by (simp add: describes_def mic_format_of_def)
  have honest: "honest_buffer ?c (du_buffer d) (fi_frame_samples info)" by (rule dump_buffer_honest [OF wf info len])
  let ?r = "\<lparr>rd_pc = RTop, rd_dst = du_buffer d, rd_info = Some zero_frame,
    rd_period = period_us (h_frame_samples ?c) (h_sample_rate ?c),
    rd_call_deadline = tn_now t + ms_to_ns 1000, rd_total = 0\<rparr>"
  have entry: "read_frame_entry (Some ?c) (Some (du_buffer d)) (fi_frame_samples info) (Some zero_frame) 1000 (tn_now t) = Inr ?r"
    using run by (simp add: read_entry_cases [OF wf] cap)
  have six: "length ?rs = 6" and t: "s_clock s \<le> tn_now t" "clock_runs (tn_now t) ?rs" "ends_reading (tn_steps t)"
    and time: "ri_now (snd (?rs ! 0)) + period_ns ?c + 1001000 \<le> tn_now t + ms_to_ns 1000"
    and sleep: "sleep_honoured ?c ?r (snd (?rs ! 0)) (snd (?rs ! 1)) (snd (?rs ! 2))"
    using assms(2) by (simp_all add: turn_served_def sleep_honoured_def Let_def)
  have le: "h_frame_samples ?c \<le> fi_frame_samples info" by (simp add: cap)
  from system_call_delivers [OF r(1) idle t(1) go honest le entry six t(2) sleep time] obtain s' r' where
    s': "sys_run (Call (du_buffer d) (fi_frame_samples info) (Some zero_frame) 1000 (tn_now t) # rounds ?rs) s = Some s'"
      "s_read s' = Some r'" "rd_pc r' = RReturn 1" by blast
  have acts: "rounds ?rs = map thread_act (tn_steps t)" using rounds_of_acts [OF t(3), of "[]"] by simp
  have "RequestStop \<notin> set (Call (du_buffer d) (fi_frame_samples info) (Some zero_frame) 1000 (tn_now t) # map thread_act (tn_steps t))"
    by (auto simp: thread_act_def split: sum.splits)
  note keep = sys_run_keeps [OF s'(1) [unfolded acts] r(2) this]
  have "call_result s' = Some (1, rd_dst r', case rd_info r' of None \<Rightarrow> zero_frame | Some f \<Rightarrow> f)"
    using s'(2,3) by (simp add: call_result_def)
  with s'(1) show ?thesis
    by (intro that [of "rd_dst r'" "case rd_info r' of None \<Rightarrow> zero_frame | Some f \<Rightarrow> f" s'])
      (auto simp: dump_read_def acts keep split: Option.bind_splits)
qed

text \<open>A turn as a whole: the steps of the thread before the call leave what the turn depends on.\<close>

lemma turn_served_idle:
  assumes "turn_served t s" and frame: "loop_frame (s_h s) (s_h u)" and clock: "s_clock u = s_clock s"
  shows "turn_served t u"
proof -
  have "h_frame_samples (s_h u) = h_frame_samples (s_h s)" "h_sample_rate (s_h u) = h_sample_rate (s_h s)"
    "h_deadline_valid (s_h u) = h_deadline_valid (s_h s)" "h_next_deadline (s_h u) = h_next_deadline (s_h s)"
    using frame by (simp_all add: loop_frame_def mic_format_of_def)
  then have "due_at (s_h u) = due_at (s_h s)" "period_ns (s_h u) = period_ns (s_h s)"
    "period_us (h_frame_samples (s_h u)) (h_sample_rate (s_h u)) = period_us (h_frame_samples (s_h s)) (h_sample_rate (s_h s))"
    by (simp_all add: due_at_def period_ns_def fun_eq_iff)
  with assms(1) show ?thesis unfolding turn_served_def clock by simp
qed

lemma served_turn_records:
  assumes rec: "recording info (d, s)" and served: "turn_served t s"
  obtains d' s' f where "dump_turn info (dump_frame_bytes info) t (d, s) = Some (True, d', s')"
    "recording info (d', s')" "length f = dump_frame_bytes info" "du_out d' = fwrite f (du_out d)"
    "du_frames d' = du_frames d + 1" "du_errors d' = du_errors d"
proof -
  let ?fb = "dump_frame_bytes info"
  have reach: "reachable served sys_step s" and go: "\<not> h_stop_requested (s_h s)" "h_fixed_rate (s_h s)"
    and info: "describes info (mic_format_of (s_h s))" and len: "length (du_buffer d) = ?fb"
    using rec by (simp_all add: recording_def)
  obtain u where u: "sys_run (map Capture (tn_idle t)) s = Some u" "s_clock u = s_clock s"
    "loop_frame (s_h s) (s_h u)" by (rule captures_run [OF served_reach(2) [OF reach]])
  from idle_run [OF u(1) reach] rec u(3) have rec': "recording info (d, u)"
    by (simp add: recording_def loop_frame_def)
  obtain buf frame s' where read: "dump_read info (du_buffer d) t u = Some ((1, buf, frame), s')"
    and keep: "h_stop_requested (s_h s') = h_stop_requested (s_h u)" "h_fixed_rate (s_h s') = h_fixed_rate (s_h u)"
    by (rule served_read [OF rec' turn_served_idle [OF served u(3,2)]])
  have "reachable served sys_step u" using rec' by (simp add: recording_def)
  note g = dump_read_gives [OF this read]
  let ?d = "dump_frame ?fb frame (tn_report t) (d\<lparr>du_buffer := buf\<rparr>)"
  have turn: "dump_turn info ?fb t (d, s) = Some (True, ?d, s')"
    using served u(1) read by (simp add: dump_turn_def turn_served_def Let_def)
  have d: "du_out ?d = fwrite (take ?fb buf) (du_out d)" "du_frames ?d = du_frames d + 1"
    "du_errors ?d = du_errors d" "du_buffer ?d = buf"
    by (simp_all add: dump_frame_def Let_def)
  have "recording info (?d, s')"
    using rec' g(1-4) keep by (simp add: recording_def d)
  moreover have "length (take ?fb buf) = ?fb" using g(3) len by simp
  ultimately show ?thesis using turn d by (intro that)
qed

lemma served_turns_record:
  assumes "recording info (d, s)" "turns_served info (dump_frame_bytes info) ts (d, s)" "\<not> tn_before t"
  shows "\<exists>(d' :: dump_state) s' fs. dump_loop info (dump_frame_bytes info) (ts @ [t]) (d, s) = Some (d', s') \<and>
    recording info (d', s') \<and> length fs = length ts \<and> (\<forall>f\<in>set fs. length f = dump_frame_bytes info) \<and>
    du_out d' = fold fwrite fs (du_out d) \<and> du_frames d' = du_frames d + word_of_nat (length ts) \<and>
    du_errors d' = du_errors d"
  using assms(1,2)
proof (induction ts arbitrary: d s)
  case Nil
  then have reach: "reachable served sys_step s" by (simp add: recording_def)
  obtain u where u: "sys_run (map Capture (tn_idle t)) s = Some u" "loop_frame (s_h s) (s_h u)"
    by (rule captures_run [OF served_reach(2) [OF reach]])
  from idle_run [OF u(1) reach] Nil.prems(1) u(2) have "recording info (d, u)"
    by (simp add: recording_def loop_frame_def)
  with u(1) assms(3) show ?case by (simp add: dump_turn_def)
next
  case (Cons x ts)
  then have "turn_served x s" by simp
  from served_turn_records [OF Cons.prems(1) this] obtain d1 s1 f where
    one: "dump_turn info (dump_frame_bytes info) x (d, s) = Some (True, d1, s1)" "recording info (d1, s1)"
      "length f = dump_frame_bytes info" "du_out d1 = fwrite f (du_out d)" "du_frames d1 = du_frames d + 1"
      "du_errors d1 = du_errors d" .
  with Cons.prems(2) have "turns_served info (dump_frame_bytes info) ts (d1, s1)" by simp
  from Cons.IH [OF one(2) this] obtain d' s' fs where
    "dump_loop info (dump_frame_bytes info) (ts @ [t]) (d1, s1) = Some (d', s')"
      "recording info (d', s')" "length fs = length ts" "\<forall>f\<in>set fs. length f = dump_frame_bytes info"
      "du_out d' = fold fwrite fs (du_out d1)" "du_frames d' = du_frames d1 + word_of_nat (length ts)"
      "du_errors d' = du_errors d1" by blast
  with one show ?case
    by (intro exI [of _ d'] exI [of _ s'] exI [of _ "f # fs"]) simp
qed

end
