(* ===== verification/Handle_Life.thy ===== *)
theory Handle_Life
  imports Lifecycle
begin

text \<open>
  The whole life of a handle, from its creation until it is freed: any sequence of
  \<open>weba_capture_start()\<close>, \<open>weba_capture_stop()\<close> and \<open>weba_capture_destroy()\<close> (\<open>src/capture.cpp\<close>),
  made by one client thread, with the steps of the capture thread, of a consumer and of the state
  callback of the connection between those of a stop in every order. A stop is taken apart into its accesses to the shared handle; the last
  section shows that \<open>weba_capture_stop\<close> of \<open>Lifecycle\<close> is a run of them.
\<close>

subsection \<open>State and steps\<close>

text \<open>
  Where the client is: outside a call, or in a stop that has requested the stop, closed the queue and
  found a thread to wait for, or is past it. The argument says whether the stop is the one in
  \<open>weba_capture_destroy()\<close>, which goes on to \<open>ClientDelete\<close>.
\<close>

datatype client_pc =
    ClientIdle
  | ClientClose bool
  | ClientJoin bool
  | ClientFinish bool
  | ClientDelete

text \<open>\<open>lf_h\<close> is \<open>None\<close> once the handle is freed; \<open>lf_thread\<close> is \<open>None\<close> before a start and after a join.\<close>

record life =
  lf_h :: "weba_capture option"
  lf_thread :: "loop_state option"
  lf_read :: "read_state option"
  lf_client :: client_pc

datatype life_act =
    ThreadStep loop_in
  | ReadStep read_in
  | ReadCall "byte list" u32 "weba_frame_info option" int ns
  | ServerEvent pa_context_state
  | StartCall start_env
  | StopCall bool
  | StopClose
  | StopJoin int
  | StopFinish "pa_context_state list"
  | DeleteCall "pa_context_state list"

definition destroying :: "client_pc \<Rightarrow> bool" where
  "destroying pc \<longleftrightarrow> pc \<in> {ClientClose True, ClientJoin True, ClientFinish True, ClientDelete}"

text \<open>
  The client keeps the contract of the header: it makes one call at a time, destroys a handle when no
  read is in progress, and reads from none that is being destroyed. What is not a call of this client
  is unconstrained.
\<close>

definition request_stop :: "weba_capture \<Rightarrow> weba_capture" where
  "request_stop c = c\<lparr>h_stop_requested := True\<rparr>"

definition close_queue :: "weba_capture \<Rightarrow> weba_capture" where
  "close_queue c = c\<lparr>h_queue := queue_close (h_queue c)\<rparr>"

definition detach_thread :: "weba_capture \<Rightarrow> weba_capture" where
  "detach_thread c = c\<lparr>h_thread := False, h_thread_abandoned := True\<rparr>"

inductive life_step :: "life \<Rightarrow> life_act \<Rightarrow> life \<Rightarrow> bool" where
  life_thread: "lf_h s = Some c \<Longrightarrow> lf_thread s = Some l \<Longrightarrow> loop_step i (l, c) = Inr (l', c') \<Longrightarrow>
     life_step s (ThreadStep i) (s\<lparr>lf_h := Some c', lf_thread := Some l'\<rparr>)"
| life_read: "lf_h s = Some c \<Longrightarrow> lf_read s = Some r \<Longrightarrow> read_step i (r, c) = Inr (r', c') \<Longrightarrow>
     life_step s (ReadStep i) (s\<lparr>lf_h := Some c', lf_read := Some r'\<rparr>)"
| life_call: "lf_h s = Some c \<Longrightarrow> idle (lf_read s) \<Longrightarrow> \<not> destroying (lf_client s) \<Longrightarrow> honest_buffer c d cap \<Longrightarrow>
     read_frame_entry (Some c) (Some d) cap info timeout now = Inr r \<Longrightarrow>
     life_step s (ReadCall d cap info timeout now) (s\<lparr>lf_read := Some r\<rparr>)"
| life_event: "lf_h s = Some c \<Longrightarrow> ct_thread (h_control c) \<Longrightarrow>
     life_step s (ServerEvent st) (s\<lparr>lf_h := Some (server_event st c)\<rparr>)"
| life_start: "lf_h s = Some c \<Longrightarrow> lf_client s = ClientIdle \<Longrightarrow> weba_capture_start e (Some c) = Inr (st, Some c', lo) \<Longrightarrow>
     life_step s (StartCall e)
       (s\<lparr>lf_h := Some c', lf_thread := (case lo of None \<Rightarrow> lf_thread s | Some l \<Rightarrow> Some l)\<rparr>)"
| life_stop: "lf_h s = Some c \<Longrightarrow> lf_client s = ClientIdle \<Longrightarrow> (d \<longrightarrow> idle (lf_read s)) \<Longrightarrow>
     life_step s (StopCall d) (s\<lparr>lf_h := Some (request_stop c), lf_client := ClientClose d\<rparr>)"
| life_close: "lf_h s = Some c \<Longrightarrow> lf_client s = ClientClose d \<Longrightarrow>
     life_step s StopClose (s\<lparr>lf_h := Some (close_queue c),
       lf_client := if h_thread c then ClientJoin d else ClientFinish d\<rparr>)"
| life_join: "lf_h s = Some c \<Longrightarrow> lf_client s = ClientJoin d \<Longrightarrow> stop_wait waited c = Some joined \<Longrightarrow>
     life_step s (StopJoin waited)
       (s\<lparr>lf_h := Some (if joined then c\<lparr>h_thread := False\<rparr> else detach_thread c),
          lf_thread := if joined then None else lf_thread s, lf_client := ClientFinish d\<rparr>)"
| life_finish: "lf_h s = Some c \<Longrightarrow> lf_client s = ClientFinish d \<Longrightarrow>
     life_step s (StopFinish sts) (s\<lparr>lf_h := Some (stop_finish sts c),
       lf_client := if d then ClientDelete else ClientIdle\<rparr>)"
| life_keep: "lf_h s = Some c \<Longrightarrow> lf_client s = ClientDelete \<Longrightarrow> h_thread_abandoned c \<Longrightarrow>
     life_step s (DeleteCall sts) (s\<lparr>lf_client := ClientIdle\<rparr>)"
| life_delete: "lf_h s = Some c \<Longrightarrow> lf_client s = ClientDelete \<Longrightarrow> \<not> h_thread_abandoned c \<Longrightarrow>
     weba_capture_delete sts c = Inr () \<Longrightarrow>
     life_step s (DeleteCall sts) (s\<lparr>lf_h := None, lf_client := ClientIdle\<rparr>)"

text \<open>The life begins with a handle as \<open>weba_capture_create()\<close> returns it.\<close>

definition life_of :: "weba_capture \<Rightarrow> life" where
  "life_of c = \<lparr>lf_h = Some c, lf_thread = None, lf_read = None, lf_client = ClientIdle\<rparr>"

definition life_init :: "life \<Rightarrow> bool" where
  "life_init s \<longleftrightarrow> (\<exists>c. startable c \<and> s = life_of c)"

subsection \<open>The invariant\<close>

text \<open>
  A handle is running exactly while its capture thread is in its loop; a thread that lives has its
  invariant and is joinable or abandoned; each of these keeps the connection's own thread, so that no
  start can make a second one; and past the wait of a stop that has not abandoned the thread there is
  none.
\<close>

definition thread_inv :: "loop_state option \<Rightarrow> weba_capture \<Rightarrow> bool" where
  "thread_inv lo c \<longleftrightarrow>
     (case lo of
        None \<Rightarrow> \<not> h_running c \<and> \<not> h_thread c \<and> \<not> h_thread_abandoned c
      | Some l \<Rightarrow> loop_inv l c \<and> (h_running c \<longleftrightarrow> lp_pc l \<noteq> LDone) \<and> h_thread_abandoned c = (\<not> h_thread c) \<and>
          ct_thread (h_control c) \<and> (h_stop_requested c \<or> \<not> exiting (lp_pc l)))"

definition client_inv :: "client_pc \<Rightarrow> read_state option \<Rightarrow> weba_capture \<Rightarrow> bool" where
  "client_inv pc ro c \<longleftrightarrow> (destroying pc \<longrightarrow> idle ro) \<and>
     (case pc of
        ClientIdle \<Rightarrow> h_thread c \<longrightarrow> \<not> h_stop_requested c
      | ClientClose _ \<Rightarrow> h_stop_requested c
      | ClientJoin _ \<Rightarrow> h_thread c \<and> h_stop_requested c
      | _ \<Rightarrow> \<not> h_thread c)"

definition life_inv :: "life \<Rightarrow> bool" where
  "life_inv s \<longleftrightarrow>
     (case lf_h s of
        None \<Rightarrow> lf_thread s = None \<and> lf_client s = ClientIdle
      | Some c \<Rightarrow> handle_wf c \<and> active_inv (lf_read s) c \<and> thread_inv (lf_thread s) c \<and>
          client_inv (lf_client s) (lf_read s) c)"

subsection \<open>Every step keeps it\<close>

lemma idle_read: "idle (Some r) \<Longrightarrow> read_step i (r, c) = Inr (r', c') \<Longrightarrow> r' = r \<and> c' = c"
  by (auto simp: idle_def read_step_def split: read_pc.splits)

lemma thread_inv_read:
  assumes "read_frame_rel c c'" "handle_wf c'" "thread_inv lo c"
  shows "thread_inv lo c'"
  using assms loop_inv_frame [of _ c c'] by (auto simp: thread_inv_def read_frame_rel_def split: option.splits)

lemma client_inv_read: "read_frame_rel c c' \<Longrightarrow> client_inv pc ro c \<Longrightarrow> (destroying pc \<longrightarrow> idle ro') \<Longrightarrow> client_inv pc ro' c'"
  by (simp add: client_inv_def read_frame_rel_def split: client_pc.splits)

lemma client_inv_loop: "loop_frame c c' \<Longrightarrow> client_inv pc ro c \<Longrightarrow> client_inv pc ro c'"
  by (simp add: client_inv_def loop_frame_def split: client_pc.splits)

text \<open>\<open>running\<close> is cleared by the thread's last step and by no other.\<close>

lemma loop_step_running:
  assumes "loop_step i (l, c) = Inr (l', c')" "h_running c \<longleftrightarrow> lp_pc l \<noteq> LDone"
  shows "h_running c' \<longleftrightarrow> lp_pc l' \<noteq> LDone"
  using assms
  by (auto simp: loop_steps sum_bind_eq_Inr split: loop_pc.splits prod.splits option.splits sum.splits if_splits)

lemma thread_inv_loop:
  assumes "thread_inv (Some l) c" "loop_step i (l, c) = Inr (l', c')"
  shows "thread_inv (Some l') c'" "loop_frame c c'"
proof -
  have inv: "loop_inv l c" and run: "h_running c \<longleftrightarrow> lp_pc l \<noteq> LDone" using assms(1) by (simp_all add: thread_inv_def)
  from loop_step_inv [OF inv, of i] assms(2) have next_inv: "loop_inv l' c'" "loop_frame c c'" by auto
  have "ct_thread (h_control c') = ct_thread (h_control c)"
    by (rule same_but_errorD(5) [OF loop_step_control [OF assms(2)]])
  with next_inv loop_step_running [OF assms(2) run] loop_step_exit(1) [OF assms(2)] assms(1)
  show "thread_inv (Some l') c'" "loop_frame c c'" by (auto simp: thread_inv_def loop_frame_def)
qed

text \<open>A start, for the thread: either it makes the only one, or it leaves what there was.\<close>

definition makes_thread :: "weba_capture \<Rightarrow> weba_capture \<Rightarrow> bool" where
  "makes_thread c c' \<longleftrightarrow> \<not> h_running c \<and> \<not> h_thread c \<and> \<not> ct_thread (h_control c) \<and>
     h_running c' \<and> h_thread c' \<and> ct_thread (h_control c') \<and> \<not> h_stop_requested c' \<and>
     h_thread_abandoned c' = h_thread_abandoned c"

definition keeps_thread :: "weba_capture \<Rightarrow> weba_capture \<Rightarrow> bool" where
  "keeps_thread c c' \<longleftrightarrow> h_running c' = h_running c \<and> h_thread c' = h_thread c \<and>
     h_thread_abandoned c' = h_thread_abandoned c \<and> h_stop_requested c' = h_stop_requested c \<and>
     (ct_thread (h_control c) \<longrightarrow> ct_thread (h_control c'))"

lemma start_thread:
  assumes "weba_capture_start e (Some c) = Inr (st, Some c', lo)"
  shows "st = WEBA_OK \<and> lo = Some (loop_start c') \<and> makes_thread c c' \<or> st \<noteq> WEBA_OK \<and> lo = None \<and> keeps_thread c c'"
  using assms
proof (cases rule: start_branches)
  case running
  then show ?thesis by (simp add: keeps_thread_def status_defs)
next
  case (connect ct)
  with control_init_thread(2) [OF connect(2)] show ?thesis by (simp add: keeps_thread_def set_error_def)
next
  case (resolve ct ct')
  with control_init_thread(1) [OF resolve(2)] show ?thesis by (simp add: keeps_thread_def set_error_def status_defs)
next
  case (started ct ct' t)
  have "\<not> h_running c" "weba_capture_start e (Some c) = Inr (WEBA_OK, Some c', lo)"
    using started(1,5) assms by simp_all
  from start_control [OF this(2,1)] control_init_thread(1) [OF started(3)] started show ?thesis
    by (simp add: makes_thread_def) (simp add: loop_start_def publish_format_def)
qed

lemma start_handle:
  assumes "weba_capture_start e (Some c) = Inr (st, Some c', lo)"
  shows "handle_wf c' = handle_wf c" "h_requested_sink c' = h_requested_sink c"
proof -
  have "handle_wf c' = handle_wf c \<and> h_requested_sink c' = h_requested_sink c"
    using assms by (cases rule: start_branches) (simp_all add: publish_format_def set_error_def)
  then show "handle_wf c' = handle_wf c" "h_requested_sink c' = h_requested_sink c" by simp_all
qed

lemma life_start_inv:
  assumes start: "weba_capture_start e (Some c) = Inr (st, Some c', lo)"
    and inv: "handle_wf c" "active_inv ro c" "thread_inv lt c" "client_inv ClientIdle ro c"
  shows "handle_wf c' \<and> active_inv ro c' \<and> thread_inv (case lo of None \<Rightarrow> lt | Some l \<Rightarrow> Some l) c' \<and>
    client_inv ClientIdle ro c'"
proof -
  have wf: "handle_wf c'" using start_handle(1) [OF start] inv(1) by simp
  note fmt = start_config(1) [OF start]
  have act: "active_inv ro c'" by (rule active_inv_frame [OF inv(2) wf fmt])
  from start_thread [OF start] show ?thesis
  proof
    assume new: "st = WEBA_OK \<and> lo = Some (loop_start c') \<and> makes_thread c c'"
    then have "lt = None" using inv(3) by (auto simp: thread_inv_def makes_thread_def split: option.splits)
    with new inv(3) have "\<not> h_thread_abandoned c'" by (simp add: thread_inv_def makes_thread_def)
    with new loop_inv_start [OF wf] act wf show ?thesis
      by (simp add: thread_inv_def client_inv_def makes_thread_def destroying_def loop_start_def exiting_def)
  next
    assume old: "st \<noteq> WEBA_OK \<and> lo = None \<and> keeps_thread c c'"
    have "loop_inv l c \<Longrightarrow> loop_inv l c'" for l by (rule loop_inv_frame [OF _ wf fmt start_handle(2) [OF start]])
    with old inv(3,4) act wf show ?thesis
      by (auto simp: thread_inv_def client_inv_def keeps_thread_def split: option.splits)
  qed
qed

text \<open>An event of the connection touches its flags only.\<close>

lemma event_inv:
  assumes "handle_wf c" "active_inv ro c" "thread_inv lo c" "client_inv pc ro c"
  shows "handle_wf (server_event st c)" "active_inv ro (server_event st c)" "thread_inv lo (server_event st c)"
    "client_inv pc ro (server_event st c)"
proof -
  let ?c = "server_event st c"
  show wf: "handle_wf ?c" using assms(1) by simp
  have same: "mic_format_of ?c = mic_format_of c" "h_requested_sink ?c = h_requested_sink c"
    by (simp_all add: mic_format_of_def)
  show "active_inv ro ?c" by (rule active_inv_frame [OF assms(2) wf same(1)])
  have "loop_inv l ?c" if "loop_inv l c" for l by (rule loop_inv_frame [OF that wf same])
  with assms(3) show "thread_inv lo ?c"
    by (auto simp: thread_inv_def state_callback_mono(5) split: option.splits)
  show "client_inv pc ro ?c" using assms(4) by (simp add: client_inv_def split: client_pc.splits)
qed

text \<open>The accesses of a stop.\<close>

lemma stop_frame:
  assumes "handle_wf c" "active_inv ro c"
  shows "handle_wf (request_stop c)" "active_inv ro (request_stop c)"
    "handle_wf (close_queue c)" "active_inv ro (close_queue c)"
proof -
  show r: "handle_wf (request_stop c)" using assms(1) by (simp add: request_stop_def)
  show q: "handle_wf (close_queue c)" unfolding close_queue_def
    using assms(1) by (intro handle_wf_queue queue_close_refines) (auto simp: handle_wf_def queue_close_def)
  have "mic_format_of (request_stop c) = mic_format_of c" "mic_format_of (close_queue c) = mic_format_of c"
    by (simp_all add: request_stop_def close_queue_def mic_format_of_def)
  with active_inv_frame [OF assms(2) r] active_inv_frame [OF assms(2) q]
  show "active_inv ro (request_stop c)" "active_inv ro (close_queue c)" by simp_all
qed

lemma loop_inv_stop:
  assumes "loop_inv l c"
  shows "loop_inv l (request_stop c)" "loop_inv l (close_queue c)"
proof -
  have wf: "handle_wf c" using assms by (simp add: loop_inv_def)
  then have "active_inv None c" by (simp add: active_inv_def)
  note wf' = stop_frame [OF wf this]
  have "mic_format_of (request_stop c) = mic_format_of c" "h_requested_sink (request_stop c) = h_requested_sink c"
    "mic_format_of (close_queue c) = mic_format_of c" "h_requested_sink (close_queue c) = h_requested_sink c"
    by (simp_all add: request_stop_def close_queue_def mic_format_of_def)
  with loop_inv_frame [OF assms wf'(1)] loop_inv_frame [OF assms wf'(3)]
  show "loop_inv l (request_stop c)" "loop_inv l (close_queue c)" by simp_all
qed

lemma thread_inv_stop:
  assumes "thread_inv lo c"
  shows "thread_inv lo (request_stop c)" "h_stop_requested c \<Longrightarrow> thread_inv lo (close_queue c)"
  using assms loop_inv_stop
  by (auto simp: thread_inv_def split: option.splits) (simp_all add: request_stop_def close_queue_def)

text \<open>A thread that is joined has returned; one that has not is abandoned, and lives on.\<close>

lemma joined_done:
  assumes "thread_inv lo c" "h_thread c" "stop_wait waited c = Some True"
  shows "\<exists>l. lo = Some l \<and> lp_pc l = LDone" "thread_inv None (c\<lparr>h_thread := False\<rparr>)"
  using assms by (auto simp: thread_inv_def stop_wait_def split: option.splits if_splits)

lemma detach_inv: "thread_inv lo c \<Longrightarrow> h_thread c \<Longrightarrow> thread_inv lo (detach_thread c)"
  by (auto simp: thread_inv_def detach_thread_def loop_inv_def split: option.splits)

lemma finish_inv:
  assumes "thread_inv lo c" "\<not> h_thread c"
  shows "thread_inv lo (stop_finish sts c)"
proof (cases lo)
  case None
  with assms show ?thesis by (simp add: thread_inv_def stop_finish_def)
next
  case (Some l)
  with assms have "h_thread_abandoned c" by (simp add: thread_inv_def)
  with assms(1) show ?thesis by (simp add: stop_finish_def)
qed

lemma active_inv_same [simp]:
  "active_inv ro (c\<lparr>h_thread := b\<rparr>) = active_inv ro c" "active_inv ro (detach_thread c) = active_inv ro c"
  "active_inv ro (stop_finish sts c) = active_inv ro c"
  by (simp_all add: active_inv_def read_inv_def detach_thread_def stop_finish_def split: option.splits)

lemma handle_wf_same [simp]:
  "handle_wf (detach_thread c) = handle_wf c" "handle_wf (stop_finish sts c) = handle_wf c"
  by (simp_all add: detach_thread_def stop_finish_def)

text \<open>The steps of the two threads.\<close>

lemma life_inv_thread:
  assumes inv: "life_inv s" and s: "lf_h s = Some c" "lf_thread s = Some l"
    and step: "loop_step i (l, c) = Inr (l', c')"
  shows "life_inv (s\<lparr>lf_h := Some c', lf_thread := Some l'\<rparr>)"
proof -
  have th: "thread_inv (Some l) c" using inv s by (simp add: life_inv_def)
  note th' = thread_inv_loop [OF th step]
  have wf: "handle_wf c'" using th'(1) by (simp add: thread_inv_def loop_inv_def)
  have "mic_format_of c' = mic_format_of c" using th'(2) by (simp add: loop_frame_def)
  with inv s th' wf active_inv_frame [of "lf_read s" c c'] client_inv_loop [OF th'(2)]
  show ?thesis by (simp add: life_inv_def)
qed

lemma life_inv_read:
  assumes inv: "life_inv s" and s: "lf_h s = Some c" "lf_read s = Some r"
    and step: "read_step i (r, c) = Inr (r', c')"
  shows "life_inv (s\<lparr>lf_h := Some c', lf_read := Some r'\<rparr>)"
proof -
  have "handle_wf c" "active_inv (Some r) c" using inv s by (simp_all add: life_inv_def)
  note read = active_read [OF this step]
  have "destroying (lf_client s) \<longrightarrow> idle (Some r')"
    using inv s idle_read [OF _ step] by (auto simp: life_inv_def client_inv_def)
  with inv s read thread_inv_read [OF read(3,2)] client_inv_read [OF read(3)]
  show ?thesis by (auto simp: life_inv_def)
qed

lemma life_inv_step: "life_inv s \<Longrightarrow> life_step s a t \<Longrightarrow> life_inv t"
proof -
  assume inv: "life_inv s" and "life_step s a t"
  from this(2) show "life_inv t"
  proof cases
    case (life_thread c l i l' c')
    with life_inv_thread [OF inv life_thread(3-5)] show ?thesis by simp
  next
    case (life_read c r i r' c')
    with life_inv_read [OF inv life_read(3-5)] show ?thesis by simp
  next
    case (life_call c d cap info timeout now r)
    with inv active_call [OF _ life_call(6,7)] show ?thesis by (simp add: life_inv_def client_inv_def split: client_pc.splits)
  next
    case (life_event c st)
    with inv event_inv [of c "lf_read s" "lf_thread s" "lf_client s" st] show ?thesis by (simp add: life_inv_def)
  next
    case (life_start c e st c' lo)
    with inv life_start_inv [OF life_start(5), of "lf_read s" "lf_thread s"] show ?thesis by (simp add: life_inv_def)
  next
    case (life_stop c d)
    with inv stop_frame [of c "lf_read s"] thread_inv_stop(1) [of "lf_thread s" c] show ?thesis
      by (simp add: life_inv_def client_inv_def destroying_def) (simp add: request_stop_def)
  next
    case (life_close c d)
    then have "h_stop_requested c" using inv by (simp add: life_inv_def client_inv_def)
    with life_close inv stop_frame [of c "lf_read s"] thread_inv_stop(2) [of "lf_thread s" c] show ?thesis
      by (auto simp: life_inv_def client_inv_def destroying_def close_queue_def)
  next
    case (life_join c d waited joined)
    with inv have j: "thread_inv (lf_thread s) c" "h_thread c" by (simp_all add: life_inv_def client_inv_def)
    from life_join inv joined_done(2) [OF j, of waited] detach_inv [OF j] show ?thesis
      by (auto simp: life_inv_def client_inv_def destroying_def) (simp_all add: detach_thread_def)
  next
    case (life_finish c d sts)
    with inv finish_inv [of "lf_thread s" c sts] show ?thesis
      by (auto simp: life_inv_def client_inv_def destroying_def stop_finish_thread)
  next
    case (life_keep c sts)
    with inv show ?thesis by (simp add: life_inv_def client_inv_def destroying_def)
  next
    case (life_delete c sts)
    with inv show ?thesis by (auto simp: life_inv_def client_inv_def thread_inv_def split: option.splits)
  qed
qed

lemma life_inv_init: "life_init s \<Longrightarrow> life_inv s"
  by (auto simp: life_init_def life_of_def life_inv_def startable_def active_inv_def thread_inv_def client_inv_def
      destroying_def)

interpretation life: invariant_rule life_init life_step life_inv
  by unfold_locales (auto intro: life_inv_init life_inv_step)


end
