(* ===== verification/Life_Calls.thy ===== *)
theory Life_Calls
  imports Handle_Life
begin

text \<open>
  What the calls of a client amount to over the life of a handle: which starts make a thread, fail or
  end the process; a stop and a destruction, with the capture thread alone between, are exactly the
  calls of \<open>Lifecycle\<close>; and a queue that is closed and empty delivers nothing any more.
\<close>

subsection \<open>Starting, in every state\<close>

text \<open>
  A start that does not return: a thread cannot be created, or it cannot allocate its buffer, or the
  connection still has its loop thread, left by a failed start or by a stop that abandoned the
  capture thread.
\<close>

lemma start_fault:
  assumes "weba_capture_start e (Some c) = Inl f"
  shows "\<not> h_running c" and "f = SystemError \<and> (\<not> ce_spawn (se_connect e) \<or> \<not> se_spawn e) \<or>
    f = Terminate \<and> (ct_thread (h_control c) \<or> h_thread c \<or> \<not> se_alloc e (frame_bytes c))"
proof -
  show nr: "\<not> h_running c" using assms by (auto simp: weba_capture_start_def)
  show "f = SystemError \<and> (\<not> ce_spawn (se_connect e) \<or> \<not> se_spawn e) \<or>
    f = Terminate \<and> (ct_thread (h_control c) \<or> h_thread c \<or> \<not> se_alloc e (frame_bytes c))"
  proof (cases "control_init (se_connect e) (h_control c)")
    case (Inl g)
    with assms nr have "g = f" by (simp add: weba_capture_start_def)
    with Inl control_init_fault_iff [of "se_connect e" "h_control c" g] show ?thesis by (auto split: if_splits)
  next
    case (Inr x)
    have th: "h_thread (publish_format t (c\<lparr>h_control := ct\<rparr>)) = h_thread c" for t ct by (simp add: publish_format_def)
    from Inr assms nr show ?thesis
      by (auto simp: weba_capture_start_def sum_bind_eq_Inl th Let_def split: if_splits prod.splits option.splits)
  qed
qed

lemma life_starts:
  assumes "life_inv s" "lf_h s = Some c"
  shows "weba_capture_start e (Some c) = Inr (WEBA_OK, co, lo) \<Longrightarrow> lf_thread s = None"
    and "lf_client s = ClientIdle \<Longrightarrow> weba_capture_start e (Some c) = Inl f \<Longrightarrow> \<not> h_thread c"
proof -
  have th: "thread_inv (lf_thread s) c" using assms by (simp add: life_inv_def)
  { assume start: "weba_capture_start e (Some c) = Inr (WEBA_OK, co, lo)"
    then obtain c' where "co = Some c'" by (cases rule: start_branches) auto
    with start start_thread [of e c WEBA_OK c' lo] have "makes_thread c c'" by simp
    with th show "lf_thread s = None" by (auto simp: thread_inv_def makes_thread_def split: option.splits) }
  assume idle: "lf_client s = ClientIdle" and start: "weba_capture_start e (Some c) = Inl f"
  have "h_thread c \<longrightarrow> \<not> h_stop_requested c" using assms idle by (simp add: life_inv_def client_inv_def)
  with th start_fault(1) [OF start] show "\<not> h_thread c"
    by (auto simp: thread_inv_def exiting_def split: option.splits)
qed

subsection \<open>A stop is its steps\<close>

inductive_simps life_thread_iff: "life_step s (ThreadStep i) t"
inductive_simps life_stop_iff: "life_step s (StopCall d) t"
inductive_simps life_close_iff: "life_step s StopClose t"
inductive_simps life_join_iff: "life_step s (StopJoin waited) t"
inductive_simps life_finish_iff: "life_step s (StopFinish sts) t"
inductive_simps life_delete_iff: "life_step s (DeleteCall sts) t"

lemma thread_steps:
  assumes "lf_h s = Some c" "lf_thread s = Some l"
  shows "execution life_step s (map ThreadStep is) t \<longleftrightarrow>
    (\<exists>l' c'. loop_run is (l, c) = Inr (l', c') \<and> t = s\<lparr>lf_h := Some c', lf_thread := Some l'\<rparr>)"
  using assms
proof (induction "is" arbitrary: s c l)
  case Nil
  then show ?case by (auto simp: execution_Nil)
next
  case (Cons i "is")
  then show ?case by (fastforce simp: execution_Cons life_thread_iff sum_bind_eq_Inr)
qed

definition stop_steps :: "bool \<Rightarrow> bool \<Rightarrow> loop_in list \<Rightarrow> int \<Rightarrow> pa_context_state list \<Rightarrow> life_act list" where
  "stop_steps d threaded is waited sts =
     StopCall d # StopClose # (if threaded then map ThreadStep is @ [StopJoin waited] else []) @ [StopFinish sts]"

lemma stop_begin_eq: "stop_begin c = close_queue (request_stop c)"
  by (simp add: stop_begin_def close_queue_def request_stop_def)

abbreviation after_stop :: "bool \<Rightarrow> client_pc" where
  "after_stop d \<equiv> (if d then ClientDelete else ClientIdle)"

abbreviation waited_for :: "bool \<Rightarrow> weba_capture \<Rightarrow> weba_capture" where
  "waited_for joined c \<equiv> (if joined then c\<lparr>h_thread := False\<rparr> else detach_thread c)"

lemma finish_exec:
  "lf_h s = Some c \<Longrightarrow> lf_client s = ClientFinish d \<Longrightarrow>
     execution life_step s [StopFinish sts] t \<longleftrightarrow> t = s\<lparr>lf_h := Some (stop_finish sts c), lf_client := after_stop d\<rparr>"
  by (auto simp: execution_Cons execution_Nil life_finish_iff)

lemma join_exec:
  assumes "lf_h s = Some c" "lf_client s = ClientJoin d"
  shows "execution life_step s [StopJoin waited, StopFinish sts] t \<longleftrightarrow> (\<exists>j. stop_wait waited c = Some j \<and>
    t = s\<lparr>lf_h := Some (stop_finish sts (waited_for j c)), lf_thread := if j then None else lf_thread s,
      lf_client := after_stop d\<rparr>)"
proof -
  let ?s = "\<lambda>j. s\<lparr>lf_h := Some (waited_for j c), lf_thread := if j then None else lf_thread s, lf_client := ClientFinish d\<rparr>"
  have joined: "life_step s (StopJoin waited) v \<longleftrightarrow> (\<exists>j. stop_wait waited c = Some j \<and> v = ?s j)" for v
    using assms by (simp add: life_join_iff) blast
  have "execution life_step (?s j) [StopFinish sts] t \<longleftrightarrow> t = (?s j)\<lparr>lf_h := Some (stop_finish sts (waited_for j c)),
      lf_client := after_stop d\<rparr>" for j by (rule finish_exec) simp_all
  then have finished: "execution life_step (?s j) [StopFinish sts] t \<longleftrightarrow> t = s\<lparr>lf_h := Some (stop_finish sts (waited_for j c)),
      lf_thread := if j then None else lf_thread s, lf_client := after_stop d\<rparr>" for j by (cases s) simp
  have "execution life_step s [StopJoin waited, StopFinish sts] t \<longleftrightarrow>
      (\<exists>j. stop_wait waited c = Some j \<and> execution life_step (?s j) [StopFinish sts] t)"
    unfolding execution_Cons [of _ _ "StopJoin waited"] joined by blast
  then show ?thesis unfolding finished .
qed

text \<open>The wait: the thread's steps, and then the end of the wait.\<close>

lemma wait_exec:
  assumes "lf_h s = Some c" "lf_client s = ClientJoin d" "lf_thread s = Some l"
  shows "execution life_step s (map ThreadStep is @ [StopJoin waited, StopFinish sts]) t \<longleftrightarrow>
    (\<exists>l' b j. loop_run is (l, c) = Inr (l', b) \<and> stop_wait waited b = Some j \<and>
      t = s\<lparr>lf_h := Some (stop_finish sts (waited_for j b)), lf_thread := if j then None else Some l',
        lf_client := after_stop d\<rparr>)"
proof -
  let ?v = "\<lambda>l' b. s\<lparr>lf_h := Some b, lf_thread := Some l'\<rparr>"
  have "execution life_step (?v l' b) [StopJoin waited, StopFinish sts] t \<longleftrightarrow> (\<exists>j. stop_wait waited b = Some j \<and>
      t = (?v l' b)\<lparr>lf_h := Some (stop_finish sts (waited_for j b)),
        lf_thread := if j then None else lf_thread (?v l' b), lf_client := after_stop d\<rparr>)" for l' b
    by (rule join_exec) (simp_all add: assms)
  then have joined: "execution life_step (?v l' b) [StopJoin waited, StopFinish sts] t \<longleftrightarrow> (\<exists>j. stop_wait waited b = Some j \<and>
      t = s\<lparr>lf_h := Some (stop_finish sts (waited_for j b)), lf_thread := if j then None else Some l',
        lf_client := after_stop d\<rparr>)" for l' b by (cases s) simp
  have "execution life_step s (map ThreadStep is @ [StopJoin waited, StopFinish sts]) t \<longleftrightarrow>
      (\<exists>l' b. loop_run is (l, c) = Inr (l', b) \<and> execution life_step (?v l' b) [StopJoin waited, StopFinish sts] t)"
    by (simp only: execution_append thread_steps [OF assms(1,3)]) blast
  then show ?thesis unfolding joined by blast
qed

lemma stop_exec:
  assumes s: "lf_h s = Some c" "lf_client s = ClientIdle" "d \<longrightarrow> idle (lf_read s)"
    and th: "h_thread c \<longrightarrow> lf_thread s \<noteq> None"
  shows "execution life_step s (stop_steps d (h_thread c) is waited sts) t \<longleftrightarrow>
    (\<exists>lo c'. weba_capture_stop sts is waited (lf_thread s, Some c) = Inr (Some (lo, Some c')) \<and>
       t = s\<lparr>lf_h := Some c', lf_thread := lo, lf_client := after_stop d\<rparr>)"
proof -
  let ?c = "stop_begin c"
  let ?s1 = "\<lambda>pc. s\<lparr>lf_h := Some ?c, lf_client := pc\<rparr>"
  have first: "execution life_step s (StopCall d # StopClose # as) t \<longleftrightarrow>
      execution life_step (?s1 (if h_thread c then ClientJoin d else ClientFinish d)) as t" for as
    using s by (auto simp: execution_Cons life_stop_iff life_close_iff stop_begin_eq) (auto simp: request_stop_def)
  show ?thesis
  proof (cases "h_thread c")
    case False
    have "execution life_step (?s1 (ClientFinish d)) [StopFinish sts] t \<longleftrightarrow>
        t = (?s1 (ClientFinish d))\<lparr>lf_h := Some (stop_finish sts ?c), lf_client := after_stop d\<rparr>"
      by (rule finish_exec) simp_all
    with False show ?thesis unfolding stop_steps_def by (simp add: first weba_capture_stop_def)
  next
    case True
    with th obtain l where l: "lf_thread s = Some l" by auto
    have "execution life_step (?s1 (ClientJoin d)) (map ThreadStep is @ [StopJoin waited, StopFinish sts]) t \<longleftrightarrow>
        (\<exists>l' b j. loop_run is (l, ?c) = Inr (l', b) \<and> stop_wait waited b = Some j \<and>
          t = (?s1 (ClientJoin d))\<lparr>lf_h := Some (stop_finish sts (waited_for j b)),
            lf_thread := if j then None else Some l', lf_client := after_stop d\<rparr>)"
      by (rule wait_exec) (simp_all add: l)
    then have steps: "execution life_step s (stop_steps d True is waited sts) t \<longleftrightarrow> (\<exists>l' b j.
        loop_run is (l, ?c) = Inr (l', b) \<and> stop_wait waited b = Some j \<and>
        t = s\<lparr>lf_h := Some (stop_finish sts (waited_for j b)), lf_thread := if j then None else Some l',
          lf_client := after_stop d\<rparr>)"
      using True by (simp add: stop_steps_def first)
    show ?thesis
    proof (cases "loop_run is (l, ?c)")
      case (Inl f)
      with True l steps show ?thesis by (simp add: weba_capture_stop_def thread_runs_def)
    next
      case (Inr x)
      then obtain l' b where "loop_run is (l, ?c) = Inr (l', b)" by (cases x) simp
      with True l steps show ?thesis
        by (cases "stop_wait waited b")
          (auto simp: weba_capture_stop_def thread_runs_def detach_thread_def split: bool.splits)
    qed
  qed
qed

lemma stop_keeps_handle:
  "weba_capture_stop sts is waited (lo, Some c) = Inr (Some (lo', co)) \<Longrightarrow> co \<noteq> None"
  by (cases "thread_runs is (lo, stop_begin c)"; cases "h_thread (stop_begin c)")
    (auto simp: weba_capture_stop_def Let_def simp del: stop_begin_sel split: prod.splits option.splits bool.splits)

lemma destroy_result:
  "weba_capture_destroy sts is waited (lo, Some c) = Inr (Some (lo', co)) \<longleftrightarrow>
     (\<exists>c'. weba_capture_stop sts is waited (lo, Some c) = Inr (Some (lo', Some c')) \<and>
        co = (if h_thread_abandoned c' then Some c' else None))" (is "?d = Inr _ \<longleftrightarrow> _")
proof (cases "weba_capture_stop sts is waited (lo, Some c)")
  case (Inr x)
  show ?thesis
  proof (cases x)
    case (Some y)
    obtain l h where y: "y = (l, h)" by (cases y)
    with Inr Some stop_keeps_handle [of sts "is" waited lo c l h] obtain c' where "h = Some c'" by auto
    with Inr Some y show ?thesis by (auto simp: weba_capture_destroy_eq)
  qed (simp add: Inr weba_capture_destroy_eq)
qed (simp add: weba_capture_destroy_eq)

text \<open>A destruction is a stop, and then the handle is freed, or kept for its abandoned thread.\<close>

lemma destroy_exec:
  assumes s: "lf_h s = Some c" "lf_client s = ClientIdle" "idle (lf_read s)"
    and th: "h_thread c \<longrightarrow> lf_thread s \<noteq> None"
  shows "execution life_step s (stop_steps True (h_thread c) is waited sts @ [DeleteCall sts]) t \<longleftrightarrow>
    (\<exists>lo co. weba_capture_destroy sts is waited (lf_thread s, Some c) = Inr (Some (lo, co)) \<and>
       t = s\<lparr>lf_h := co, lf_thread := lo\<rparr>)"
proof -
  let ?u = "\<lambda>lo c'. s\<lparr>lf_h := Some c', lf_thread := lo, lf_client := ClientDelete\<rparr>"
  let ?t = "\<lambda>lo c'. s\<lparr>lf_h := if h_thread_abandoned c' then Some c' else None, lf_thread := lo\<rparr>"
  have deleted: "execution life_step (?u lo c') [DeleteCall sts] t \<longleftrightarrow> t = ?t lo c'" if "\<not> h_thread c'" for lo c'
    using s(2) that by (cases s) (auto simp: execution_Cons execution_Nil life_delete_iff delete_unthreaded)
  have "execution life_step s (stop_steps True (h_thread c) is waited sts @ [DeleteCall sts]) t \<longleftrightarrow>
      (\<exists>lo c'. weba_capture_stop sts is waited (lf_thread s, Some c) = Inr (Some (lo, Some c')) \<and>
         execution life_step (?u lo c') [DeleteCall sts] t)"
    using stop_exec [OF s(1,2) _ th, of True] s(3) by (simp only: execution_append) auto
  also have "\<dots> \<longleftrightarrow> (\<exists>lo c'. weba_capture_stop sts is waited (lf_thread s, Some c) = Inr (Some (lo, Some c')) \<and> t = ?t lo c')"
    using deleted stop_unthreads by blast
  also have "\<dots> \<longleftrightarrow> (\<exists>lo co. weba_capture_destroy sts is waited (lf_thread s, Some c) = Inr (Some (lo, co)) \<and>
       t = s\<lparr>lf_h := co, lf_thread := lo\<rparr>)"
    by (simp add: destroy_result) blast
  finally show ?thesis .
qed

subsection \<open>A closed and empty queue\<close>

text \<open>The places of a call from which it may return 1, or has.\<close>

definition delivers :: "read_pc \<Rightarrow> bool" where
  "delivers pc \<longleftrightarrow> (case pc of RFlags _ \<Rightarrow> True | RAfter _ \<Rightarrow> True | RInfo \<Rightarrow> True | RReturn st \<Rightarrow> st = 1 | _ \<Rightarrow> False)"

definition drained :: "weba_capture \<Rightarrow> bool" where
  "drained c \<longleftrightarrow> closed (h_queue c) \<and> q_count (h_queue c) = 0"

definition deaf :: "life \<Rightarrow> bool" where
  "deaf s \<longleftrightarrow> (\<forall>c. lf_h s = Some c \<longrightarrow> drained c) \<and> (\<forall>r. lf_read s = Some r \<longrightarrow> \<not> delivers (rd_pc r))"

lemma drained_frame [simp]:
  "drained (c\<lparr>h_thread := b\<rparr>) = drained c" "drained (request_stop c) = drained c" "drained (detach_thread c) = drained c"
  "drained (stop_finish sts c) = drained c"
  by (simp_all add: drained_def request_stop_def detach_thread_def stop_finish_def)

lemma drained_event [simp]: "drained (server_event st c) = drained c"
  by (simp add: drained_def)

lemma drained_close: "drained c \<Longrightarrow> drained (close_queue c)"
  by (simp add: drained_def close_queue_def queue_close_def)

lemma drained_loop: "drained c \<Longrightarrow> loop_step i (l, c) = Inr (l', c') \<Longrightarrow> drained c'"
  by (auto simp: loop_steps drained_def queue_push_def sum_bind_eq_Inr
      split: loop_pc.splits prod.splits option.splits sum.splits if_splits)

lemma drained_read:
  "drained c \<Longrightarrow> \<not> delivers (rd_pc r) \<Longrightarrow> read_step i (r, c) = Inr (r', c') \<Longrightarrow> drained c' \<and> \<not> delivers (rd_pc r')"
  by (auto simp: read_steps drained_def delivers_def queue_pop_def sum_bind_eq_Inr status_defs
      split: read_pc.splits if_splits)

lemma drained_start: "drained c \<Longrightarrow> weba_capture_start e (Some c) = Inr (st, Some c', lo) \<Longrightarrow> drained c'"
  by (erule start_branches) (auto simp: drained_def publish_format_def set_error_def)

lemma deaf_step: "deaf s \<Longrightarrow> life_step s a t \<Longrightarrow> deaf t"
proof -
  assume deaf: "deaf s" and "life_step s a t"
  from this(2) show "deaf t"
  proof cases
    case (life_call c d cap info timeout now r)
    then have "\<not> delivers (rd_pc r)"
      by (auto simp: read_frame_entry_def read_refused_def delivers_def status_defs sum_bind_eq_Inr Let_def split: if_splits)
    with life_call deaf show ?thesis by (simp add: deaf_def)
  next
    case (life_thread c l i l' c')
    with deaf drained_loop [OF _ life_thread(5)] show ?thesis by (simp add: deaf_def)
  next
    case (life_read c r i r' c')
    with deaf drained_read [OF _ _ life_read(5)] show ?thesis by (simp add: deaf_def)
  next
    case (life_start c e st c' lo)
    with deaf drained_start [OF _ life_start(5)] show ?thesis by (simp add: deaf_def)
  next
    case (life_join c d waited joined)
    with deaf show ?thesis by (cases joined) (simp_all add: deaf_def)
  qed (use deaf drained_close in \<open>simp_all add: deaf_def\<close>)
qed

text \<open>A stop of a new handle changes nothing but to close its queue for good.\<close>

lemma stopped_new:
  assumes "startable c"
  shows "\<exists>c1. weba_capture_stop sts is waited (None, Some c) = Inr (Some (None, Some c1)) \<and> \<not> h_running c1 \<and>
    \<not> h_thread c1 \<and> h_control c1 = control_new \<and> drained c1 \<and> h_requested_sink c1 = h_requested_sink c \<and>
    frame_bytes c1 = frame_bytes c"
proof -
  have "frames (h_queue c) = []" "\<not> h_thread_abandoned c" using assms by (simp_all add: startable_def)
  moreover have "control_shutdown sts control_new = control_new"
    by (simp add: control_shutdown_def control_new_def Let_def)
  ultimately show ?thesis
    using startable_new [OF assms]
    by (simp add: weba_capture_stop_def stop_finish_def stop_begin_eq close_queue_def request_stop_def drained_def
        queue_close_def frames_Nil_iff Let_def)
qed

lemma deaf_execution: "execution life_step s as t \<Longrightarrow> deaf s \<Longrightarrow> deaf t"
  by (induction rule: execution.induct) (auto intro: deaf_step)

end
