(* ===== verification/Recorder_Exit.thy ===== *)
theory Recorder_Exit
  imports Recorder_Progress Life_Calls
begin

text \<open>
  Every outcome of the recorder's \<open>main()\<close>: when an exception ends it, and that it does return, with
  its handle freed, when its turns are served and the capture thread gets to leave.
\<close>

subsection \<open>The loop as a run of the system\<close>

lemma dump_turn_runs:
  assumes "dump_turn info fb t (d, s) = Some (again, d', s')"
  shows "\<exists>as. sys_run as s = Some s'"
proof -
  obtain u where u: "sys_run (map Capture (tn_idle t)) s = Some u"
    and rest: "s' = u \<or> (\<exists>res. dump_read info (du_buffer d) t u = Some (res, s'))"
    using assms by (auto simp: dump_turn_def Let_def Option.bind_eq_Some_conv split: if_splits)
  from rest show ?thesis
  proof
    assume "\<exists>res. dump_read info (du_buffer d) t u = Some (res, s')"
    then have "sys_run (Call (du_buffer d) (fi_frame_samples info) (Some zero_frame) 1000 (tn_now t) #
        map thread_act (tn_steps t)) u = Some s'"
      by (auto simp: dump_read_def Option.bind_eq_Some_conv)
    with u show ?thesis
      by (intro exI [of _ "map Capture (tn_idle t) @ Call (du_buffer d) (fi_frame_samples info) (Some zero_frame) 1000
          (tn_now t) # map thread_act (tn_steps t)"]) (simp only: sys_run_append Option.bind.simps)
  qed (use u in blast)
qed

lemma dump_loop_runs:
  "dump_loop info fb ts (d, s) = Some (d', s') \<Longrightarrow> \<exists>as. sys_run as s = Some s'"
proof (induction ts arbitrary: d s)
  case (Cons t ts)
  then obtain again d1 s1 where turn: "dump_turn info fb t (d, s) = Some (again, d1, s1)"
    and rest: "if again then dump_loop info fb ts (d1, s1) = Some (d', s') else s' = s1"
    by (fastforce simp: Option.bind_eq_Some_conv split: if_splits)
  obtain as where as: "sys_run as s = Some s1" using dump_turn_runs [OF turn] by blast
  obtain bs where "sys_run bs s1 = Some s'"
  proof (cases again)
    case True
    with rest Cons.IH that show ?thesis by auto
  next
    case False
    with rest that [of "[]"] show ?thesis by simp
  qed
  with as show ?case by (intro exI [of _ "as @ bs"]) (simp add: sys_run_append)
qed simp

text \<open>The system with its capture thread joinable, as a start leaves it and every step keeps it.\<close>

definition joinable :: "sys \<Rightarrow> bool" where
  "joinable s \<longleftrightarrow> sys_safe s \<and> gone_sys s \<and> h_thread (s_h s) \<and> \<not> h_thread_abandoned (s_h s)"

lemma joinable_step: "joinable s \<Longrightarrow> sys_step s a t \<Longrightarrow> joinable t"
  using sys_safe_step gone_sys_step sys_step_thread by (auto simp: joinable_def)

lemma joinable_run: "sys_run as s = Some t \<Longrightarrow> joinable s \<Longrightarrow> joinable t"
  by (induction as arbitrary: s) (auto simp: Option.bind_eq_Some_conv dest: sys_next_step joinable_step)

lemma joinable_started:
  assumes "startable c" "weba_capture_start e' (Some c) = Inr (WEBA_OK, Some c', Some l)"
  shows "joinable (dump_system e c')"
proof -
  have nr: "\<not> h_running c" by (rule startable_new [OF assms(1)])
  have "sys_init (dump_system e c')" using dump_system_served [OF assms] by (simp add: served_def)
  with sys_safe_init gone_sys_init start_control(3,4) [OF assms(2) nr] assms(1) show ?thesis
    by (simp add: joinable_def startable_def) (simp add: dump_system_def sys_of_def)
qed

subsection \<open>When an exception ends the program\<close>

lemma stop_total:
  assumes "\<And>l. lo = Some l \<Longrightarrow> loop_inv l c"
  shows "\<exists>r. weba_capture_stop sts is w (lo, Some c) = Inr r"
proof -
  have "\<exists>x. thread_runs is (lo, stop_begin c) = Inr x"
  proof (cases lo)
    case (Some l)
    from loop_run_inv [OF stop_begin_loop_inv [OF assms [OF Some]], of "is"] Some show ?thesis
      by (auto simp: thread_runs_def)
  qed (simp add: thread_runs_def)
  then show ?thesis by (auto simp: weba_capture_stop_def Let_def)
qed

lemma leave_total:
  assumes "dx_lib x = (lo, Some c)" "\<And>l. lo = Some l \<Longrightarrow> loop_inv l c"
  shows "\<exists>r. dump_leave e x = Inr r"
proof -
  obtain r where "weba_capture_stop (de_states e) (de_stop e) (de_waited e) (lo, Some c) = Inr r"
    using stop_total assms(2) by blast
  then show ?thesis using assms(1) by (simp add: dump_leave_def weba_capture_destroy_eq)
qed

lemma dump_record_total:
  assumes safe: "joinable s"
  shows "\<exists>r. dump_record e path out s = Inr r"
proof -
  have inv: "loop_inv (s_loop u) (s_h u)" if "joinable u" for u using that by (simp add: joinable_def sys_safe_def)
  have leave: "\<exists>r. dump_leave e x = Inr r" if "dx_lib x = (Some (s_loop u), Some (s_h u))" "joinable u" for x u
    using leave_total [OF that(1)] inv [OF that(2)] by simp
  let ?loop = "\<lambda>b. dump_loop (h_format_info (s_h s)) (dump_frame_bytes (h_format_info (s_h s))) (de_turns e)
    (dump_start (write_header (h_format_info (s_h s)) fopen_wb) b, s)"
  have "joinable s'" if "?loop b = Some (d, s')" for b d s'
    using dump_loop_runs [OF that] joinable_run safe by blast
  with leave [OF _ safe] leave show ?thesis
    by (auto simp: dump_record_def weba_capture_get_format_def Let_def split: option.split)
qed

text \<open>The start of the recorder's new handle, the only place where it can happen.\<close>

lemma dump_create_total:
  obtains st co where "weba_capture_create True h a (Some (dump_config e sink)) = Inr (st, co)"
proof -
  have "config_supported (Some (dump_config e sink))"
    by (simp add: config_supported_def dump_config_eq channels_supported_def bytes_per_sample_of_def)
  moreover have "size_mul 100 7680 = 768000" by (simp add: size_mod_def)
  ultimately have "\<exists>r. weba_capture_create True h a (Some (dump_config e sink)) = Inr r"
    by (simp add: create_eq dump_configured vector_max_size_def Let_def)
  with that show ?thesis by auto
qed

lemma first_start_fault:
  assumes "startable c" "weba_capture_start e (Some c) = Inl f"
  shows "f = SystemError \<and> (\<not> ce_spawn (se_connect e) \<or> \<not> se_spawn e) \<or>
    f = Terminate \<and> \<not> se_alloc e (frame_bytes c)"
  using start_fault(2) [OF assms(2)] startable_new [OF assms(1)] by (auto simp: control_new_def)

lemma dump_main_fault:
  assumes "dump_main e path sink = Inl f"
  shows "f = SystemError \<and> (\<not> ce_spawn (se_connect (de_start e)) \<or> \<not> se_spawn (de_start e)) \<or>
    f = Terminate \<and> \<not> se_alloc (de_start e) 7680"
proof -
  obtain st co where create: "weba_capture_create True (de_handle_ok e) (de_alloc_ok e) (Some (dump_config e sink)) = Inr (st, co)"
    by (rule dump_create_total)
  have ok: "st = WEBA_OK" using assms create by (auto simp: dump_main_def Let_def split: if_splits)
  from dump_created(2) [OF create ok] obtain c where c: "co = Some c" "startable c" and F: "mic_format_of c =
      \<lparr>mf_sample_rate = 48000, mf_channels = 2, mf_format = WEBA_SAMPLE_F32LE, mf_frame_samples = 960\<rparr>" by blast
  have nr: "\<not> h_running c" by (rule startable_new [OF c(2)])
  show ?thesis
  proof (cases "weba_capture_start (de_start e) (Some c)")
    case (Inl g)
    with assms create ok c(1) have "g = f" by (simp add: dump_main_def Let_def)
    moreover have "frame_bytes c = 7680" by (simp add: frame_bytes_mic F mic_frame_bytes_def bytes_per_sample_of_def size_mod_def)
    ultimately show ?thesis using first_start_fault [OF c(2) Inl] by simp
  next
    case (Inr r)
    obtain st' co' lo where r: "r = (st', co', lo)" by (cases r)
    from Inr [unfolded r] obtain c' where c': "co' = Some c'" by (cases rule: start_branches) auto
    note start = Inr [unfolded r c']
    have "\<exists>y. dump_main e path sink = Inr y"
    proof (cases "st' = WEBA_OK")
      case False
      from leave_total [of _ lo c' e] start_fails(3) [OF start nr False] show ?thesis
        by (simp add: dump_main_def Let_def create ok c(1) start False)
    next
      case True
      note start' = start [unfolded True]
      have lo: "lo = Some (loop_start c')" by (rule start_started(3) [OF c(2) start'])
      have "joinable (dump_system e c')" by (rule joinable_started [OF c(2) start' [unfolded lo]])
      with joinable_run dump_record_total show ?thesis
        by (auto simp: dump_main_def Let_def create ok c(1) start' lo dump_system_def sys_of_def split: option.split)
    qed
    with assms show ?thesis by simp
  qed
qed

subsection \<open>When it returns\<close>

text \<open>
  The surroundings serve the session: \<open>malloc\<close> gives blocks of the size asked for, the turns of the loop
  are served until one is past the deadline, whatever the state in which the loop begins, and the
  capture thread gets ten steps while the destruction waits.
\<close>

definition session_served :: "dump_env \<Rightarrow> bool" where
  "session_served e \<longleftrightarrow> malloc_ok e \<and> 10 \<le> length (de_stop e) \<and> de_turns e \<noteq> [] \<and> \<not> tn_before (last (de_turns e)) \<and>
     (\<forall>info b s. recording info (dump_start (write_header info fopen_wb) b, s) \<longrightarrow> s_clock s = de_clock e \<longrightarrow>
        \<not> h_deadline_valid (s_h s) \<longrightarrow> mic_format_of (s_h s) = \<lparr>mf_sample_rate = 48000, mf_channels = 2,
          mf_format = WEBA_SAMPLE_F32LE, mf_frame_samples = 960\<rparr> \<longrightarrow>
        turns_served info 7680 (butlast (de_turns e)) (dump_start (write_header info fopen_wb) b, s))"

lemma destroy_joinable:
  assumes "joinable s" "10 \<le> length is"
  shows "weba_capture_destroy sts is w (Some (s_loop s), Some (s_h s)) = Inr (Some (None, None))"
proof -
  have "loop_inv (s_loop s) (s_h s)" "gone_clear (s_loop s) (s_h s)" "h_thread (s_h s)" "\<not> h_thread_abandoned (s_h s)"
    using assms(1) by (simp_all add: joinable_def sys_safe_def gone_sys_def)
  from stop_joins [OF this assms(2), of sts w] show ?thesis by (auto simp: weba_capture_destroy_eq at_rest_def)
qed

lemma leave_joinable:
  "joinable s \<Longrightarrow> 10 \<le> length (de_stop e) \<Longrightarrow> dx_lib x = (Some (s_loop s), Some (s_h s)) \<Longrightarrow>
     dump_leave e x = Inr (Some (x\<lparr>dx_lib := (None, None)\<rparr>))"
  by (simp add: dump_leave_def destroy_joinable)

text \<open>The recorder at the beginning of its loop.\<close>

lemma dump_recording:
  assumes c: "startable c" "h_fixed_rate c" "mic_format_of c = \<lparr>mf_sample_rate = 48000, mf_channels = 2,
      mf_format = WEBA_SAMPLE_F32LE, mf_frame_samples = 960\<rparr>"
    and start: "weba_capture_start e' (Some c) = Inr (WEBA_OK, Some c', Some (loop_start c'))"
    and run: "sys_run (map Capture is) (dump_system e c') = Some s"
  shows "joinable s" "s_clock s = de_clock e" "\<not> h_deadline_valid (s_h s)" "mic_format_of (s_h s) = mic_format_of c"
    "length b = dump_frame_bytes (h_format_info (s_h s)) \<Longrightarrow>
       recording (h_format_info (s_h s)) (dump_start h b, s)"
proof -
  let ?s = "dump_system e c'"
  have served: "served ?s" by (rule dump_system_served [OF c(1) start])
  then have reach: "reachable served sys_step ?s" by (rule reach_init)
  note st = start_started [OF c(1) start] and cfg = start_config [OF start]
  have h: "s_h ?s = c'" "s_read ?s = None" "s_clock ?s = de_clock e" by (simp_all add: dump_system_def sys_of_def)
  obtain u where u: "sys_run (map Capture is) ?s = Some u" "s_clock u = s_clock ?s" "loop_frame (s_h ?s) (s_h u)"
    by (rule captures_run [OF served_reach(2) [OF reach]])
  then have s: "s_clock s = de_clock e" "loop_frame c' (s_h s)" using run h by simp_all
  note idle = idle_run [OF run reach]
  show "joinable s" by (rule joinable_run [OF run joinable_started [OF c(1) start]])
  show "s_clock s = de_clock e" by (rule s(1))
  have "\<not> h_deadline_valid c'" "\<not> h_stop_requested c'" using st(1) by (simp_all add: started_def)
  with s(2) show "\<not> h_deadline_valid (s_h s)" by (simp add: loop_frame_def)
  show "mic_format_of (s_h s) = mic_format_of c" using idle cfg(1) h by simp
  show "recording (h_format_info (s_h s)) (dump_start h b, s)"
    if "length b = dump_frame_bytes (h_format_info (s_h s))"
    using idle h s(2) that \<open>\<not> h_stop_requested c'\<close> cfg(2) c(2) published_describes [OF served_reach(5) [of s]]
    by (simp add: recording_def idle_def loop_frame_def)
qed

lemma dump_record_served:
  assumes sv: "session_served e" and j: "joinable s" and start: "s_clock s = de_clock e" "\<not> h_deadline_valid (s_h s)"
    and F: "mic_format_of (s_h s) = \<lparr>mf_sample_rate = 48000, mf_channels = 2, mf_format = WEBA_SAMPLE_F32LE,
      mf_frame_samples = 960\<rparr>"
    and rec: "\<And>b. length b = dump_frame_bytes (h_format_info (s_h s)) \<Longrightarrow>
      recording (h_format_info (s_h s)) (dump_start (write_header (h_format_info (s_h s)) fopen_wb) b, s)"
  shows "\<exists>x. dump_record e path out s = Inr (Some x) \<and> dx_lib x = (None, None) \<and>
    (\<forall>f. dx_file x = Some f \<longrightarrow> length f = 44 + (length (de_turns e) - 1) * 7680)"
proof -
  let ?info = "h_format_info (s_h s)" and ?ts = "butlast (de_turns e)" and ?t = "last (de_turns e)"
  let ?d = "\<lambda>b. dump_start (write_header ?info fopen_wb) b"
  have stop: "10 \<le> length (de_stop e)" and ts: "de_turns e = ?ts @ [?t]" "\<not> tn_before ?t" and mem: "malloc_ok e"
    using sv by (simp_all add: session_served_def)
  have desc: "describes ?info (mic_format_of (s_h s))"
    using rec [OF length_replicate] by (simp add: recording_def)
  have "mic_format_valid (mic_format_of (s_h s))"
    using j by (simp add: joinable_def sys_safe_def handle_wf_def format_wf_def)
  from dump_frame_bytes_eq [OF desc this] have fb: "dump_frame_bytes ?info = 7680"
    by (simp add: F mic_frame_bytes_def bytes_per_sample_of_def size_mod_def)
  note leave = leave_joinable [OF _ stop]
  show ?thesis
  proof (cases "de_malloc e 7680")
    case None
    then show ?thesis by (simp add: dump_record_def weba_capture_get_format_def fb leave [OF j] Let_def)
  next
    case (Some b)
    then have len: "length b = dump_frame_bytes ?info" using mem fb by (simp add: malloc_ok_def)
    show ?thesis
    proof (cases "de_fopen e")
      case False
      with Some show ?thesis by (simp add: dump_record_def weba_capture_get_format_def fb leave [OF j] Let_def)
    next
      case True
      have "turns_served ?info (dump_frame_bytes ?info) ?ts (?d b, s)"
        using sv rec [OF len] start F unfolding session_served_def fb by blast
      from served_turns_record [OF rec [OF len] this ts(2)] obtain d :: dump_state and s' fs where
        loop: "dump_loop ?info 7680 (de_turns e) (?d b, s) = Some (d, s')"
        and fs: "length fs = length ?ts" "\<forall>f\<in>set fs. length f = 7680" "du_out d = fold fwrite fs (du_out (?d b))"
        unfolding ts(1) [symmetric] fb by blast
      have j': "joinable s'" using dump_loop_runs [OF loop] joinable_run j by blast
      have out: "du_out d = wav_at (wav_bytes ?info 0 0 (concat fs))"
        using fs(3) by (simp add: dump_start_def write_header_bytes fwrite_all)
      have "length (concat fs) = length ?ts * 7680"
        using fs by (simp add: length_concat sum_list_triv cong: map_cong)
      then have "length (wv_bytes (patch_sizes 44 (du_out d))) = 44 + (length (de_turns e) - 1) * 7680"
        unfolding out patch_sizes_bytes by (simp only: length_wav_bytes length_butlast)
      moreover have "ftell (write_header ?info fopen_wb) = 44" by (simp add: write_header_bytes ftell_def wav_at_def)
      ultimately show ?thesis using Some True loop
        by (simp add: dump_record_def weba_capture_get_format_def fb leave [OF j'] Let_def)
    qed
  qed
qed

lemma dump_fixed_rate:
  assumes "weba_capture_create True h a (Some (dump_config e sink)) = Inr (st, Some c)"
  shows "h_fixed_rate c"
proof -
  have "unat (h_queue_frames (configured (Some (dump_config e sink)))) * frame_bytes (configured (Some (dump_config e sink))) < 2 ^ 64"
    by (simp add: dump_configured)
  from arg_cong [where f = h_fixed_rate, OF create_wf(5) [OF assms this]]
  have "h_fixed_rate c = h_fixed_rate (configured (Some (dump_config e sink)))" by simp
  then show ?thesis by (simp add: configured_def apply_config_def dump_config_eq)
qed

lemma session_ends:
  assumes sv: "session_served e" and run: "dump_main e path sink = Inr r"
  shows "\<exists>x. r = Some x \<and> dx_lib x = (None, None) \<and>
    (\<forall>f. dx_file x = Some f \<longrightarrow> length f = 44 + (length (de_turns e) - 1) * 7680)"
proof -
  obtain st co where create: "weba_capture_create True (de_handle_ok e) (de_alloc_ok e) (Some (dump_config e sink)) = Inr (st, co)"
    by (rule dump_create_total)
  show ?thesis
  proof (cases "st = WEBA_OK")
    case False
    with dump_created(1) [OF create] run create show ?thesis by (auto simp: dump_main_def Let_def)
  next
    case ok: True
    from dump_created(2) [OF create ok] obtain c where c: "co = Some c" "startable c" and F: "mic_format_of c =
        \<lparr>mf_sample_rate = 48000, mf_channels = 2, mf_format = WEBA_SAMPLE_F32LE, mf_frame_samples = 960\<rparr>" by blast
    have nr: "\<not> h_running c" by (rule startable_new [OF c(2)])
    have rate: "h_fixed_rate c" by (rule dump_fixed_rate [OF create [unfolded c(1)]])
    from run create c(1) ok obtain st' co' lo where s: "weba_capture_start (de_start e) (Some c) = Inr (st', co', lo)"
      by (auto simp: dump_main_def sum_bind_eq_Inr Let_def)
    then obtain c' where c': "co' = Some c'" by (cases rule: start_branches) auto
    note start = s [unfolded c']
    show ?thesis
    proof (cases "st' = WEBA_OK")
      case False
      note fails = start_fails [OF start nr False]
      from start_thread [OF start] False have "keeps_thread c c'" by simp
      with c(2) have "\<not> h_thread c'" "\<not> h_thread_abandoned c'" by (simp_all add: keeps_thread_def startable_def)
      then have "weba_capture_destroy sts is w (None, Some c') = Inr (Some (None, None))" for sts "is" w
        by (simp add: weba_capture_destroy_eq weba_capture_stop_def stop_finish_def Let_def)
      with fails(3) run False show ?thesis
        by (auto simp: dump_main_def Let_def create ok c(1) start dump_leave_def)
    next
      case True
      note start' = start [unfolded True]
      have lo: "lo = Some (loop_start c')" by (rule start_started(3) [OF c(2) start'])
      note start' = start' [unfolded lo]
      have "sys_safe (dump_system e c')"
        using joinable_started [OF c(2) start'] by (simp add: joinable_def)
      then obtain u where u: "sys_run (map Capture (de_idle e)) (dump_system e c') = Some u" by (rule captures_run)
      note rec = dump_recording [OF c(2) rate F start' u]
      from dump_record_served [OF sv rec(1-3) rec(4) [unfolded F] rec(5), of path "[''webacapture '' @ weba_version_string]"]
      obtain x where x: "dump_record e path [''webacapture '' @ weba_version_string] u = Inr (Some x)"
        "dx_lib x = (None, None)" "\<forall>f. dx_file x = Some f \<longrightarrow> length f = 44 + (length (de_turns e) - 1) * 7680" by blast
      have "dump_main e path sink = dump_record e path [''webacapture '' @ weba_version_string] u"
        using u by (simp add: dump_main_def Let_def create ok c(1) start' dump_system_def sys_of_def)
      with run x show ?thesis by simp
    qed
  qed
qed

text \<open>Whatever the session, how the program exits.\<close>

lemma dump_main_exit:
  assumes "dump_main e path sink = Inr (Some x)"
  shows "(dx_status x = 0 \<and> dx_file x \<noteq> None \<or> dx_status x = 1 \<and> dx_file x = None \<and> length (dx_err x) = 1) \<and>
    (\<forall>c. snd (dx_lib x) = Some c \<longrightarrow> h_thread_abandoned c)"
proof -
  have gone: "\<forall>c. snd (dx_lib x) = Some c \<longrightarrow> h_thread_abandoned c"
    if "weba_capture_destroy sts is w lib = Inr (Some (dx_lib x))" for sts "is" w lib
    using that by (cases "dx_lib x") (auto dest: destroyed_lib)
  from assms show ?thesis
  proof (cases rule: dump_main_cases)
    case (recorded c c' s)
    from dump_record_ends [OF recorded(5)] gone show ?thesis by blast
  qed (use gone in auto)
qed

end
