(* ===== verification/Sample_Run.thy ===== *)
theory Sample_Run
  imports Lifecycle Sys_Exec "HOL-Library.Code_Target_Nat" "HOL-Library.Code_Target_Int"
begin

text \<open>
  Executing the system on concrete inputs, with \<open>sys_run\<close>. The sample is one channel of 16-bit samples, one sample per frame at 1000 Hz, with a queue of two frames, on a
  server whose default sink is \<open>hdmi\<close>. The runs evaluate in the kernel and serve as instances of the
  properties.
\<close>

subsection \<open>The sample\<close>

definition sample_config :: weba_config where
  "sample_config = \<lparr>cfg_sample_rate = 1000, cfg_channels = 1, cfg_format = WEBA_SAMPLE_S16LE,
     cfg_frame_samples = 1, cfg_sink = None, cfg_ring_frames = 2, cfg_fixed_rate = 1,
     cfg_sink_recheck_ms = 1000\<rparr>"

definition sample_created :: weba_capture where
  "sample_created = (configured (Some sample_config))\<lparr>h_queue :=
     \<lparr>storage = [0, 0, 0, 0], slot_bytes = 2, capacity = 2, q_count = 0, read_index = 0,
      q_dropped = 0, closed = False\<rparr>\<rparr>"

definition sample_server :: "string \<Rightarrow> server" where
  "sample_server name = \<lparr>sv_default = Some name, sv_sinks = (\<lambda>s. Some (Some (s @ ''.monitor'')))\<rparr>"

definition sample_resolve :: "string \<Rightarrow> resolve_env" where
  "sample_resolve name =
     \<lparr>re_default = \<lparr>qe_issued = True, qe_calls = [Some (Some name)], qe_strerror = ''''\<rparr>,
      re_monitor = (\<lambda>s. \<lparr>qe_issued = True,
        qe_calls = [\<lparr>si_strerror = '''', si_info = Some (Some (s @ ''.monitor'')), si_eol = 0\<rparr>,
                    \<lparr>si_strerror = '''', si_info = None, si_eol = 1\<rparr>], qe_strerror = ''''\<rparr>)\<rparr>"

lemma sample_serves: "serves (sample_server name) (sample_resolve name)"
  by (simp add: serves_def answers_default_def answers_monitor_def sample_server_def sample_resolve_def)

definition sample_connect :: connect_env where
  "sample_connect = \<lparr>ce_mainloop = True, ce_context = True, ce_connect_states = [CtxOther],
     ce_connect_rc = 0, ce_wait_states = [CtxOther, CtxReady], ce_strerror = '''', ce_spawn = True\<rparr>"

definition sample_start :: start_env where
  "sample_start = \<lparr>se_connect = sample_connect, se_resolve = sample_resolve ''hdmi'',
     se_disconnect = [CtxTerminated], se_spawn = True, se_alloc = (\<lambda>_. True)\<rparr>"

lemma sample_configured:
  "frame_bytes (configured (Some sample_config)) = 2"
  "h_queue_frames (configured (Some sample_config)) = 2"
  "config_supported (Some sample_config)"
  by (simp_all add: config_supported_def channels_supported_def bytes_per_sample_of_def sample_config_def
      configured_def apply_config_def or_default_def frame_bytes_def size_mul_def size_mod_def)

lemma sample_create:
  "weba_capture_create True True (\<lambda>_. True) (Some sample_config) = Inr (WEBA_OK, Some sample_created)"
proof -
  have "size_mul 2 2 = 4" by (simp add: size_mod_def)
  moreover have "replicate 4 (0 :: byte) = [0, 0, 0, 0]" by (simp add: numeral_eq_Suc)
  ultimately show ?thesis
    by (simp add: create_eq sample_configured sample_created_def vector_max_size_def)
qed

definition sample_handle :: weba_capture where
  "sample_handle = sample_created\<lparr>
     h_control := \<lparr>ct_mainloop = True, ct_ctx = True, ct_thread = True, ct_ready = True,
       ct_terminated = False, ct_failed = False, ct_error = ''''\<rparr>,
     h_format_info := \<lparr>fi_sample_rate = 1000, fi_channels = 1, fi_frame_samples = 1,
       fi_format = WEBA_SAMPLE_S16LE, fi_sink_name = ''hdmi'', fi_monitor_name = ''hdmi.monitor''\<rparr>,
     h_running := True, h_thread := True\<rparr>"

lemma sample_startable: "startable sample_created"
  using create_startable [OF sample_create] by (simp add: sample_configured)

lemma sample_started:
  "weba_capture_start sample_start (Some sample_created) =
     Inr (WEBA_OK, Some sample_handle, Some (loop_start sample_handle))"
  by code_simp

lemma sample_served: "served (sys_of sample_handle)"
  by (rule served_start [OF sample_startable sample_started])

definition sample_in :: "ns \<Rightarrow> byte \<Rightarrow> loop_in" where
  "sample_in now d =
     \<lparr>li_resolve = sample_resolve ''hdmi'', li_simple_new = (\<lambda>_. Inr 7), li_strerror = (\<lambda>_. ''Failure''),
      li_read = Inr (\<lambda>_. d), li_now = now, li_now' = now, li_waited = 0\<rparr>"

definition captures :: "nat \<Rightarrow> byte \<Rightarrow> act list" where
  "captures n d = replicate n (Capture (sample_in 0 d))"

definition consume_at :: "ns \<Rightarrow> act" where
  "consume_at now = Consume \<lparr>ri_now = now, ri_waited = 2000\<rparr>"

definition sample_call :: "ns \<Rightarrow> act" where
  "sample_call now = Call [9, 9, 9] 1 (Some \<lparr>timestamp_ns = 0, fr_flags = 0, dropped_frames = 0\<rparr>) 1000 now"

text \<open>Three frames are captured, the first is lost, two are delivered, and a frame of silence follows.\<close>

definition sample_acts :: "act list" where
  "sample_acts = captures 7 1 @ captures 4 2 @ captures 4 3 @
     sample_call 0 # map consume_at [0, 2000000, 2000000, 2000000, 2000000, 2000000] @
     sample_call 2000000 # map consume_at [2100000, 2100000, 2100000, 2200000] @
     sample_call 2200000 # map consume_at [2300000, 3000000, 3000000, 3000000, 3000000, 3000000]"

definition observed ::
  "sys \<Rightarrow> byte list list \<times> (nat \<times> byte list) list \<times> (ns \<times> ns) list \<times> read_pc option \<times>
     byte list option \<times> weba_frame_info option option" where
  "observed s = (s_pushed s, s_got s, s_released s, map_option rd_pc (s_read s),
     map_option rd_dst (s_read s), map_option rd_info (s_read s))"

lemma sample_first:
  "map_option observed (sys_run (take 22 sample_acts) (sys_of sample_handle)) =
     Some ([[1, 1], [2, 2], [3, 3]], [(1, [2, 2])], [(1000000, 2000000)], Some (RReturn 1),
       Some [2, 2, 9], Some (Some \<lparr>timestamp_ns = 2000000, fr_flags = 1, dropped_frames = 1\<rparr>))"
  by code_simp

lemma sample_last:
  "map_option observed (sys_run sample_acts (sys_of sample_handle)) =
     Some ([[1, 1], [2, 2], [3, 3]], [(1, [2, 2]), (0, [3, 3])],
       [(1000000, 2000000), (2000000, 2200000), (3000000, 3000000)], Some (RReturn 1),
       Some [0, 0, 9], Some (Some \<lparr>timestamp_ns = 3000000, fr_flags = 6, dropped_frames = 0\<rparr>))"
  by code_simp

lemma observed_sel:
  assumes "observed s = (p, g, rel, Some pc, Some d, Some i)"
  shows "s_pushed s = p" "s_got s = g" "s_released s = rel"
    and "\<exists>r. s_read s = Some r \<and> rd_pc r = pc \<and> rd_dst r = d \<and> rd_info r = i"
  using assms by (auto simp: observed_def)

text \<open>The states these runs reach.\<close>

lemma sample_reach_from:
  assumes "map_option observed (sys_run as (sys_of sample_handle)) = Some ob"
  shows "\<exists>s. reachable served sys_step s \<and> reachable sys_init sys_step s \<and> observed s = ob"
proof -
  from assms obtain s where run: "sys_run as (sys_of sample_handle) = Some s" and ob: "observed s = ob"
    by auto
  have "reachable served sys_step s" by (rule sys_run_reachable [where init = served, OF run sample_served])
  moreover have "sys_init (sys_of sample_handle)" using sample_served by (simp add: served_def)
  then have "reachable sys_init sys_step s" by (rule sys_run_reachable [where init = sys_init, OF run])
  ultimately show ?thesis using ob by blast
qed

lemma sample_last_state:
  obtains s r where "reachable sys_init sys_step s" "reachable served sys_step s"
    "s_pushed s = [[1, 1], [2, 2], [3, 3]]" "s_got s = [(1, [2, 2]), (0, [3, 3])]"
    "s_released s = [(1000000, 2000000), (2000000, 2200000), (3000000, 3000000)]"
    "s_read s = Some r" "rd_pc r = RReturn 1" "rd_dst r = [0, 0, 9]"
    "rd_info r = Some \<lparr>timestamp_ns = 3000000, fr_flags = 6, dropped_frames = 0\<rparr>"
proof -
  from sample_reach_from [OF sample_last] obtain s where s: "reachable served sys_step s"
    "reachable sys_init sys_step s"
    and ob: "observed s = ([[1, 1], [2, 2], [3, 3]], [(1, [2, 2]), (0, [3, 3])],
       [(1000000, 2000000), (2000000, 2200000), (3000000, 3000000)], Some (RReturn 1),
       Some [0, 0, 9], Some (Some \<lparr>timestamp_ns = 3000000, fr_flags = 6, dropped_frames = 0\<rparr>))"
    by blast
  from observed_sel(4) [OF ob] obtain r where "s_read s = Some r" "rd_pc r = RReturn 1"
    "rd_dst r = [0, 0, 9]"
    "rd_info r = Some \<lparr>timestamp_ns = 3000000, fr_flags = 6, dropped_frames = 0\<rparr>" by blast
  then show ?thesis by (rule that [OF s(2,1) observed_sel(1-3) [OF ob]])
qed

text \<open>A call on the sample, with a capture thread that keeps flagging a reopening.\<close>

definition sample_read :: read_state where
  "sample_read = \<lparr>rd_pc = RTop, rd_dst = [9, 9, 9], rd_info = None, rd_period = 1000,
     rd_call_deadline = 1000000000, rd_total = 0\<rparr>"

definition sample_clock :: "nat \<Rightarrow> read_in" where
  "sample_clock k = \<lparr>ri_now = (if k \<le> 1 then 0 else 2000000), ri_waited = 2000\<rparr>"

lemma sample_wf: "handle_wf sample_handle"
  using sample_served by (auto simp: served_def sys_init_def started_def sys_of_def)

lemma sample_call_ready:
  "h_fixed_rate sample_handle" "\<not> h_stop_requested sample_handle" "h_running sample_handle"
  "\<not> closed (h_queue sample_handle)" "honest_buffer sample_handle [9, 9, 9] 1"
  "h_frame_samples sample_handle \<le> 1"
  "read_frame_entry (Some sample_handle) (Some [9, 9, 9]) 1 None 1000 0 = Inr sample_read"
  "sleep_honoured sample_handle sample_read (sample_clock 0) (sample_clock 1) (sample_clock 2)"
  "due_at sample_handle (ri_now (sample_clock 0)) (rd_period sample_read) + 1001000 \<le> 0 + ms_to_ns 1000"
  by code_simp+

lemma sample_guarantee: "capture_guarantee (pending_or reinit_flags)"
  by (simp add: capture_guarantee_def pending_or_def loop_frame_def mic_format_of_def)

text \<open>The sample's capture thread, before its first iteration and in the middle of its work.\<close>

definition sample_loop :: "loop_pc \<Rightarrow> loop_state" where
  "sample_loop pc = \<lparr>lp_pc = pc, lp_mic = Some (Some 7), lp_had_stream = True, lp_buffer = [0, 0]\<rparr>"

definition sample_target :: "string \<Rightarrow> target_t" where
  "sample_target name = \<lparr>tg_sink = name, tg_monitor = name @ ''.monitor''\<rparr>"

definition sample_bad :: loop_in where
  "sample_bad = (sample_in 0 0)\<lparr>li_read := Inl 3, li_waited := 1000000\<rparr>"

lemma sample_frame_bytes: "frame_bytes sample_handle = 2"
  by code_simp

lemma sample_handle_sel [simp]:
  "h_requested_sink sample_handle = ''''" "h_stop_requested sample_handle = False"
  "h_running sample_handle = True" "h_thread sample_handle = True"
  "h_thread_abandoned sample_handle = False" "h_pending_flags sample_handle = 0"
  by code_simp+

lemma sample_loop_inv:
  "pc_target pc = None \<Longrightarrow> handle_wf c \<Longrightarrow> frame_bytes c = 2 \<Longrightarrow> loop_inv (sample_loop pc) c"
  by (simp add: loop_inv_def sample_loop_def)

lemma sample_healthy:
  assumes "h_requested_sink c = ''''" "ct_ctx (h_control c)" "control_ready (h_control c)"
  shows "healthy (sample_in now d) c (sample_target ''hdmi'') (\<lambda>_. d)"
proof -
  have "resolve_spec (sample_server ''hdmi'') '''' = Some (sample_target ''hdmi'')"
    by (simp add: resolve_spec_def sample_server_def sample_target_def)
  with sample_serves [of "''hdmi''"] assms show ?thesis
    by (auto simp: healthy_def sample_in_def sample_target_def)
qed

lemma sample_control: "ct_ctx (h_control sample_handle)" "control_ready (h_control sample_handle)"
  by code_simp+

text \<open>A full queue that has lost three frames, an empty one, and a call that is due on them.\<close>

definition sample_queue :: frame_queue where
  "sample_queue = \<lparr>storage = [1, 1, 2, 2], slot_bytes = 2, capacity = 2, q_count = 2, read_index = 1,
     q_dropped = 3, closed = False\<rparr>"

definition sample_empty :: frame_queue where
  "sample_empty = \<lparr>storage = [1, 1, 2, 2], slot_bytes = 2, capacity = 2, q_count = 0, read_index = 1,
     q_dropped = 0, closed = False\<rparr>"

lemma sample_queue_inv: "queue_inv sample_queue" "slot_bytes sample_queue = 2"
  by (simp_all add: sample_queue_def queue_inv_def ring_inv_def vector_max_size_def size_mod_def)

lemma sample_empty_inv: "queue_inv sample_empty" "slot_bytes sample_empty = 2"
  by (simp_all add: sample_empty_def queue_inv_def ring_inv_def vector_max_size_def size_mod_def)

definition sample_due_handle :: "frame_queue \<Rightarrow> weba_capture" where
  "sample_due_handle q = sample_handle\<lparr>h_queue := q, h_next_deadline := 1000000, h_deadline_valid := True\<rparr>"

definition sample_info_read :: read_state where
  "sample_info_read = sample_read\<lparr>rd_info := Some \<lparr>timestamp_ns = 0, fr_flags = 0, dropped_frames = 0\<rparr>\<rparr>"

lemma sample_info_sel:
  "rd_pc sample_info_read = RTop" "rd_total sample_info_read = 0" "rd_dst sample_info_read = [9, 9, 9]"
  "rd_info sample_info_read = Some \<lparr>timestamp_ns = 0, fr_flags = 0, dropped_frames = 0\<rparr>"
  by (simp_all add: sample_info_read_def sample_read_def)

lemma sample_due_bytes: "frame_bytes (sample_due_handle q) = 2"
  by (simp add: sample_due_handle_def sample_frame_bytes)

lemma sample_due_ready:
  "h_fixed_rate (sample_due_handle q)" "h_deadline_valid (sample_due_handle q)"
  "h_next_deadline (sample_due_handle q) \<le> ri_now (sample_clock 2)"
  using sample_call_ready(1) by (simp_all add: sample_due_handle_def sample_clock_def)

lemma sample_due_read:
  assumes "queue_inv q" and sb: "slot_bytes q = 2"
  shows "read_inv sample_info_read (sample_due_handle q)"
proof -
  have "slot_bytes (h_queue sample_handle) = 2" by code_simp
  then have "handle_wf (sample_handle\<lparr>h_queue := q\<rparr>)"
    using sb by (intro handle_wf_queue [OF sample_wf assms(1)]) simp
  then have "handle_wf (sample_due_handle q)"
    by (simp add: sample_due_handle_def handle_wf_def format_wf_def mic_format_of_def)
  moreover have "h_frame_samples (sample_due_handle q) = 1" "h_sample_rate (sample_due_handle q) = 1000"
    by (simp_all add: sample_due_handle_def) code_simp+
  ultimately show ?thesis
    by (simp add: read_inv_def sample_due_bytes) (simp add: sample_info_read_def sample_read_def period_us_def)
qed

text \<open>A configuration whose queue of \<open>2 ^ 31\<close> frames of \<open>2 ^ 33\<close> bytes has a size of zero modulo \<open>2 ^ 64\<close>.\<close>

definition wrapping_config :: weba_config where
  "wrapping_config = \<lparr>cfg_sample_rate = 48000, cfg_channels = 2, cfg_format = WEBA_SAMPLE_F32LE,
     cfg_frame_samples = 2 ^ 30, cfg_sink = None, cfg_ring_frames = 2 ^ 31, cfg_fixed_rate = 1,
     cfg_sink_recheck_ms = 1000\<rparr>"

text \<open>The sample without a fixed rate, and a call on it whose time is up at once.\<close>

definition sample_unpaced :: weba_capture where
  "sample_unpaced = sample_handle\<lparr>h_fixed_rate := False\<rparr>"

definition sample_unpaced_read :: read_state where
  "sample_unpaced_read = sample_read\<lparr>rd_call_deadline := 0\<rparr>"

lemma sample_unpaced_wf: "handle_wf sample_unpaced"
  using sample_wf by (simp add: sample_unpaced_def handle_wf_def format_wf_def mic_format_of_def frame_bytes_def)

lemma sample_unpaced_ready:
  "\<not> h_fixed_rate sample_unpaced" "h_running sample_unpaced" "honest_buffer sample_unpaced [9, 9, 9] 1"
  "h_frame_samples sample_unpaced \<le> 1"
  "read_frame_entry (Some sample_unpaced) (Some [9, 9, 9]) 1 None 0 0 = Inr sample_unpaced_read"
  "0 + ms_to_ns (max 0 0) \<le> ri_now (sample_clock 0)" "ri_now (sample_clock 0) \<le> ri_now (sample_clock 2)"
  "0 \<le> ri_waited (sample_clock 1)"
  by code_simp+

end
