(* ===== verification/Sample_Recording.thy ===== *)
theory Sample_Recording
  imports Recorder_Exit Sample_Run
begin

text \<open>
  A session of the recorder, from start to exit, on the sample server: one frame of silence is
  recorded, then the deadline has passed. It serves as the instance of the recorder's properties;
  the queue of the default configuration is too large to evaluate, so the session is derived from
  the lemmas.
\<close>

definition dump_clock :: "nat \<Rightarrow> read_in" where
  "dump_clock k = \<lparr>ri_now = (if k \<le> 1 then 0 else 30000000), ri_waited = 30000\<rparr>"

definition sample_dump :: dump_env where
  "sample_dump = \<lparr>de_uninit = sample_config, de_handle_ok = True, de_alloc_ok = (\<lambda>_. True),
     de_start = sample_start, de_clock = 0, de_idle = [],
     de_malloc = (\<lambda>n. Some (replicate n 0)), de_fopen = True,
     de_turns = [\<lparr>tn_before = True, tn_idle = [], tn_now = 0, tn_steps = map Inr (map dump_clock [0..<6]),
         tn_report = True\<rparr>,
       \<lparr>tn_before = False, tn_idle = [], tn_now = 0, tn_steps = [], tn_report = False\<rparr>],
     de_states = [CtxTerminated], de_stop = replicate 10 sample_bad, de_waited = 0\<rparr>"

lemma sample_dump_malloc: "malloc_ok sample_dump"
  by (simp add: malloc_ok_def sample_dump_def)

lemma sample_dump_created:
  obtains c where "weba_capture_create True True (\<lambda>_. True) (Some (dump_config sample_dump None)) = Inr (WEBA_OK, Some c)"
    "startable c" "h_requested_sink c = ''''" "h_fixed_rate c"
    "mic_format_of c = \<lparr>mf_sample_rate = 48000, mf_channels = 2, mf_format = WEBA_SAMPLE_F32LE, mf_frame_samples = 960\<rparr>"
proof -
  let ?g = "configured (Some (dump_config sample_dump None))"
  have "config_supported (Some (dump_config sample_dump None))"
    by (simp add: config_supported_def dump_config_eq channels_supported_def bytes_per_sample_of_def)
  moreover have "size_mul 100 7680 = 768000" by (simp add: size_mod_def)
  ultimately obtain q where
    create: "weba_capture_create True True (\<lambda>_. True) (Some (dump_config sample_dump None)) =
      Inr (WEBA_OK, Some (?g\<lparr>h_queue := q\<rparr>))"
    by (simp add: create_eq dump_configured vector_max_size_def)
  show ?thesis
  proof (rule that [OF create])
    show "startable (?g\<lparr>h_queue := q\<rparr>)"
      by (rule create_startable [OF create]) (simp add: dump_configured)
    have "mic_format_of (?g\<lparr>h_queue := q\<rparr>) = mic_format_of ?g" by (simp add: mic_format_of_def)
    then show "mic_format_of (?g\<lparr>h_queue := q\<rparr>) = \<lparr>mf_sample_rate = 48000, mf_channels = 2,
        mf_format = WEBA_SAMPLE_F32LE, mf_frame_samples = 960\<rparr>" by (simp add: dump_configured)
  qed (simp_all add: dump_config_eq configured_def apply_config_def)
qed

text \<open>The two turns of the session: a frame after 21 ms of sleep, and the end.\<close>

definition sample_turn :: turn where
  "sample_turn = \<lparr>tn_before = True, tn_idle = [], tn_now = 0, tn_steps = map Inr (map dump_clock [0..<6]),
     tn_report = True\<rparr>"

definition sample_last_turn :: turn where
  "sample_last_turn = \<lparr>tn_before = False, tn_idle = [], tn_now = 0, tn_steps = [], tn_report = False\<rparr>"

lemma sample_dump_turns: "de_turns sample_dump = [sample_turn] @ [sample_last_turn]"
  by (simp add: sample_dump_def sample_turn_def sample_last_turn_def)

lemma sample_turn_sel:
  "tn_before sample_turn" "tn_now sample_turn = 0" "ends_reading (tn_steps sample_turn)"
  "rounds_of [] (tn_steps sample_turn) = map (Pair []) (map dump_clock [0..<6])"
  by (simp_all add: sample_turn_def upt_rec)

lemma sample_turn_served:
  assumes "s_clock s = 0" "\<not> h_deadline_valid (s_h s)"
    and F: "mic_format_of (s_h s) = \<lparr>mf_sample_rate = 48000, mf_channels = 2, mf_format = WEBA_SAMPLE_F32LE, mf_frame_samples = 960\<rparr>"
  shows "turn_served sample_turn s"
proof -
  have fmt: "h_sample_rate (s_h s) = 48000" "h_frame_samples (s_h s) = 960"
    using F by (simp_all add: mic_format_of_def)
  have per: "period_us 960 48000 = 20000" by (simp add: period_us_def)
  have us: "ns_to_us 20000000 = 20000" "ns_to_us 1000000000 = 1000000" by (simp_all add: ns_to_us_nonneg)
  let ?rs = "map (Pair ([] :: loop_in list)) (map dump_clock [0..<6])"
  have nth: "?rs ! 0 = ([], dump_clock 0)" "?rs ! 1 = ([], dump_clock 1)" "?rs ! 2 = ([], dump_clock 2)"
    by (simp_all add: upt_rec numeral_2_eq_2)
  have rs: "clock_runs 0 ?rs" "length ?rs = 6" by (simp_all add: upt_rec dump_clock_def)
  show ?thesis
    unfolding turn_served_def sample_turn_sel(2,4) Let_def nth
    using assms(1,2) rs sample_turn_sel(1,3)
    by (simp add: dump_clock_def due_at_def sleep_wait_def period_ns_def fmt per us us_to_ns_def ms_to_ns_def
        del: map_map)
qed

text \<open>The session up to the loop.\<close>

lemma sample_dump_started:
  obtains c c1 where
    "weba_capture_create True True (\<lambda>_. True) (Some (dump_config sample_dump None)) = Inr (WEBA_OK, Some c)"
    "weba_capture_start sample_start (Some c) = Inr (WEBA_OK, Some c1, Some (loop_start c1))"
    "recording (h_format_info c1) (dump_start (write_header (h_format_info c1) fopen_wb)
       (replicate (dump_frame_bytes (h_format_info c1)) 0), dump_system sample_dump c1)"
    "turn_served sample_turn (dump_system sample_dump c1)"
proof -
  obtain c where create: "weba_capture_create True True (\<lambda>_. True) (Some (dump_config sample_dump None)) = Inr (WEBA_OK, Some c)"
    and c: "startable c" "h_requested_sink c = ''''" "h_fixed_rate c"
      "mic_format_of c = \<lparr>mf_sample_rate = 48000, mf_channels = 2, mf_format = WEBA_SAMPLE_F32LE, mf_frame_samples = 960\<rparr>"
    by (rule sample_dump_created)
  have con: "connects (se_connect sample_start)"
    by (simp add: connects_def sample_start_def sample_connect_def)
  have sv: "serves (sample_server ''hdmi'') (se_resolve sample_start)"
    using sample_serves by (simp add: sample_start_def)
  have "resolve_spec (sample_server ''hdmi'') (h_requested_sink c) = Some (sample_target ''hdmi'')"
    by (simp add: c(2) resolve_spec_def sample_server_def sample_target_def)
  moreover have "se_spawn sample_start" "se_alloc sample_start n" for n by (simp_all add: sample_start_def)
  ultimately obtain c1 where
    start: "weba_capture_start sample_start (Some c) = Inr (WEBA_OK, Some c1, Some (loop_start c1))"
    using start_serves(4) [OF startable_new [OF c(1)] con sv] by blast
  note st = start_started [OF c(1) start] and cfg = start_config [OF start]
  let ?s = "dump_system sample_dump c1"
  have sh: "s_h ?s = c1" "s_read ?s = None" "s_clock ?s = 0"
    by (simp_all add: dump_system_def sys_of_def sample_dump_def)
  have "reachable served sys_step ?s"
    by (rule reach_init [of served, OF dump_system_served [OF c(1) start]])
  then have "recording (h_format_info c1) (dump_start (write_header (h_format_info c1) fopen_wb)
       (replicate (dump_frame_bytes (h_format_info c1)) 0), ?s)"
    using published_describes [OF st(2)] st(1) cfg(2) c(3)
    by (simp add: recording_def sh idle_def dump_start_def started_def)
  moreover have "turn_served sample_turn ?s"
    using st(1) cfg(1) c(4) by (intro sample_turn_served) (simp_all add: sh started_def)
  ultimately show ?thesis by (rule that [OF create start])
qed

lemma sample_turns_served:
  "turn_served sample_turn s \<Longrightarrow> turns_served info fb [sample_turn] (d, s)"
  by (simp split: option.split)

lemma sample_dump_session:
  obtains x d where "dump_main sample_dump ''out.wav'' None = Inr (Some x)" "dx_status x = 0"
    "dx_tally x = Some d" "du_frames d = 1"
proof -
  obtain c c1 where create: "weba_capture_create True True (\<lambda>_. True) (Some (dump_config sample_dump None)) = Inr (WEBA_OK, Some c)"
    and start: "weba_capture_start sample_start (Some c) = Inr (WEBA_OK, Some c1, Some (loop_start c1))"
    and rec: "recording (h_format_info c1) (dump_start (write_header (h_format_info c1) fopen_wb)
       (replicate (dump_frame_bytes (h_format_info c1)) 0), dump_system sample_dump c1)"
    and served: "turn_served sample_turn (dump_system sample_dump c1)"
    by (rule sample_dump_started)
  let ?s = "dump_system sample_dump c1" and ?info = "h_format_info c1"
  have "\<not> tn_before sample_last_turn" by (simp add: sample_last_turn_def)
  from served_turns_record [OF rec sample_turns_served [OF served] this] obtain d :: dump_state and s' where
    loop: "dump_loop ?info (dump_frame_bytes ?info) (de_turns sample_dump) (dump_start (write_header ?info fopen_wb)
       (replicate (dump_frame_bytes ?info) 0), ?s) = Some (d, s')"
    and d: "recording ?info (d, s')" "du_frames d = 1"
    by (auto simp: sample_dump_turns dump_start_def simp del: dump_loop.simps)
  have "10 \<le> length (de_stop sample_dump)" by (simp add: sample_dump_def)
  moreover have "reachable sys_init sys_step s'" using d(1) served_reach(1) by (simp add: recording_def)
  ultimately obtain lib where
    lib: "weba_capture_destroy (de_states sample_dump) (de_stop sample_dump) (de_waited sample_dump)
      (Some (s_loop s'), Some (s_h s')) = Inr (Some lib)" using destroy_returns by blast
  have env: "de_malloc sample_dump = (\<lambda>n. Some (replicate n 0))" "de_fopen sample_dump"
    "de_handle_ok sample_dump" "de_alloc_ok sample_dump = (\<lambda>_. True)" "de_start sample_dump = sample_start"
    "de_idle sample_dump = []" "de_clock sample_dump = 0"
    by (simp_all add: sample_dump_def)
  have sys: "\<lparr>s_h = c1, s_loop = loop_start c1, s_read = None, s_clock = 0, s_pushed = [], s_got = [],
      s_released = []\<rparr> = ?s" and sh: "s_h ?s = c1" "s_loop ?s = loop_start c1"
    by (simp_all add: dump_system_def sys_of_def env)
  have main: "dump_main sample_dump ''out.wav'' None =
      dump_record sample_dump ''out.wav'' [''webacapture '' @ weba_version_string] ?s"
    by (simp add: dump_main_def env create start sys Let_def)
  obtain x where x: "dump_record sample_dump ''out.wav'' [''webacapture '' @ weba_version_string] ?s = Inr (Some x)"
    "dx_status x = 0" "dx_tally x = Some d"
    using lib by (simp add: dump_record_def weba_capture_get_format_def env sh loop dump_leave_def Let_def)
  with d(2) show ?thesis unfolding main [symmetric] by (intro that)
qed

lemma sample_session_served: "session_served sample_dump"
proof -
  have "turn_served sample_turn s" if "s_clock s = de_clock sample_dump" "\<not> h_deadline_valid (s_h s)"
    "mic_format_of (s_h s) = \<lparr>mf_sample_rate = 48000, mf_channels = 2, mf_format = WEBA_SAMPLE_F32LE, mf_frame_samples = 960\<rparr>" for s
    using that by (intro sample_turn_served) (simp_all add: sample_dump_def)
  moreover have "10 \<le> length (de_stop sample_dump)" by (simp add: sample_dump_def)
  ultimately show ?thesis using sample_dump_malloc sample_turns_served
    by (simp add: session_served_def sample_dump_turns sample_last_turn_def del: turns_served.simps)
qed

end
