(* ===== verification/Self_Test.thy ===== *)
theory Self_Test
  imports Recorder
begin

text \<open>
  The self test of \<open>tests/webaudio_selftest.cpp\<close>: its \<open>main()\<close> over the model of the library. Its
  reads are calls on the running system, as in the recorder. The texts it prints are lines; the
  figures it prints from floating-point numbers are left out, but for the ratio in the name of one
  check, which is an input.
\<close>

subsection \<open>Checks\<close>

text \<open>\<open>g_failures\<close> and what has been printed.\<close>

record test_state =
  ts_failures :: int
  ts_out :: "string list"

definition say :: "string \<Rightarrow> test_state \<Rightarrow> test_state" where
  "say line ts = ts\<lparr>ts_out := ts_out ts @ [line]\<rparr>"

definition check :: "bool \<Rightarrow> string \<Rightarrow> test_state \<Rightarrow> test_state" where
  "check condition what ts =
     (let ts = say ((if condition then ''  ok  '' else ''FAIL  '') @ '' '' @ what) ts
      in if \<not> condition then ts\<lparr>ts_failures := ts_failures ts + 1\<rparr> else ts)"

text \<open>A call that has not returned, or a loop whose turns have run out, leaves the program running.\<close>

definition wait_bind :: "'a option outcome \<Rightarrow> ('a \<Rightarrow> 'b option outcome) \<Rightarrow> 'b option outcome" where
  "wait_bind m f = sum_bind m (\<lambda>r. case r of None \<Rightarrow> Inr None | Some x \<Rightarrow> f x)"

definition int_dec :: "int \<Rightarrow> string" where
  "int_dec n = (if n < 0 then ''-'' @ nat_dec (nat (- n)) else nat_dec (nat n))"

subsection \<open>What the surroundings answer\<close>

text \<open>
  The contents of an uninitialised configuration; the allocations of each creation, which are
  numbered; the states seen from within a disconnection; the server, for the handle under test and
  for the one with a bad sink; the capture thread's steps between the looks at the handle, which are
  numbered too; the clock; the reads; and the end, as for \<open>weba_capture_stop\<close>. A read is a turn, as
  in the recorder, of which the comparisons are not used.
\<close>

record test_env =
  te_uninit :: weba_config
  te_handle_ok :: "nat \<Rightarrow> bool"
  te_alloc_ok :: "nat \<Rightarrow> nat \<Rightarrow> bool"
  te_states :: "pa_context_state list"
  te_early :: ns
  te_start :: start_env
  te_bad :: start_env
  te_idle :: "nat \<Rightarrow> loop_in list"
  te_small :: ns
  te_started :: ns
  te_reads :: "turn list"
  te_ended :: ns
  te_ratio :: string
  te_stop :: "loop_in list"
  te_waited :: int

definition test_config :: "test_env \<Rightarrow> weba_config" where
  "test_config e = (case weba_config_defaults (Some (te_uninit e)) of None \<Rightarrow> te_uninit e | Some cfg \<Rightarrow> cfg)"

definition last_error_text :: "weba_capture option \<Rightarrow> string" where
  "last_error_text capture = (case weba_capture_last_error capture '''' of (p, buffer) \<Rightarrow> read_ptr p buffer)"

subsection \<open>Before a server is contacted\<close>

definition read_channel_count_with :: "test_env \<Rightarrow> nat \<Rightarrow> u32 \<Rightarrow> int option outcome" where
  "read_channel_count_with e k channels =
     sum_bind (weba_capture_create True (te_handle_ok e k) (te_alloc_ok e k)
         (Some ((test_config e)\<lparr>cfg_channels := channels\<rparr>))) (\<lambda>(status, capture).
       if capture = None then Inr (Some status)
       else wait_bind (weba_capture_destroy (te_states e) [] 0 (None, capture)) (\<lambda>_. Inr (Some status)))"

definition test_channels :: "test_env \<Rightarrow> nat \<Rightarrow> u32 \<Rightarrow> int \<Rightarrow> string \<Rightarrow> test_state \<Rightarrow> test_state option outcome" where
  "test_channels e k channels expected what ts =
     wait_bind (read_channel_count_with e k channels) (\<lambda>status.
       Inr (Some (check (status = expected) what ts)))"

definition test_texts :: "test_env \<Rightarrow> test_state option outcome" where
  "test_texts e =
     (let ts = say (''webacapture selftest, library '' @ weba_version_string) \<lparr>ts_failures = 0, ts_out = []\<rparr>;
          ts = check (length weba_version_string > 0) ''version string is not empty'' ts;
          ts = check (weba_strerror WEBA_OK = ''success'') ''strerror(WEBA_OK)'' ts in
      wait_bind (test_channels e 0 1 WEBA_OK ''1 channel is accepted'' ts) (\<lambda>ts.
      wait_bind (test_channels e 1 2 WEBA_OK ''2 channels are accepted'' ts) (\<lambda>ts.
      wait_bind (test_channels e 2 6 WEBA_OK ''6 channels are accepted'' ts) (\<lambda>ts.
      wait_bind (test_channels e 3 8 WEBA_OK ''8 channels are accepted'' ts) (\<lambda>ts.
      test_channels e 4 3 WEBA_ERR_FORMAT ''3 channels are rejected'' ts)))))"

definition test_defaults :: "weba_config \<Rightarrow> test_state \<Rightarrow> test_state" where
  "test_defaults cfg ts =
     (let ts = check (cfg_sample_rate cfg = 48000) ''default sample rate is 48000'' ts;
          ts = check (cfg_channels cfg = 2) ''default channel count is 2'' ts;
          ts = check (cfg_format cfg = WEBA_SAMPLE_F32LE) ''default format is float32'' ts;
          ts = check (cfg_frame_samples cfg = 960) ''default frame size is 960 samples (20 ms)'' ts
      in check (cfg_fixed_rate cfg = 1) ''fixed-rate output is on by default'' ts)"

text \<open>A \<open>std::vector<float>\<close> of one frame, as bytes.\<close>

definition test_scratch :: "weba_config \<Rightarrow> byte list" where
  "test_scratch cfg = replicate (4 * unat (cfg_frame_samples cfg * cfg_channels cfg)) 0"

text \<open>A read on a handle that has not been started returns at its entry, or not at all.\<close>

definition test_early_read :: "test_env \<Rightarrow> weba_config \<Rightarrow> weba_capture option \<Rightarrow> test_state \<Rightarrow> test_state option outcome" where
  "test_early_read e cfg capture ts =
     sum_bind (read_frame_entry capture (Some (test_scratch cfg)) (cfg_frame_samples cfg) None 0 (te_early e)) (\<lambda>r.
       Inr (case rd_pc r of
              RReturn status \<Rightarrow> Some (check (status = WEBA_ERR_STATE) ''read before start is refused'' ts)
            | _ \<Rightarrow> None))"

subsection \<open>A sink that does not exist\<close>

text \<open>A start that should have failed but did not leaves a thread, which the destruction joins.\<close>

definition test_bad_sink :: "test_env \<Rightarrow> test_state \<Rightarrow> test_state option outcome" where
  "test_bad_sink e ts =
     sum_bind (weba_capture_create True (te_handle_ok e 6) (te_alloc_ok e 6)
         (Some ((test_config e)\<lparr>cfg_sink := Some ''no-such-sink-webaudio-selftest''\<rparr>))) (\<lambda>(create_status, handle).
     sum_bind (if create_status = WEBA_OK then weba_capture_start (te_bad e) handle
               else Inr (create_status, handle, None)) (\<lambda>(start_status, handle, thread).
       let ts = check (create_status = WEBA_OK \<and> start_status = WEBA_ERR_PULSE)
                  ''an unknown sink name fails at start, not silently'' ts;
           ts = check (handle \<noteq> None \<and> length (last_error_text handle) > 0) ''the failure carries a message'' ts
       in if handle = None then Inr (Some ts)
          else wait_bind (weba_capture_destroy (te_states e) (te_stop e) (te_waited e) (thread, handle)) (\<lambda>_.
                 Inr (Some ts))))"

subsection \<open>The live checks\<close>

definition contains_text :: "string \<Rightarrow> string \<Rightarrow> bool" where
  "contains_text pat s \<longleftrightarrow> list_ex (\<lambda>n. take (length pat) (drop n s) = pat) [0..<Suc (length s)]"

definition test_format :: "weba_config \<Rightarrow> int \<Rightarrow> weba_format_info \<Rightarrow> test_state \<Rightarrow> test_state" where
  "test_format cfg status info ts =
     (let ts = check (status = WEBA_OK) ''get_format succeeds'' ts;
          ts = say (''        sink='' @ fi_sink_name info @ '' monitor='' @ fi_monitor_name info) ts;
          ts = check (fi_sample_rate info = cfg_sample_rate cfg) ''reported rate matches the request'' ts;
          ts = check (fi_channels info = cfg_channels cfg) ''reported channel count matches the request'' ts;
          ts = check (fi_frame_samples info = cfg_frame_samples cfg) ''reported frame size matches the request'' ts;
          ts = check (length (fi_monitor_name info) > 0) ''a monitor source was resolved'' ts
      in check (contains_text ''.monitor'' (fi_monitor_name info)) ''the resolved source is a monitor'' ts)"

text \<open>The call must be refused at its entry: a buffer of less than a frame is never written.\<close>

definition test_small_read :: "test_env \<Rightarrow> weba_config \<Rightarrow> test_state \<times> sys \<Rightarrow> (test_state \<times> sys) option" where
  "test_small_read e cfg x =
     (let (ts, s) = x in
      Option.bind (sys_next (Call (test_scratch cfg) (cfg_frame_samples cfg - 1) None 0 (te_small e)) s) (\<lambda>s.
        map_option (\<lambda>(status, _, _).
          (check (status = WEBA_ERR_INVAL) ''an undersized destination is refused'' ts, s)) (call_result s)))"

record read_tally =
  rt_silent :: nat
  rt_gaps :: nat
  rt_index :: nat

definition tally_frame :: "weba_frame_info \<Rightarrow> read_tally \<Rightarrow> read_tally" where
  "tally_frame frame k =
     (let k = (if has_flag (fr_flags frame) WEBA_FRAME_SILENCE then k\<lparr>rt_silent := rt_silent k + 1\<rparr> else k);
          k = (if has_flag (fr_flags frame) WEBA_FRAME_DISCONTINUITY then k\<lparr>rt_gaps := rt_gaps k + 1\<rparr> else k)
      in k\<lparr>rt_index := rt_index k + 1\<rparr>)"

text \<open>
  \<open>read_frames()\<close>, from one frame on: \<open>None\<close> when the turns have run out. The call is that of the
  recorder, whose timeout is a second too.
\<close>

fun read_frames ::
  "weba_format_info \<Rightarrow> nat \<Rightarrow> turn list \<Rightarrow> byte list \<Rightarrow> read_tally \<Rightarrow> test_state \<times> sys \<Rightarrow>
   (read_tally \<times> test_state \<times> sys) option" where
  "read_frames info count [] buffer k x = (if rt_index k < count then None else Some (k, x))"
| "read_frames info count (t # turns) buffer k x =
     (if rt_index k < count
      then Option.bind (sys_run (map Capture (tn_idle t)) (snd x)) (\<lambda>s.
           Option.bind (dump_read info buffer t s) (\<lambda>((status, buffer, frame), s).
             if status \<noteq> 1
             then Some (k, check False (''read_frame returned '' @ int_dec status @ '' at frame '' @
                    nat_dec (rt_index k) @ '' of '' @ nat_dec count) (fst x), s)
             else read_frames info count turns buffer (tally_frame frame k) (fst x, s)))
      else Some (k, x))"

text \<open>
  The test of the ratio of \<open>elapsed\<close> to the duration expected of \<open>count\<close> frames, in exact arithmetic.
  With the default configuration the duration is one second, which a \<open>double\<close> holds exactly, so the
  comparisons of the code come out alike for every number of nanoseconds.
\<close>

definition cadence_matches :: "weba_config \<Rightarrow> nat \<Rightarrow> ns \<Rightarrow> bool" where
  "cadence_matches cfg count elapsed \<longleftrightarrow>
     (let expected = int count * uint (cfg_frame_samples cfg) * 1000000000;
          actual = elapsed * uint (cfg_sample_rate cfg)
      in 0 < expected \<and> 90 * expected < 100 * actual \<and> 100 * actual < 115 * expected)"

definition frame_count :: nat where
  "frame_count = 50"

text \<open>The frames, their cadence and their flags.\<close>

definition test_reads ::
  "test_env \<Rightarrow> weba_config \<Rightarrow> weba_format_info \<Rightarrow> test_state \<times> sys \<Rightarrow> (read_tally \<times> test_state \<times> sys) option" where
  "test_reads e cfg info x =
     map_option (\<lambda>(k, ts, s).
       let ts = check (rt_index k = frame_count) ''every frame was delivered'' ts;
           ts = check (cadence_matches cfg frame_count (te_ended e - te_started e))
                  (''frame cadence matches the audio clock (ratio '' @ te_ratio e @ '')'') ts
       in (k, check (rt_gaps k = 0) ''no spurious discontinuities on a healthy first run'' ts, s))
       (read_frames info frame_count (te_reads e) (replicate (dump_frame_bytes info) 0)
          \<lparr>rt_silent = 0, rt_gaps = 0, rt_index = 0\<rparr> x)"

subsection \<open>The program\<close>

text \<open>The exit status, the state of the checks, the tally of the reads, and the library.\<close>

record test_end =
  tx_status :: int
  tx_state :: test_state
  tx_tally :: "read_tally option"
  tx_lib :: "loop_state option \<times> weba_capture option"

definition test_finish ::
  "test_env \<Rightarrow> read_tally \<Rightarrow> test_state \<Rightarrow> loop_state option \<times> weba_capture option \<Rightarrow> test_end option outcome" where
  "test_finish e k ts lib =
     wait_bind (weba_capture_stop (te_states e) (te_stop e) (te_waited e) lib) (\<lambda>lib.
       let ts = check (weba_capture_is_running (snd lib) = 0) ''stop clears the running flag'' ts in
     wait_bind (weba_capture_stop (te_states e) [] (te_waited e) lib) (\<lambda>lib.
       let ts = check (weba_capture_is_running (snd lib) = 0) ''stop is idempotent'' ts in
     wait_bind (weba_capture_destroy (te_states e) [] (te_waited e) lib) (\<lambda>lib.
       let ts = say ''destroy returned cleanly'' ts in
       Inr (Some (if ts_failures ts > 0
         then \<lparr>tx_status = 1, tx_state = say (int_dec (ts_failures ts) @ '' failure(s)'') ts, tx_tally = Some k,
               tx_lib = lib\<rparr>
         else \<lparr>tx_status = 0, tx_state = say ''all checks passed'' ts, tx_tally = Some k, tx_lib = lib\<rparr>)))))"

definition test_live :: "test_env \<Rightarrow> weba_config \<Rightarrow> test_state \<Rightarrow> sys \<Rightarrow> test_end option outcome" where
  "test_live e cfg ts s =
     wait_bind (Inr (sys_run (map Capture (te_idle e 0)) s)) (\<lambda>s.
       let ts = check (weba_capture_is_running (Some (s_h s)) = 1) ''handle reports running'' ts in
     wait_bind (test_bad_sink e ts) (\<lambda>ts.
     wait_bind (Inr (sys_run (map Capture (te_idle e 1)) s)) (\<lambda>s.
       case weba_capture_get_format (Some (s_h s)) True of
         (_, None) \<Rightarrow> Inr None
       | (status, Some info) \<Rightarrow>
           wait_bind (Inr (sys_run (map Capture (te_idle e 2)) s)) (\<lambda>s.
           wait_bind (Inr (test_small_read e cfg (test_format cfg status info ts, s))) (\<lambda>x.
           wait_bind (Inr (test_reads e cfg info x)) (\<lambda>(k, ts, s).
           wait_bind (Inr (sys_run (map Capture (te_idle e 3)) s)) (\<lambda>s.
             test_finish e k ts (Some (s_loop s), Some (s_h s)))))))))"

definition selftest_main :: "test_env \<Rightarrow> test_end option outcome" where
  "selftest_main e =
     wait_bind (test_texts e) (\<lambda>ts.
       let cfg = test_config e; ts = test_defaults cfg ts in
     sum_bind (weba_capture_create True (te_handle_ok e 5) (te_alloc_ok e 5) (Some cfg)) (\<lambda>(status, capture).
       let ts = check (status = WEBA_OK) ''create with defaults'' ts;
           ts = check (capture \<noteq> None) ''handle was returned'' ts;
           ts = check (weba_capture_is_running capture = 0) ''a fresh handle is not running'' ts in
     wait_bind (test_early_read e cfg capture ts) (\<lambda>ts.
     sum_bind (weba_capture_start (te_start e) capture) (\<lambda>(start_status, capture, thread).
       let ts = check (start_status = WEBA_OK)
                  (''start: '' @ weba_strerror start_status @ '' ('' @ last_error_text capture @ '')'') ts in
       if start_status \<noteq> WEBA_OK
       then let ts = say (int_dec (ts_failures ts) @ '' failure(s); no audio server, skipping the live checks'') ts in
            wait_bind (weba_capture_destroy (te_states e) (te_stop e) (te_waited e) (thread, capture)) (\<lambda>lib.
              Inr (Some \<lparr>tx_status = 1, tx_state = ts, tx_tally = None, tx_lib = lib\<rparr>))
       else case (capture, thread) of
         (Some c, Some l) \<Rightarrow>
           test_live e cfg ts \<lparr>s_h = c, s_loop = l, s_read = None, s_clock = te_early e, s_pushed = [],
             s_got = [], s_released = []\<rparr>
       | _ \<Rightarrow> Inr None))))"

end
