(* ===== verification/Self_Test_Run.thy ===== *)
theory Self_Test_Run
  imports Self_Test Recorder_Progress
begin

text \<open>
  A run of the self test against a server that connects and answers: every check passes but the two
  on the timing of the run, whose outcome is stated in terms of the clock and of the flags.
\<close>

subsection \<open>Checks\<close>

lemma failures_say [simp]: "ts_failures (say line ts) = ts_failures ts"
  by (simp add: say_def)

lemma failures_check [simp]: "ts_failures (check c what ts) = ts_failures ts + (if c then 0 else 1)"
  by (simp add: check_def Let_def)

lemma wait_bind_simps [simp]:
  "wait_bind (Inr (Some x)) f = f x" "wait_bind (Inr None) f = Inr None" "wait_bind (Inl e) f = Inl e"
  by (simp_all add: wait_bind_def)

subsection \<open>Handles that are created and destroyed\<close>

lemma test_config_eq:
  "test_config e = \<lparr>cfg_sample_rate = 48000, cfg_channels = 2, cfg_format = WEBA_SAMPLE_F32LE,
     cfg_frame_samples = 960, cfg_sink = None, cfg_ring_frames = 100, cfg_fixed_rate = 1,
     cfg_sink_recheck_ms = 1000\<rparr>"
  by (simp add: test_config_def weba_config_defaults_def default_defs)

text \<open>A creation whose allocations succeed.\<close>

lemma create_succeeds:
  assumes "config_supported cfg" "\<And>n. alloc_ok n"
    and "unat (h_queue_frames (configured cfg)) * frame_bytes (configured cfg) \<le> vector_max_size"
  obtains c where "weba_capture_create True True alloc_ok cfg = Inr (WEBA_OK, Some c)" "startable c"
    "c = (configured cfg)\<lparr>h_queue := h_queue c\<rparr>"
proof -
  have small: "unat (h_queue_frames (configured cfg)) * frame_bytes (configured cfg) < 2 ^ 64"
    using assms(3) by (simp add: vector_max_size_def)
  then have "size_mul (unat (h_queue_frames (configured cfg))) (frame_bytes (configured cfg)) =
      unat (h_queue_frames (configured cfg)) * frame_bytes (configured cfg)" by (simp add: size_mod_def)
  with assms obtain c where c: "weba_capture_create True True alloc_ok cfg = Inr (WEBA_OK, Some c)"
    by (simp add: create_eq Let_def)
  show ?thesis by (rule that [OF c create_startable [OF c small] create_wf(5) [OF c small]])
qed

lemma destroy_unthreaded:
  assumes "\<not> h_thread c" "\<not> h_thread_abandoned c"
  shows "weba_capture_destroy sts is w (lo, Some c) = Inr (Some (lo, None))"
  using assms
  by (simp add: weba_capture_destroy_eq weba_capture_stop_def stop_finish_def)

lemma start_fails_unthreaded:
  assumes "weba_capture_start e (Some c) = Inr (st, Some c', lo)" "\<not> h_running c" "st \<noteq> WEBA_OK"
  shows "h_thread c' = h_thread c" "h_thread_abandoned c' = h_thread_abandoned c"
  using assms
  by (auto simp: weba_capture_start_def Let_def sum_bind_eq_Inr set_error_def
      split: if_splits prod.splits option.splits)

lemma probe_status:
  assumes "te_handle_ok e k" "\<And>n. te_alloc_ok e k n" "channels \<in> {1, 2, 3, 6, 8}"
  shows "read_channel_count_with e k channels = Inr (Some (if channels = 3 then WEBA_ERR_FORMAT else WEBA_OK))"
proof -
  let ?cfg = "Some ((test_config e)\<lparr>cfg_channels := channels\<rparr>)"
  have sup: "config_supported ?cfg \<longleftrightarrow> channels \<noteq> 3"
    using assms(3) by (auto simp: config_supported_def test_config_eq channels_supported_def bytes_per_sample_of_def)
  show ?thesis
  proof (cases "channels = 3")
    case True
    with sup assms(1) show ?thesis by (simp add: read_channel_count_with_def create_eq)
  next
    case False
    have fb: "frame_bytes (configured ?cfg) = 960 * unat channels * 4" "h_queue_frames (configured ?cfg) = 100"
      using assms(3) False
      by (auto simp: frame_bytes_def configured_def apply_config_def test_config_eq or_default_def size_mod_def)
    obtain c where "weba_capture_create True True (te_alloc_ok e k) ?cfg = Inr (WEBA_OK, Some c)" "startable c"
      by (rule create_succeeds [of ?cfg "te_alloc_ok e k"])
        (use sup False assms(2,3) in \<open>auto simp: fb vector_max_size_def\<close>)
    with assms(1) False show ?thesis
      by (simp add: read_channel_count_with_def destroy_unthreaded startable_def)
  qed
qed

lemma test_texts_pass:
  assumes "\<And>k. te_handle_ok e k" "\<And>k n. te_alloc_ok e k n"
  obtains ts where "test_texts e = Inr (Some ts)" "ts_failures ts = 0"
proof -
  have "\<exists>ts. test_texts e = Inr (Some ts) \<and> ts_failures ts = 0"
    using probe_status [OF assms] 
    by (simp add: test_texts_def test_channels_def weba_version_string_def weba_strerror_def Let_def)
  with that show ?thesis by blast
qed

lemma test_defaults_pass: "ts_failures (test_defaults (test_config e) ts) = ts_failures ts"
  by (simp add: test_defaults_def test_config_eq Let_def)

subsection \<open>A sink that does not exist\<close>

lemma last_error_shown: "last_error_text (Some c) = c_str (h_error c)"
  by (simp add: last_error_text_def weba_capture_last_error_def read_ptr_def get_error_def)

lemma bad_sink_passes:
  assumes alloc: "te_handle_ok e 6" "\<And>n. te_alloc_ok e 6 n"
    and con: "connects (se_connect (te_bad e))" and sv: "serves sv (se_resolve (te_bad e))"
    and none: "resolve_spec sv ''no-such-sink-webaudio-selftest'' = None"
  obtains ts' where "test_bad_sink e ts = Inr (Some ts')" "ts_failures ts' = ts_failures ts"
proof -
  let ?sink = "''no-such-sink-webaudio-selftest''"
  let ?cfg = "Some ((test_config e)\<lparr>cfg_sink := Some ?sink\<rparr>)"
  have sup: "config_supported ?cfg"
    by (simp add: config_supported_def test_config_eq channels_supported_def bytes_per_sample_of_def)
  have fb: "frame_bytes (configured ?cfg) = 7680" "h_queue_frames (configured ?cfg) = 100"
    "h_requested_sink (configured ?cfg) = ?sink"
    by (simp_all add: frame_bytes_def configured_def apply_config_def test_config_eq or_default_def size_mod_def)
  obtain c where c: "weba_capture_create True True (te_alloc_ok e 6) ?cfg = Inr (WEBA_OK, Some c)" "startable c"
    "c = (configured ?cfg)\<lparr>h_queue := h_queue c\<rparr>"
    by (rule create_succeeds [OF sup alloc(2)]) (simp add: fb vector_max_size_def)
  have req: "h_requested_sink c = ?sink" by (subst c(3)) (simp add: fb)
  have nr: "\<not> h_running c" "\<not> h_thread c" "\<not> h_thread_abandoned c" using c(2) by (simp_all add: startable_def)
  from start_serves(1) [OF startable_new [OF c(2)] con sv] req none obtain c' where
    start: "weba_capture_start (te_bad e) (Some c) = Inr (WEBA_ERR_PULSE, Some c', None)" by auto
  have fail: "WEBA_ERR_PULSE \<noteq> WEBA_OK" by (simp add: status_defs)
  have "\<not> h_thread c'" "\<not> h_thread_abandoned c'" "last_error_text (Some c') \<noteq> []"
    using start_fails_unthreaded [OF start nr(1) fail] start_fails(2) [OF start nr(1) fail] nr
    by (simp_all add: last_error_shown)
  with alloc(1) c(1) start have "\<exists>ts'. test_bad_sink e ts = Inr (Some ts') \<and> ts_failures ts' = ts_failures ts"
    by (simp add: test_bad_sink_def destroy_unthreaded Let_def)
  with that show ?thesis by blast
qed

subsection \<open>The names that the format reports\<close>

text \<open>Against one server the thread only ever publishes the target that the start has published.\<close>

definition names :: "target_t \<Rightarrow> loop_state \<Rightarrow> weba_capture \<Rightarrow> bool" where
  "names t l c \<longleftrightarrow> h_requested_sink c = [] \<and> fi_monitor_name (h_format_info c) = fixed_name (tg_monitor t) \<and>
     (\<forall>t'. lp_pc l = LPublish t' \<longrightarrow> t' = t)"

lemma resolve_served:
  assumes "serves sv e" "resolve_target e req c = (c', Some t')"
  shows "resolve_spec sv req = Some t'"
proof -
  have "control_ready c" using assms(2) resolve_unready [of c e req] by (cases "control_ready c") auto
  moreover have "ct_ctx c" using assms(2) by (auto simp: resolve_target_def split: if_splits)
  ultimately show ?thesis using resolve_target_serves [OF assms(1), of c req] assms(2) by simp
qed

lemma names_step:
  assumes "names t l c" "serves sv (li_resolve i)" "resolve_spec sv [] = Some t"
    and step: "loop_step i (l, c) = Inr (l', c')"
  shows "names t l' c'"
proof (cases "lp_pc l")
  case LResolve
  with assms show ?thesis
    by (auto simp: names_def loop_step_def step_resolve_def set_error_def dest: resolve_served
        split: prod.splits option.splits)
next
  case (LPublish t')
  with assms show ?thesis by (auto simp: names_def loop_step_def publish_format_def)
qed (use assms in \<open>auto simp: names_def loop_steps sum_bind_eq_Inr
      split: prod.splits option.splits sum.splits if_splits\<close>)

lemma names_run:
  "sys_run (map Capture is) s = Some u \<Longrightarrow> names t (s_loop s) (s_h s) \<Longrightarrow> resolve_spec sv [] = Some t \<Longrightarrow>
     \<forall>i\<in>set is. serves sv (li_resolve i) \<Longrightarrow> names t (s_loop u) (s_h u)"
proof (induction "is" arbitrary: s)
  case (Cons i "is")
  then obtain v where v: "sys_next (Capture i) s = Some v" "sys_run (map Capture is) v = Some u"
    by (auto simp: Option.bind_eq_Some_conv)
  have "loop_step i (s_loop s, s_h s) = Inr (s_loop v, s_h v)"
    using sys_next_step [OF v(1)] by (auto elim!: sys_captureE)
  with names_step [of t "s_loop s" "s_h s" sv i] Cons.prems have "names t (s_loop v) (s_h v)" by simp
  from Cons.IH [OF v(2) this Cons.prems(3)] Cons.prems(4) show ?case by simp
qed simp

subsection \<open>When the frames are released\<close>

text \<open>
  From a time \<open>T\<close> on, before which no deadline was set, the first frame is due a period after \<open>T\<close> at
  the earliest, and what has been released lies in the past.
\<close>

definition released_since :: "ns \<Rightarrow> (ns \<times> ns) list \<Rightarrow> weba_capture \<Rightarrow> ns \<Rightarrow> bool" where
  "released_since T rel c clk \<longleftrightarrow> (\<forall>x\<in>set rel. snd x \<le> clk) \<and>
     (if rel = [] then h_deadline_valid c \<longrightarrow> T + period_ns c \<le> h_next_deadline c
      else T + period_ns c \<le> fst (hd rel))"

text \<open>A call at fixed rate releases one frame exactly when it returns 1.\<close>

definition release_note :: "nat \<Rightarrow> (ns \<times> ns) list \<Rightarrow> read_state \<Rightarrow> bool" where
  "release_note n rel r \<longleftrightarrow>
     (case rd_pc r of
        RReturn st \<Rightarrow> length rel = n + (if st = 1 then 1 else 0)
      | RPopWait _ \<Rightarrow> False
      | RInfo \<Rightarrow> False
      | _ \<Rightarrow> length rel = n)"

lemma release_note_step:
  assumes "h_fixed_rate c" "release_note n rel r" "read_step i (r, c) = Inr (r', c')"
  shows "release_note n (rel @ newly_released r c (ri_now i)) r'"
  using assms
  by (cases "rd_pc r")
    (auto simp: read_steps release_note_def newly_released_def sum_bind_eq_Inr WEBA_ERR_STATE_def
      split: option.splits if_splits)

lemma released_since_step:
  assumes inv: "read_inv r c" and aw: "awaited r c clk" and now: "clk \<le> ri_now i" "T \<le> clk"
    and rel: "released_since T rel c clk" and step: "read_step i (r, c) = Inr (r', c')"
  shows "released_since T (rel @ newly_released r c (ri_now i)) c' (ri_now i)"
proof -
  from read_step_inv [OF inv, of i] step have "mic_format_of c' = mic_format_of c"
    by (auto simp: read_frame_rel_def)
  then have p: "period_ns c' = period_ns c" by (simp add: period_ns_def mic_format_of_def)
  have per: "us_to_ns (rd_period r) = period_ns c" using inv by (simp add: read_inv_def period_ns_def)
  have past: "\<forall>x\<in>set rel. snd x \<le> ri_now i" using rel now(1) by (auto simp: released_since_def)
  show ?thesis unfolding released_since_def p
    using step rel now past aw per
    by (cases "rd_pc r")
      (auto simp: read_step_def step_top_def step_after_def step_info_def released_since_def awaited_def
        past_due_def newly_released_def Let_def
        dest!: step_pop_deadline step_flags_deadline split: if_splits option.splits)
qed

text \<open>The two together, over the steps of a call.\<close>

definition releasing :: "ns \<Rightarrow> nat \<Rightarrow> sys \<Rightarrow> bool" where
  "releasing T n s \<longleftrightarrow> h_fixed_rate (s_h s) \<and> T \<le> s_clock s \<and>
     released_since T (s_released s) (s_h s) (s_clock s) \<and>
     (case s_read s of None \<Rightarrow> length (s_released s) = n | Some r \<Rightarrow> release_note n (s_released s) r)"

lemma releasing_step:
  assumes reach: "reachable sys_init sys_step s" and rel: "releasing T n s" and step: "sys_step s (thread_act x) t"
  shows "releasing T n t"
proof (cases x)
  case (Inl i)
  have safe: "sys_safe s" using cad.both.invariant [OF reach] by simp
  from step Inl obtain l' c' where st: "loop_step i (s_loop s, s_h s) = Inr (l', c')" "s_h t = c'"
    "s_read t = s_read s" "s_released t = s_released s" "s_clock t = s_clock s"
    by (auto simp: thread_act_def elim!: sys_captureE)
  have "loop_inv (s_loop s) (s_h s)" using safe by (simp add: sys_safe_def)
  from loop_step_inv [OF this, of i] st(1) have fr: "loop_frame (s_h s) c'" by auto
  then have "period_ns c' = period_ns (s_h s)" by (simp add: loop_frame_def period_ns_def mic_format_of_def)
  moreover have "h_fixed_rate c' = h_fixed_rate (s_h s)" "h_next_deadline c' = h_next_deadline (s_h s)"
    "h_deadline_valid c' = h_deadline_valid (s_h s)" using fr by (simp_all add: loop_frame_def)
  ultimately show ?thesis using rel st(2-) by (simp add: releasing_def released_since_def split: option.splits)
next
  case (Inr i)
  have safe: "sys_safe s" "cadenced s" using cad.both.invariant [OF reach] by simp_all
  from step Inr obtain r r' c' where st: "s_read s = Some r" "s_clock s \<le> ri_now i"
    "read_step i (r, s_h s) = Inr (r', c')" "s_read t = Some r'" "s_h t = c'" "s_clock t = ri_now i"
    "s_released t = s_released s @ newly_released r (s_h s) (ri_now i)"
    by (auto simp: thread_act_def elim!: sys_consumeE)
  show ?thesis
  proof (cases "\<exists>k. rd_pc r = RReturn k")
    case True
    then have "r' = r" "c' = s_h s" "newly_released r (s_h s) (ri_now i) = []"
      using st(3) by (auto simp: read_step_def newly_released_def)
    with rel st show ?thesis by (auto simp: releasing_def released_since_def)
  next
    case False
    have aw: "awaited r (s_h s) (s_clock s)" using safe(2) st(1) by (simp add: cadenced_def)
    have "h_fixed_rate c'" using sys_step_keeps [OF safe(1) step] rel st(5) by (simp add: releasing_def)
    with released_since_step [OF sys_consume_inv [OF safe(1) st(1) False] aw st(2) _ _ st(3), of T "s_released s"]
      release_note_step [OF _ _ st(3), of n "s_released s"] rel st show ?thesis
      by (simp add: releasing_def)
  qed
qed

lemma releasing_run:
  "sys_run (map thread_act xs) s = Some t \<Longrightarrow> reachable sys_init sys_step s \<Longrightarrow> releasing T n s \<Longrightarrow> releasing T n t"
proof (induction xs arbitrary: s)
  case (Cons x xs)
  then obtain u where u: "sys_next (thread_act x) s = Some u" "sys_run (map thread_act xs) u = Some t"
    by (auto simp: Option.bind_eq_Some_conv)
  note step = sys_next_step [OF u(1)]
  from Cons.IH [OF u(2) reach_step [OF Cons.prems(2) step]] releasing_step [OF Cons.prems(2,3) step]
  show ?case .
qed simp

subsection \<open>The reads\<close>

text \<open>All of a turn's looks at the clock lie between two times.\<close>

definition turn_between :: "ns \<Rightarrow> ns \<Rightarrow> turn \<Rightarrow> bool" where
  "turn_between T E t \<longleftrightarrow> T \<le> tn_now t \<and> tn_now t \<le> E \<and>
     (\<forall>x\<in>set (tn_steps t). case x of Inl _ \<Rightarrow> True | Inr i \<Rightarrow> ri_now i \<le> E)"

fun reads_served :: "weba_format_info \<Rightarrow> turn list \<Rightarrow> byte list \<Rightarrow> sys \<Rightarrow> bool" where
  "reads_served info [] buffer s = True"
| "reads_served info (t # ts) buffer s =
     (turn_served t s \<and>
      (case Option.bind (sys_run (map Capture (tn_idle t)) s) (dump_read info buffer t) of
         None \<Rightarrow> True
       | Some ((_, buffer, _), s') \<Rightarrow> reads_served info ts buffer s'))"

text \<open>The system between two reads.\<close>

definition test_at :: "weba_format_info \<Rightarrow> ns \<Rightarrow> ns \<Rightarrow> nat \<Rightarrow> sys \<Rightarrow> bool" where
  "test_at info T E n s \<longleftrightarrow> reachable served sys_step s \<and> idle (s_read s) \<and>
     \<not> h_stop_requested (s_h s) \<and> h_fixed_rate (s_h s) \<and> describes info (mic_format_of (s_h s)) \<and>
     h_thread (s_h s) \<and> \<not> h_thread_abandoned (s_h s) \<and>
     released_since T (s_released s) (s_h s) (s_clock s) \<and> length (s_released s) = n \<and> s_clock s \<le> E"

lemma run_clock:
  "sys_run (map thread_act xs) s = Some t \<Longrightarrow> s_clock s \<le> E \<Longrightarrow>
     \<forall>x\<in>set xs. case x of Inl _ \<Rightarrow> True | Inr i \<Rightarrow> ri_now i \<le> E \<Longrightarrow> s_clock t \<le> E"
proof (induction xs arbitrary: s)
  case (Cons x xs)
  then obtain u where u: "sys_next (thread_act x) s = Some u" "sys_run (map thread_act xs) u = Some t"
    by (auto simp: Option.bind_eq_Some_conv)
  have "s_clock u \<le> E" using sys_next_step [OF u(1)] Cons.prems(2,3)
    by (auto simp: thread_act_def elim: sys_captureE sys_consumeE split: sum.splits)
  with Cons.IH [OF u(2)] Cons.prems(3) show ?case by simp
qed simp

lemma captures_released:
  "sys_run (map Capture is) s = Some t \<Longrightarrow> s_released t = s_released s"
proof (induction "is" arbitrary: s)
  case (Cons i "is")
  then obtain u where u: "sys_next (Capture i) s = Some u" "sys_run (map Capture is) u = Some t"
    by (auto simp: Option.bind_eq_Some_conv)
  have "s_released u = s_released s" using sys_next_step [OF u(1)] by (auto elim: sys_captureE)
  with Cons.IH [OF u(2)] show ?case by simp
qed simp

lemma test_at_idle:
  assumes "test_at info T E n s" "sys_run (map Capture is) s = Some u"
  shows "test_at info T E n u" "loop_frame (s_h s) (s_h u)" "s_clock u = s_clock s"
proof -
  have reach: "reachable served sys_step s" using assms(1) by (simp add: test_at_def)
  obtain v where v: "sys_run (map Capture is) s = Some v" "loop_frame (s_h s) (s_h v)" "s_clock v = s_clock s"
    by (rule captures_run [OF served_reach(2) [OF reach], of "is"])
  have rel: "s_released u = s_released s"
    using assms(2) by (rule captures_released)
  have same: "period_ns (s_h u) = period_ns (s_h s)" "mic_format_of (s_h u) = mic_format_of (s_h s)"
    using v assms(2) by (simp_all add: loop_frame_def period_ns_def mic_format_of_def)
  show "loop_frame (s_h s) (s_h u)" "s_clock u = s_clock s" using v assms(2) by simp_all
  with idle_run [OF assms(2) reach] assms(1) rel same show "test_at info T E n u"
    by (simp add: test_at_def released_since_def loop_frame_def)
qed

lemma test_read:
  assumes at: "test_at info T E n s" and served: "turn_served t s" and between: "turn_between T E t"
    and len: "length buffer = dump_frame_bytes info"
  obtains buf frame s' where "dump_read info buffer t s = Some ((1, buf, frame), s')"
    "length buf = dump_frame_bytes info" "test_at info T E (n + 1) s'"
proof -
  let ?d = "dump_start fopen_wb buffer"
  have rec: "recording info (?d, s)" using at len by (simp add: test_at_def recording_def dump_start_def)
  obtain buf frame s' where read: "dump_read info buffer t s = Some ((1, buf, frame), s')"
    and keep: "h_stop_requested (s_h s') = h_stop_requested (s_h s)" "h_fixed_rate (s_h s') = h_fixed_rate (s_h s)"
    by (rule served_read [OF rec served]) (simp add: dump_start_def that)
  have reach: "reachable served sys_step s" using at by (simp add: test_at_def)
  note g = dump_read_gives [OF reach read] and r = served_reach [OF reach]
  from read obtain u where
    call: "sys_next (Call buffer (fi_frame_samples info) (Some zero_frame) 1000 (tn_now t)) s = Some u"
    and run: "sys_run (map thread_act (tn_steps t)) u = Some s'" and res: "call_result s' = Some (1, buf, frame)"
    by (auto simp: dump_read_def Option.bind_eq_Some_conv)
  note step = sys_next_step [OF call]
  have wf: "handle_wf (s_h s)" using r(2) by (simp add: sys_safe_def)
  from step obtain r0 where u: "s_read u = Some r0" "s_h u = s_h s" "s_released u = s_released s"
      "s_clock u = tn_now t" "s_clock s \<le> tn_now t"
    and entry: "read_frame_entry (Some (s_h s)) (Some buffer) (fi_frame_samples info) (Some zero_frame) 1000 (tn_now t) = Inr r0"
    by (auto elim!: sys_callE)
  have "release_note n (s_released u) r0"
    using entry at unfolding read_entry_cases [OF wf]
    by (auto simp: release_note_def u(3) test_at_def read_refused_def WEBA_ERR_STATE_def WEBA_ERR_INVAL_def
        split: if_splits)
  moreover have "released_since T (s_released s) (s_h s) (tn_now t)"
    using at u(5) by (auto simp: test_at_def released_since_def)
  ultimately have "releasing T n u" using at between u by (simp add: releasing_def test_at_def turn_between_def)
  from releasing_run [OF run reach_step [OF r(1) step] this] have rel: "releasing T n s'" .
  from res have "\<exists>r'. s_read s' = Some r' \<and> rd_pc r' = RReturn 1"
    by (auto simp: call_result_def split: option.splits read_pc.splits)
  with rel have "length (s_released s') = n + 1" "released_since T (s_released s') (s_h s') (s_clock s')"
    by (auto simp: releasing_def release_note_def)
  moreover have "s_clock s' \<le> E" using run_clock [OF run, of E] between u(4) by (simp add: turn_between_def)
  moreover have "sys_run (Call buffer (fi_frame_samples info) (Some zero_frame) 1000 (tn_now t) # map thread_act (tn_steps t)) s = Some s'"
    using call run by simp
  from sys_run_thread [OF this r(2)] have "h_thread (s_h s') = h_thread (s_h s)"
    "h_thread_abandoned (s_h s') = h_thread_abandoned (s_h s)" by simp_all
  ultimately have "test_at info T E (n + 1) s'" using at g(1,2,4) keep by (simp add: test_at_def)
  with read g(3) len show ?thesis by (intro that) simp_all
qed

lemma read_frames_all:
  "test_at info T E n s \<Longrightarrow> reads_served info ts buffer s \<Longrightarrow> \<forall>t\<in>set ts. turn_between T E t \<Longrightarrow>
     length buffer = dump_frame_bytes info \<Longrightarrow> rt_index k = n \<Longrightarrow>
     \<exists>k' s'. read_frames info (n + length ts) ts buffer k (st, s) = Some (k', st, s') \<and>
       rt_index k' = n + length ts \<and> test_at info T E (n + length ts) s'"
proof (induction ts arbitrary: n s buffer k)
  case (Cons t ts)
  obtain u where u: "sys_run (map Capture (tn_idle t)) s = Some u"
    by (rule captures_run [OF served_reach(2), of s "tn_idle t"]) (use Cons.prems(1) in \<open>simp_all add: test_at_def\<close>)
  note at = test_at_idle [OF Cons.prems(1) u]
  have "turn_served t u" using Cons.prems(2) turn_served_idle [OF _ at(2,3)] by simp
  with Cons.prems(3,4) obtain buf frame s' where read: "dump_read info buffer t u = Some ((1, buf, frame), s')"
    "length buf = dump_frame_bytes info" "test_at info T E (n + 1) s'"
    using test_read [OF at(1)] by (metis list.set_intros(1))
  have "reads_served info ts buf s'" using Cons.prems(2) u read(1) by simp
  moreover have "rt_index (tally_frame frame k) = n + 1" using Cons.prems(5) by (simp add: tally_frame_def Let_def)
  ultimately have "\<exists>k' s''. read_frames info (n + 1 + length ts) ts buf (tally_frame frame k) (st, s') = Some (k', st, s'') \<and>
      rt_index k' = n + 1 + length ts \<and> test_at info T E (n + 1 + length ts) s''"
    using Cons.IH [OF read(3)] Cons.prems(3) read(2) by simp
  with u read(1) Cons.prems(5) show ?case by simp
qed simp

text \<open>Fifty frames take at least fifty periods.\<close>

lemma test_at_elapsed:
  assumes "test_at info T E (Suc n) s"
  shows "T + int (Suc n) * period_ns (s_h s) \<le> E"
proof -
  let ?rel = "s_released s" and ?p = "period_ns (s_h s)"
  have reach: "reachable sys_init sys_step s" using assms served_reach(1) by (auto simp: test_at_def)
  have len: "length ?rel = Suc n" using assms by (simp add: test_at_def)
  then have ne: "?rel \<noteq> []" by auto
  have law: "lawful ?p ?rel" using reachable_on_time [OF reach] by (simp add: on_time_def)
  have "T + ?p \<le> fst (?rel ! 0)" using assms ne by (simp add: test_at_def released_since_def hd_conv_nth)
  moreover have "fst (?rel ! 0) + int n * ?p \<le> fst (?rel ! n)"
    using lawful_pace [OF law period_ns_nonneg, of 0 n] len by simp
  moreover have "?rel ! n \<in> set ?rel" using len by simp
  then have "fst (?rel ! n) \<le> snd (?rel ! n)" "snd (?rel ! n) \<le> s_clock s"
    using law assms by (auto simp: lawful_def test_at_def released_since_def)
  ultimately show ?thesis using assms by (simp add: test_at_def algebra_simps)
qed

subsection \<open>The program\<close>

text \<open>
  Allocations succeed, a server connects and answers both handles and the thread, its default sink
  has a monitor by that name, it knows no sink of the bad name, and a stop gives the thread time.
\<close>

definition test_surroundings :: "server \<Rightarrow> target_t \<Rightarrow> test_env \<Rightarrow> bool" where
  "test_surroundings sv t e \<longleftrightarrow>
     (\<forall>k. te_handle_ok e k) \<and> (\<forall>k n. te_alloc_ok e k n) \<and>
     connects (se_connect (te_start e)) \<and> serves sv (se_resolve (te_start e)) \<and>
     se_spawn (te_start e) \<and> se_alloc (te_start e) 7680 \<and>
     connects (se_connect (te_bad e)) \<and> serves sv (se_resolve (te_bad e)) \<and>
     resolve_spec sv [] = Some t \<and> contains_text ''.monitor'' (fixed_name (tg_monitor t)) \<and>
     resolve_spec sv ''no-such-sink-webaudio-selftest'' = None \<and>
     (\<forall>i\<in>set (te_idle e 0) \<union> set (te_idle e 1). serves sv (li_resolve i)) \<and> 10 \<le> length (te_stop e)"

text \<open>The format and the system with which the reads begin.\<close>

definition reads_begin :: "test_env \<Rightarrow> (weba_format_info \<times> sys) option" where
  "reads_begin e =
     (case weba_capture_create True (te_handle_ok e 5) (te_alloc_ok e 5) (Some (test_config e)) of
        Inr (_, Some c) \<Rightarrow>
          (case weba_capture_start (te_start e) (Some c) of
             Inr (_, Some c', _) \<Rightarrow>
               Option.bind (sys_run (map Capture (te_idle e 0)) ((sys_of c')\<lparr>s_clock := te_early e\<rparr>)) (\<lambda>s.
               Option.bind (sys_run (map Capture (te_idle e 1)) s) (\<lambda>s.
               let info = h_format_info (s_h s) in
               Option.bind (sys_run (map Capture (te_idle e 2)) s) (\<lambda>s.
                 map_option (Pair info)
                   (sys_next (Call (test_scratch (test_config e)) (cfg_frame_samples (test_config e) - 1) None 0 (te_small e)) s))))
           | _ \<Rightarrow> None)
      | _ \<Rightarrow> None)"

text \<open>Fifty reads between the two looks at the clock, each served.\<close>

definition test_timely :: "test_env \<Rightarrow> bool" where
  "test_timely e \<longleftrightarrow> te_early e \<le> te_small e \<and> te_small e \<le> te_started e \<and> length (te_reads e) = 50 \<and>
     (\<forall>t\<in>set (te_reads e). turn_between (te_started e) (te_ended e) t) \<and>
     (case reads_begin e of None \<Rightarrow> True
      | Some (info, s) \<Rightarrow> reads_served info (te_reads e) (replicate (dump_frame_bytes info) 0) s)"

lemma test_created:
  assumes "te_handle_ok e k" "\<And>n. te_alloc_ok e k n"
  obtains c where "weba_capture_create True (te_handle_ok e k) (te_alloc_ok e k) (Some (test_config e)) = Inr (WEBA_OK, Some c)"
    "startable c" "h_requested_sink c = []" "h_fixed_rate c" "frame_bytes c = 7680"
    "mic_format_of c = \<lparr>mf_sample_rate = 48000, mf_channels = 2, mf_format = WEBA_SAMPLE_F32LE, mf_frame_samples = 960\<rparr>"
    "capacity (h_queue c) = 100"
proof -
  let ?cfg = "Some (test_config e)"
  have sup: "config_supported ?cfg"
    by (simp add: config_supported_def test_config_eq channels_supported_def bytes_per_sample_of_def)
  have fb: "frame_bytes (configured ?cfg) = 7680" "h_queue_frames (configured ?cfg) = 100"
    "h_requested_sink (configured ?cfg) = []" "h_fixed_rate (configured ?cfg)"
    "mic_format_of (configured ?cfg) =
       \<lparr>mf_sample_rate = 48000, mf_channels = 2, mf_format = WEBA_SAMPLE_F32LE, mf_frame_samples = 960\<rparr>"
    by (simp_all add: frame_bytes_def configured_def apply_config_def test_config_eq or_default_def size_mod_def
        mic_format_of_def)
  obtain c where c: "weba_capture_create True True (te_alloc_ok e k) ?cfg = Inr (WEBA_OK, Some c)" "startable c"
    "c = (configured ?cfg)\<lparr>h_queue := h_queue c\<rparr>"
    by (rule create_succeeds [OF sup assms(2)]) (simp add: fb vector_max_size_def)
  have "mic_format_of c = mic_format_of (configured ?cfg)" "h_requested_sink c = h_requested_sink (configured ?cfg)"
    "h_fixed_rate c = h_fixed_rate (configured ?cfg)" "frame_bytes c = frame_bytes (configured ?cfg)"
    by (subst c(3), simp add: mic_format_of_def)+
  moreover have "capacity (h_queue c) = 100"
    using c(1) sup by (auto simp: create_eq fb Let_def split: if_splits)
  ultimately show ?thesis using c(1,2) assms(1) fb by (intro that [of c]) simp_all
qed

lemma early_read_passes:
  assumes "\<not> h_running c"
  obtains ts' where "test_early_read e cfg (Some c) ts = Inr (Some ts')" "ts_failures ts' = ts_failures ts"
  using assms by (simp add: test_early_read_def read_frame_entry_def read_refused_def)

text \<open>The undersized read is refused at its entry.\<close>

lemma running_at:
  assumes "test_at info T E n s"
  shows "h_running (s_h s)" "handle_wf (s_h s)" "reachable sys_init sys_step s"
proof -
  have reach: "reachable served sys_step s" using assms by (simp add: test_at_def)
  note r = served_reach [OF reach]
  show "h_running (s_h s)" using aw.both.invariant [OF r(1)] assms by (simp add: awake_def test_at_def)
  show "handle_wf (s_h s)" using r(2) by (simp add: sys_safe_def)
  show "reachable sys_init sys_step s" by (fact r(1))
qed

lemma small_read_refused:
  assumes at: "test_at info T E 0 s" and clock: "s_clock s \<le> te_small e" "te_small e \<le> E"
    and F: "mic_format_of (s_h s) =
      \<lparr>mf_sample_rate = 48000, mf_channels = 2, mf_format = WEBA_SAMPLE_F32LE, mf_frame_samples = 960\<rparr>"
  obtains s' where
    "sys_next (Call (test_scratch (test_config e)) (cfg_frame_samples (test_config e) - 1) None 0 (te_small e)) s = Some s'"
    "test_at info T E 0 s'" "s_h s' = s_h s"
    "test_small_read e (test_config e) (ts, s) = Some (check True ''an undersized destination is refused'' ts, s')"
proof -
  note run = running_at [OF at]
  let ?r = "read_refused WEBA_ERR_INVAL (Some (test_scratch (test_config e))) None"
  let ?s = "s\<lparr>s_read := Some ?r, s_clock := te_small e\<rparr>"
  have c: "h_channels (s_h s) = 2" "h_format (s_h s) = WEBA_SAMPLE_F32LE" "h_frame_samples (s_h s) = 960"
    using F by (simp_all add: mic_format_of_def)
  have honest: "honest_buffer (s_h s) (test_scratch (test_config e)) (cfg_frame_samples (test_config e) - 1)"
    by (simp add: honest_buffer_def c test_scratch_def test_config_eq bytes_per_sample_of_def)
  have entry: "read_frame_entry (Some (s_h s)) (Some (test_scratch (test_config e)))
      (cfg_frame_samples (test_config e) - 1) None 0 (te_small e) = Inr ?r"
    using run(1) by (simp add: read_frame_entry_def test_config_eq c)
  have idle: "idle (s_read s)" using at by (simp add: test_at_def)
  have next': "sys_next (Call (test_scratch (test_config e)) (cfg_frame_samples (test_config e) - 1) None 0 (te_small e)) s = Some ?s"
    using idle honest entry clock(1) by (simp add: sys_next_def)
  have "reachable served sys_step s" using at by (simp add: test_at_def)
  from reach_step [OF this sys_next_step [OF next']] have "test_at info T E 0 ?s"
    using at clock(2) by (simp add: test_at_def idle_def read_refused_def released_since_def)
  moreover have "call_result ?s = Some (WEBA_ERR_INVAL, test_scratch (test_config e), zero_frame)"
    by (simp add: call_result_def read_refused_def)
  then have "test_small_read e (test_config e) (ts, s) = Some (check True ''an undersized destination is refused'' ts, ?s)"
    using next' by (simp add: test_small_read_def)
  ultimately show ?thesis using next' by (intro that) simp_all
qed

text \<open>The end: a stop that joins, a second one, and the destruction.\<close>

lemma test_finish_passes:
  assumes at: "test_at info T E n s" and stop: "10 \<le> length (te_stop e)"
  obtains ts' where "ts_failures ts' = ts_failures ts"
    "test_finish e k ts (Some (s_loop s), Some (s_h s)) =
       Inr (Some \<lparr>tx_status = (if ts_failures ts > 0 then 1 else 0), tx_state = ts', tx_tally = Some k, tx_lib = (None, None)\<rparr>)"
proof -
  have "sys_safe s" "gone_sys s" using gone.both.invariant [OF running_at(3) [OF at]] by simp_all
  then have inv: "loop_inv (s_loop s) (s_h s)" "gone_clear (s_loop s) (s_h s)"
    by (simp_all add: sys_safe_def gone_sys_def)
  have thread: "h_thread (s_h s)" "\<not> h_thread_abandoned (s_h s)" using at by (simp_all add: test_at_def)
  from stop_joins [OF inv thread stop, of "te_states e" "te_waited e"] obtain c' where
    first: "weba_capture_stop (te_states e) (te_stop e) (te_waited e) (Some (s_loop s), Some (s_h s)) = Inr (Some (None, Some c'))"
    and rest: "at_rest c'" by blast
  have rest': "\<not> h_running c'" "\<not> h_thread c'" "\<not> h_thread_abandoned c'" using rest by (simp_all add: at_rest_def)
  note again = stop_at_rest [OF rest, of "te_states e" "[]" "te_waited e" None]
    and freed = destroy_unthreaded [OF rest'(2,3), of "te_states e" "[]" "te_waited e" None]
  have "\<exists>ts'. ts_failures ts' = ts_failures ts \<and>
      test_finish e k ts (Some (s_loop s), Some (s_h s)) =
       Inr (Some \<lparr>tx_status = (if ts_failures ts > 0 then 1 else 0), tx_state = ts', tx_tally = Some k, tx_lib = (None, None)\<rparr>)"
    using rest'(1) by (simp add: test_finish_def first again freed weba_capture_is_running_def Let_def)
  with that show ?thesis by blast
qed

text \<open>The system of the handle under test, once it has been started.\<close>

lemma test_started:
  assumes sur: "test_surroundings sv t e" and c: "startable c" "h_requested_sink c = []" "h_fixed_rate c"
      "frame_bytes c = 7680" "mic_format_of c =
        \<lparr>mf_sample_rate = 48000, mf_channels = 2, mf_format = WEBA_SAMPLE_F32LE, mf_frame_samples = 960\<rparr>"
    and early: "te_early e \<le> E"
  obtains c' where "weba_capture_start (te_start e) (Some c) = Inr (WEBA_OK, Some c', Some (loop_start c'))"
    "test_at (h_format_info c') T E 0 ((sys_of c')\<lparr>s_clock := te_early e\<rparr>)"
    "names t (loop_start c') c'" "mic_format_of c' = mic_format_of c"
proof -
  have env: "connects (se_connect (te_start e))" "serves sv (se_resolve (te_start e))" "se_spawn (te_start e)"
    "se_alloc (te_start e) (frame_bytes c)" "resolve_spec sv (h_requested_sink c) = Some t"
    using sur c(2,4) by (simp_all add: test_surroundings_def)
  from start_serves(4) [OF startable_new [OF c(1)] env(1,2,5,3,4)] obtain c' where
    start: "weba_capture_start (te_start e) (Some c) = Inr (WEBA_OK, Some c', Some (loop_start c'))"
    and info: "h_format_info c' = h_format_info (publish_format t c)" by blast
  have nr: "\<not> h_running c" "\<not> h_thread_abandoned c" using c(1) by (simp_all add: startable_def)
  note st = start_started [OF c(1) start] and cfg = start_config [OF start] and ctl = start_control [OF start nr(1)]
  let ?s = "(sys_of c')\<lparr>s_clock := te_early e\<rparr>"
  have served: "served ?s" using st(1,2) by (simp add: served_def sys_init_def sys_of_def)
  then have "reachable served sys_step ?s" by (rule reach_init)
  moreover have "describes (h_format_info c') (mic_format_of c')" by (rule published_describes [OF st(2)])
  ultimately have at: "test_at (h_format_info c') T E 0 ?s"
    using st(1) cfg(2) c(3) ctl(3,4) nr(2) early
    by (simp add: test_at_def sys_of_def idle_def started_def released_since_def)
  have "h_requested_sink c' = []"
    using start c(2) by (auto simp: weba_capture_start_def sum_bind_eq_Inr publish_format_def Let_def status_defs
        split: if_splits prod.splits option.splits)
  then have "names t (loop_start c') c'" by (simp add: names_def info publish_format_def loop_start_def)
  with start at cfg(1) show ?thesis by (intro that)
qed

lemma test_at_info:
  "test_at info T E n s \<Longrightarrow> describes info' (mic_format_of (s_h s)) \<Longrightarrow> test_at info' T E n s"
  by (simp add: test_at_def)

lemma test_at_runs:
  assumes "test_at info T E n s"
  obtains u where "sys_run (map Capture is) s = Some u" "test_at info T E n u" "loop_frame (s_h s) (s_h u)"
    "s_clock u = s_clock s" "mic_format_of (s_h u) = mic_format_of (s_h s)"
proof -
  have "reachable served sys_step s" using assms by (simp add: test_at_def)
  then obtain u where u: "sys_run (map Capture is) s = Some u"
    by (rule captures_run [OF served_reach(2), of s "is"]) blast
  note at = test_at_idle [OF assms u]
  from at(2) have "mic_format_of (s_h u) = mic_format_of (s_h s)" by (simp add: loop_frame_def)
  with u at show ?thesis by (intro that)
qed

lemma test_format_passes:
  assumes "describes info \<lparr>mf_sample_rate = 48000, mf_channels = 2, mf_format = WEBA_SAMPLE_F32LE, mf_frame_samples = 960\<rparr>"
    and "contains_text ''.monitor'' (fi_monitor_name info)"
  shows "ts_failures (test_format (test_config e) WEBA_OK info ts) = ts_failures ts"
proof -
  have "fi_monitor_name info \<noteq> []" using assms(2) by (auto simp: contains_text_def)
  with assms show ?thesis by (simp add: test_format_def test_config_eq describes_def Let_def)
qed

lemma cadence_matches_iff:
  "cadence_matches (test_config e) frame_count elapsed \<longleftrightarrow> 900000000 < elapsed \<and> elapsed < 1150000000"
  by (simp add: cadence_matches_def test_config_eq frame_count_def Let_def)

text \<open>From the undersized read to the end.\<close>

lemma test_rest:
  assumes at: "test_at info T E 0 s" and fmt: "describes info
      \<lparr>mf_sample_rate = 48000, mf_channels = 2, mf_format = WEBA_SAMPLE_F32LE, mf_frame_samples = 960\<rparr>"
    and T: "T = te_started e" "E = te_ended e"
    and reads: "length (te_reads e) = 50" "\<forall>t\<in>set (te_reads e). turn_between T E t"
      "reads_served info (te_reads e) (replicate (dump_frame_bytes info) 0) s"
  obtains k ts' s' where "test_reads e (test_config e) info (ts, s) = Some (k, ts', s')" "test_at info T E 50 s'"
    "rt_index k = 50" "1000000000 \<le> E - T"
    "ts_failures ts' = ts_failures ts + (if E - T < 1150000000 then 0 else 1) + (if rt_gaps k = 0 then 0 else 1)"
proof -
  let ?k = "\<lparr>rt_silent = 0, rt_gaps = 0, rt_index = 0\<rparr>"
  from read_frames_all [OF at reads(3,2) length_replicate, of ?k ts] reads(1) obtain k s' where
    run: "read_frames info 50 (te_reads e) (replicate (dump_frame_bytes info) 0) ?k (ts, s) = Some (k, ts, s')"
      "rt_index k = 50" "test_at info T E 50 s'" by auto
  have "mic_format_of (s_h s') = \<lparr>mf_sample_rate = 48000, mf_channels = 2, mf_format = WEBA_SAMPLE_F32LE, mf_frame_samples = 960\<rparr>"
    using fmt run(3) by (simp add: test_at_def describes_def mic_format_of_def)
  then have "period_ns (s_h s') = 20000000"
    by (simp add: mic_format_of_def period_ns_def period_us_def us_to_ns_def)
  with test_at_elapsed [of info T E 49 s'] run(3) have long: "1000000000 \<le> E - T" by simp
  have "\<exists>ts'. test_reads e (test_config e) info (ts, s) = Some (k, ts', s') \<and>
      ts_failures ts' = ts_failures ts + (if E - T < 1150000000 then 0 else 1) + (if rt_gaps k = 0 then 0 else 1)"
    using run(1,2) long T by (simp add: test_reads_def frame_count_def cadence_matches_iff [unfolded frame_count_def] Let_def)
  with run(2,3) long that show ?thesis by blast
qed

text \<open>The looks at the running handle before the reads.\<close>

lemma test_looks:
  assumes sur: "test_surroundings sv t e" and at0: "test_at info0 T E 0 s0" and names: "names t (s_loop s0) (s_h s0)"
    and F: "mic_format_of (s_h s0) =
      \<lparr>mf_sample_rate = 48000, mf_channels = 2, mf_format = WEBA_SAMPLE_F32LE, mf_frame_samples = 960\<rparr>"
    and clock: "s_clock s0 \<le> te_small e" "te_small e \<le> E"
  obtains s1 s2 s3 s4 where "sys_run (map Capture (te_idle e 0)) s0 = Some s1" "h_running (s_h s1)"
    "sys_run (map Capture (te_idle e 1)) s1 = Some s2"
    "\<And>ts. ts_failures (test_format (test_config e) WEBA_OK (h_format_info (s_h s2)) ts) = ts_failures ts"
    "describes (h_format_info (s_h s2))
       \<lparr>mf_sample_rate = 48000, mf_channels = 2, mf_format = WEBA_SAMPLE_F32LE, mf_frame_samples = 960\<rparr>"
    "sys_run (map Capture (te_idle e 2)) s2 = Some s3"
    "sys_next (Call (test_scratch (test_config e)) (cfg_frame_samples (test_config e) - 1) None 0 (te_small e)) s3 = Some s4"
    "\<And>ts. test_small_read e (test_config e) (ts, s3) = Some (check True ''an undersized destination is refused'' ts, s4)"
    "test_at (h_format_info (s_h s2)) T E 0 s4"
proof -
  obtain s1 where s1: "sys_run (map Capture (te_idle e 0)) s0 = Some s1" "test_at info0 T E 0 s1"
    "s_clock s1 = s_clock s0" "mic_format_of (s_h s1) = mic_format_of (s_h s0)"
    by (rule test_at_runs [OF at0, of "te_idle e 0"])
  obtain s2 where s2: "sys_run (map Capture (te_idle e 1)) s1 = Some s2" "test_at info0 T E 0 s2"
    "s_clock s2 = s_clock s1" "mic_format_of (s_h s2) = mic_format_of (s_h s1)"
    by (rule test_at_runs [OF s1(2), of "te_idle e 1"])
  let ?info = "h_format_info (s_h s2)"
  note F2 = F [folded s1(4), folded s2(4)]
  have "reachable served sys_step s2" using s2(2) by (simp add: test_at_def)
  from published_describes [OF served_reach(5) [OF this]] have fmt: "describes ?info (mic_format_of (s_h s2))" .
  have sv: "resolve_spec sv [] = Some t" "\<forall>i\<in>set (te_idle e 0). serves sv (li_resolve i)"
    "\<forall>i\<in>set (te_idle e 1). serves sv (li_resolve i)" "contains_text ''.monitor'' (fixed_name (tg_monitor t))"
    using sur by (simp_all add: test_surroundings_def)
  have "names t (s_loop s1) (s_h s1)" by (rule names_run [OF s1(1) names sv(1,2)])
  from names_run [OF s2(1) this sv(1,3)] have mon: "contains_text ''.monitor'' (fi_monitor_name ?info)"
    using sv(4) by (simp add: names_def)
  have at2: "test_at ?info T E 0 s2" by (rule test_at_info [OF s2(2) fmt])
  obtain s3 where s3: "sys_run (map Capture (te_idle e 2)) s2 = Some s3" "test_at ?info T E 0 s3"
    "s_clock s3 = s_clock s2" "mic_format_of (s_h s3) = mic_format_of (s_h s2)"
    by (rule test_at_runs [OF at2, of "te_idle e 2"])
  have c3: "s_clock s3 \<le> te_small e" using s1(3) s2(3) s3(3) clock(1) by simp
  from small_read_refused [OF s3(2) c3 clock(2) F2 [folded s3(4)]] obtain s4 where s4:
    "sys_next (Call (test_scratch (test_config e)) (cfg_frame_samples (test_config e) - 1) None 0 (te_small e)) s3 = Some s4"
    "test_at ?info T E 0 s4" by blast
  have "test_small_read e (test_config e) (ts, s3) = Some (check True ''an undersized destination is refused'' ts, s4)" for ts
    by (rule small_read_refused [OF s3(2) c3 clock(2) F2 [folded s3(4)], of ts]) (use s4(1) in simp)
  with s1(1) running_at(1) [OF s1(2)] s2(1) test_format_passes [OF fmt [unfolded F2] mon] fmt [unfolded F2] s3(1) s4
  show ?thesis by (intro that)
qed

text \<open>The result of the test, and what it says.\<close>

definition test_verdict :: "test_env \<Rightarrow> test_end \<Rightarrow> bool" where
  "test_verdict e x \<longleftrightarrow> (\<exists>k. tx_tally x = Some k \<and> rt_index k = 50 \<and> tx_lib x = (None, None) \<and>
     (\<exists>info s ts y. reads_begin e = Some (info, s) \<and> test_reads e (test_config e) info (ts, s) = Some (k, y)) \<and>
     1000000000 \<le> te_ended e - te_started e \<and>
     ts_failures (tx_state x) =
       (if te_ended e - te_started e < 1150000000 then 0 else 1) + (if rt_gaps k = 0 then 0 else 1) \<and>
     tx_status x = (if ts_failures (tx_state x) > 0 then 1 else 0))"

lemma test_live_passes:
  assumes sur: "test_surroundings sv t e" and time: "test_timely e"
    and at0: "test_at info0 (te_started e) (te_ended e) 0 s0" and names: "names t (s_loop s0) (s_h s0)"
    and F: "mic_format_of (s_h s0) =
      \<lparr>mf_sample_rate = 48000, mf_channels = 2, mf_format = WEBA_SAMPLE_F32LE, mf_frame_samples = 960\<rparr>"
    and clock: "s_clock s0 \<le> te_small e" "te_small e \<le> te_ended e" and ok: "ts_failures ts = 0"
    and begin': "\<And>s1 s2 s3 s4. sys_run (map Capture (te_idle e 0)) s0 = Some s1 \<Longrightarrow>
      sys_run (map Capture (te_idle e 1)) s1 = Some s2 \<Longrightarrow> sys_run (map Capture (te_idle e 2)) s2 = Some s3 \<Longrightarrow>
      sys_next (Call (test_scratch (test_config e)) (cfg_frame_samples (test_config e) - 1) None 0 (te_small e)) s3 = Some s4 \<Longrightarrow>
      reads_begin e = Some (h_format_info (s_h s2), s4)"
  shows "\<exists>x. test_live e (test_config e) ts s0 = Inr (Some x) \<and> test_verdict e x"
proof -
  from test_looks [OF sur at0 names F clock] obtain s1 s2 s3 s4 where
    s: "sys_run (map Capture (te_idle e 0)) s0 = Some s1" "h_running (s_h s1)"
      "sys_run (map Capture (te_idle e 1)) s1 = Some s2" "sys_run (map Capture (te_idle e 2)) s2 = Some s3"
      "test_at (h_format_info (s_h s2)) (te_started e) (te_ended e) 0 s4"
    and call: "sys_next (Call (test_scratch (test_config e)) (cfg_frame_samples (test_config e) - 1) None 0 (te_small e)) s3 = Some s4"
    and small: "\<And>ts. test_small_read e (test_config e) (ts, s3) = Some (check True ''an undersized destination is refused'' ts, s4)"
    and fmt: "\<And>ts. ts_failures (test_format (test_config e) WEBA_OK (h_format_info (s_h s2)) ts) = ts_failures ts"
      "describes (h_format_info (s_h s2))
         \<lparr>mf_sample_rate = 48000, mf_channels = 2, mf_format = WEBA_SAMPLE_F32LE, mf_frame_samples = 960\<rparr>" by metis
  let ?info = "h_format_info (s_h s2)"
  let ?ts1 = "check True ''handle reports running'' ts"
  obtain ts2 where ts2: "test_bad_sink e ?ts1 = Inr (Some ts2)" "ts_failures ts2 = 0"
    by (rule bad_sink_passes [of e sv ?ts1]) (use sur ok in \<open>simp_all add: test_surroundings_def\<close>)
  let ?ts3 = "check True ''an undersized destination is refused'' (test_format (test_config e) WEBA_OK ?info ts2)"
  have served: "reads_served ?info (te_reads e) (replicate (dump_frame_bytes ?info) 0) s4"
    and reads: "length (te_reads e) = 50" "\<forall>t\<in>set (te_reads e). turn_between (te_started e) (te_ended e) t"
    using time begin' [OF s(1,3,4) call] by (simp_all add: test_timely_def)
  obtain k ts4 s5 where r: "test_reads e (test_config e) ?info (?ts3, s4) = Some (k, ts4, s5)"
    "test_at ?info (te_started e) (te_ended e) 50 s5" "rt_index k = 50" "1000000000 \<le> te_ended e - te_started e"
    "ts_failures ts4 = ts_failures ?ts3 + (if te_ended e - te_started e < 1150000000 then 0 else 1) + (if rt_gaps k = 0 then 0 else 1)"
    by (rule test_rest [OF s(5) fmt(2) refl refl reads served, of ?ts3])
  obtain s6 where s6: "sys_run (map Capture (te_idle e 3)) s5 = Some s6" "test_at ?info (te_started e) (te_ended e) 50 s6"
    by (rule test_at_runs [OF r(2), of "te_idle e 3"])
  have "10 \<le> length (te_stop e)" using sur by (simp add: test_surroundings_def)
  from test_finish_passes [OF s6(2) this, of ts4 k] obtain ts5 where ts5: "ts_failures ts5 = ts_failures ts4"
    "test_finish e k ts4 (Some (s_loop s6), Some (s_h s6)) = Inr (Some \<lparr>tx_status = (if ts_failures ts4 > 0 then 1 else 0),
       tx_state = ts5, tx_tally = Some k, tx_lib = (None, None)\<rparr>)" by blast
  have "test_live e (test_config e) ts s0 = test_finish e k ts4 (Some (s_loop s6), Some (s_h s6))"
    using s(1-4) small ts2(1) r(1) s6(1)
    by (simp add: test_live_def weba_capture_get_format_def weba_capture_is_running_def)
  with ts5 r(3-5) ts2(2) fmt(1) begin' [OF s(1,3,4) call] r(1) show ?thesis by (auto simp: test_verdict_def)
qed

lemma selftest_run:
  assumes sur: "test_surroundings sv t e" and time: "test_timely e"
  shows "\<exists>x. selftest_main e = Inr (Some x) \<and> test_verdict e x"
proof -
  let ?cfg = "test_config e"
  have alloc: "te_handle_ok e k" "te_alloc_ok e k n" for k n using sur by (simp_all add: test_surroundings_def)
  have order: "te_early e \<le> te_small e" "te_small e \<le> te_started e" "length (te_reads e) = 50"
    and between: "\<forall>t\<in>set (te_reads e). turn_between (te_started e) (te_ended e) t"
    using time by (simp_all add: test_timely_def)
  then obtain r where "r \<in> set (te_reads e)" by (cases "te_reads e") auto
  with between have "te_started e \<le> te_ended e" by (auto simp: turn_between_def)
  with order have early: "te_early e \<le> te_ended e" and small: "te_small e \<le> te_ended e" by simp_all
  obtain ts0 where texts: "test_texts e = Inr (Some ts0)" "ts_failures ts0 = 0" by (rule test_texts_pass [OF alloc])
  obtain c where create: "weba_capture_create True (te_handle_ok e 5) (te_alloc_ok e 5) (Some ?cfg) = Inr (WEBA_OK, Some c)"
    and c: "startable c" "h_requested_sink c = []" "h_fixed_rate c" "frame_bytes c = 7680" "mic_format_of c =
      \<lparr>mf_sample_rate = 48000, mf_channels = 2, mf_format = WEBA_SAMPLE_F32LE, mf_frame_samples = 960\<rparr>"
    by (rule test_created [OF alloc])
  have nr: "\<not> h_running c" using c(1) by (simp add: startable_def)
  let ?ts1 = "check True ''a fresh handle is not running'' (check True ''handle was returned''
    (check True ''create with defaults'' (test_defaults ?cfg ts0)))"
  obtain ts2 where ts2: "test_early_read e ?cfg (Some c) ?ts1 = Inr (Some ts2)" "ts_failures ts2 = 0"
    by (rule early_read_passes [OF nr, of e ?cfg ?ts1]) (simp add: test_defaults_pass texts(2))
  obtain c' where start: "weba_capture_start (te_start e) (Some c) = Inr (WEBA_OK, Some c', Some (loop_start c'))"
    and at0: "test_at (h_format_info c') (te_started e) (te_ended e) 0 ((sys_of c')\<lparr>s_clock := te_early e\<rparr>)"
    and names: "names t (loop_start c') c'" and F: "mic_format_of c' = mic_format_of c"
    by (rule test_started [OF sur c early, where T = "te_started e"])
  let ?s0 = "(sys_of c')\<lparr>s_clock := te_early e\<rparr>"
  let ?ts3 = "check True (''start: '' @ weba_strerror WEBA_OK @ '' ('' @ last_error_text (Some c') @ '')'') ts2"
  have begin': "reads_begin e = Some (h_format_info (s_h s2), s4)"
    if "sys_run (map Capture (te_idle e 0)) ?s0 = Some s1" "sys_run (map Capture (te_idle e 1)) s1 = Some s2"
      "sys_run (map Capture (te_idle e 2)) s2 = Some s3"
      "sys_next (Call (test_scratch ?cfg) (cfg_frame_samples ?cfg - 1) None 0 (te_small e)) s3 = Some s4" for s1 s2 s3 s4
    using that create start by (simp add: reads_begin_def Let_def)
  have "\<exists>x. test_live e ?cfg ?ts3 ?s0 = Inr (Some x) \<and> test_verdict e x"
    by (rule test_live_passes [OF sur time at0 _ _ _ small _ begin'])
      (use names F c(5) order ts2(2) in \<open>simp_all add: sys_of_def\<close>)
  moreover have "selftest_main e = test_live e ?cfg ?ts3 ?s0"
    using texts(1) create nr ts2(1) start
    by (simp add: selftest_main_def weba_capture_is_running_def sys_of_def Let_def)
  ultimately show ?thesis by simp
qed

end
