(* ===== verification/Calm_Run.thy ===== *)
theory Calm_Run
  imports Self_Test_Run
begin

text \<open>
  A capture with nothing to report: as long as the server, the stream and the queue do their part,
  from a first start on, no flag is ever pending, no frame is lost, and no frame is handed out with
  the discontinuity flag.
\<close>

subsection \<open>The capture thread\<close>

text \<open>Answers of a server \<open>sv\<close> in good order.\<close>

definition good_in :: "server \<Rightarrow> loop_in \<Rightarrow> bool" where
  "good_in sv i \<longleftrightarrow> serves sv (li_resolve i) \<and> (\<forall>r. \<exists>n. li_simple_new i r = Inr n) \<and> (\<exists>data. li_read i = Inr data)"

text \<open>The one stream that is ever opened is that of the target \<open>t\<close>.\<close>

definition calm_pc :: "target_t \<Rightarrow> loop_state \<Rightarrow> bool" where
  "calm_pc t l \<longleftrightarrow>
     (case lp_pc l of
        LPublish t' \<Rightarrow> t' = t \<and> \<not> lp_had_stream l \<and> lp_mic l = None
      | LOpen t' \<Rightarrow> t' = t \<and> \<not> lp_had_stream l \<and> lp_mic l = None
      | LOpened t' \<Rightarrow> t' = t \<and> \<not> lp_had_stream l \<and> lp_mic l \<noteq> None
      | LOpenFailed \<Rightarrow> False
      | LReopened \<Rightarrow> False
      | LReadFailed \<Rightarrow> False
      | LExit \<Rightarrow> False
      | LDone \<Rightarrow> False
      | LRead \<Rightarrow> lp_had_stream l \<and> lp_mic l \<noteq> None
      | LPush \<Rightarrow> lp_had_stream l \<and> lp_mic l \<noteq> None
      | LFollow \<Rightarrow> lp_had_stream l \<and> lp_mic l \<noteq> None
      | LResolve \<Rightarrow> \<not> lp_had_stream l \<and> lp_mic l = None
      | _ \<Rightarrow> lp_had_stream l \<longleftrightarrow> lp_mic l \<noteq> None)"

definition calm_loop :: "target_t \<Rightarrow> loop_state \<Rightarrow> weba_capture \<Rightarrow> bool" where
  "calm_loop t l c \<longleftrightarrow> \<not> h_stop_requested c \<and> h_requested_sink c = [] \<and> h_pending_flags c = 0 \<and>
     lp_mic l \<noteq> Some None \<and> (lp_had_stream l \<longrightarrow> h_current_monitor c = tg_monitor t) \<and> calm_pc t l"

lemma calm_loop_step:
  assumes calm: "calm_loop t l c" and inv: "loop_inv l c" and good: "good_in sv i"
    and sv: "resolve_spec sv [] = Some t" "tg_monitor t \<noteq> []" and step: "loop_step i (l, c) = Inr (l', c')"
  shows "calm_loop t l' c'"
proof (cases "lp_pc l")
  case LResolve
  with assms show ?thesis
    by (auto simp: calm_loop_def calm_pc_def loop_step_def step_resolve_def set_error_def good_in_def
        dest: resolve_served split: prod.splits option.splits)
next
  case (LOpen t')
  have "mic_format_valid (mic_format_of c)" using inv by (simp add: loop_inv_def handle_wf_def format_wf_def)
  moreover have "tg_monitor t' \<noteq> []" using calm sv(2) LOpen by (simp add: calm_loop_def calm_pc_def)
  ultimately obtain req where "mic_open (li_simple_new i) (li_strerror i) (tg_monitor t') (mic_format_of c) =
      (case li_simple_new i req of Inl st \<Rightarrow> Inl (''pa_simple_new() failed: '' @ li_strerror i st)
       | Inr stream \<Rightarrow> Inr (Some stream))" using mic_open_valid by metis
  moreover obtain n where "li_simple_new i req = Inr n" using good by (auto simp: good_in_def)
  ultimately show ?thesis using calm step LOpen
    by (auto simp: calm_loop_def calm_pc_def loop_step_def step_open_def)
next
  case LRead
  with calm obtain n where "lp_mic l = Some (Some n)" by (auto simp: calm_loop_def calm_pc_def)
  moreover obtain data where "li_read i = Inr data" using good by (auto simp: good_in_def)
  ultimately show ?thesis using calm step LRead
    by (auto simp: calm_loop_def calm_pc_def loop_step_def step_read_def mic_read_def)
next
  case LFollow
  with assms show ?thesis
    by (auto simp: calm_loop_def calm_pc_def loop_step_def step_follow_def good_in_def Let_def
        dest: resolve_served split: prod.splits option.splits if_splits)
qed (use calm step in \<open>auto simp: calm_loop_def calm_pc_def loop_step_def step_opened_def publish_format_def
      wait_for_stop_def sum_bind_eq_Inr Let_def split: if_splits option.splits\<close>)

subsection \<open>The queue and the consumer\<close>

definition calm_read :: "read_state \<Rightarrow> bool" where
  "calm_read r \<longleftrightarrow> rd_total r = 0 \<and> (\<forall>f. rd_pc r = RAfter f \<longrightarrow> \<not> has_flag f WEBA_FRAME_DISCONTINUITY) \<and>
     (\<forall>fr. rd_info r = Some fr \<longrightarrow> \<not> has_flag (fr_flags fr) WEBA_FRAME_DISCONTINUITY)"

lemma calm_read_step:
  assumes inv: "read_inv r c" and calm: "calm_read r" and c: "h_pending_flags c = 0" "q_dropped (h_queue c) = 0"
    and step: "read_step i (r, c) = Inr (r', c')"
  shows "calm_read r' \<and> h_pending_flags c' = 0 \<and> q_dropped (h_queue c') = 0"
proof (cases "popping (rd_pc r)")
  case True
  have "queue_inv (h_queue c)" using inv by (simp add: read_inv_def handle_wf_def)
  then have q: "q_dropped (fst (q_pop (h_queue c))) = 0"
    by (cases "frames (h_queue c)") (simp_all add: q_pop_some q_pop_none)
  have popped: ?thesis if "step_pop go r c = Inr (r', c')" "\<And>n f. go n \<noteq> RAfter f" for go
    using inv that(1)
    by (cases rule: step_pop_cases) (use that(2) calm c q in \<open>auto simp: calm_read_def size_add_def\<close>)
  show ?thesis
  proof (cases "rd_pc r")
    case (RPopWait w)
    show ?thesis
    proof (cases "pop_wait w (ri_waited i) (h_queue c)")
      case True
      with RPopWait step popped [of "\<lambda>result. if result = 0 then RTimeoutCheck else RInfo"] show ?thesis
        by (simp add: read_step_def)
    next
      case False
      with RPopWait step calm c show ?thesis by (simp add: read_step_def)
    qed
  next
    case RPop
    with step popped [of RFlags] show ?thesis by (simp add: read_step_def)
  qed (use True in \<open>simp_all add: popping_def\<close>)
next
  case False
  with calm c step show ?thesis
    by (cases "rd_pc r")
      (auto simp: calm_read_def read_steps popping_def sum_bind_eq_Inr split: if_splits option.splits)
qed

subsection \<open>The system\<close>

definition calm :: "target_t \<Rightarrow> sys \<Rightarrow> bool" where
  "calm t s \<longleftrightarrow> calm_loop t (s_loop s) (s_h s) \<and> q_dropped (h_queue (s_h s)) = 0 \<and>
     (\<forall>r. s_read s = Some r \<longrightarrow> calm_read r)"

definition calm_act :: "server \<Rightarrow> act \<Rightarrow> bool" where
  "calm_act sv a \<longleftrightarrow>
     (case a of
        Capture i \<Rightarrow> good_in sv i
      | Consume _ \<Rightarrow> True
      | Call _ _ info _ _ \<Rightarrow> (\<forall>fr. info = Some fr \<longrightarrow> \<not> has_flag (fr_flags fr) WEBA_FRAME_DISCONTINUITY)
      | _ \<Rightarrow> False)"

text \<open>The queue has room for every frame that has been pushed.\<close>

text \<open>A push with room in the queue drops nothing.\<close>

lemma calm_push:
  assumes reach: "reachable sys_init sys_step s" and none: "q_dropped (h_queue (s_h s)) = 0"
    and step: "loop_step i (s_loop s, s_h s) = Inr (l', c')"
    and room: "length (s_pushed s @ newly_pushed (s_loop s) (s_h s)) \<le> capacity (h_queue (s_h s))"
      "length (s_pushed s @ newly_pushed (s_loop s) (s_h s)) < size_mod"
  shows "q_dropped (h_queue c') = 0"
proof -
  let ?q = "h_queue (s_h s)"
  have acc: "accounted s" and inv: "loop_inv (s_loop s) (s_h s)"
    using reachable_labelled [OF reach] by (simp_all add: sys_safe_def)
  have queue: "h_queue c' = (if lp_pc (s_loop s) = LPush then q_push (lp_buffer (s_loop s)) ?q else ?q)"
    by (rule loop_step_queue [OF inv step])
  show ?thesis
  proof (cases "lp_pc (s_loop s) = LPush \<and> \<not> closed ?q")
    case True
    then have "explains (s_pushed s) (s_got s) (q_dropped ?q) (frames ?q)"
      using acc room(2) by (simp add: accounted_def newly_pushed_def)
    from explains_length [OF this] True room(1) have "length (frames ?q) \<noteq> capacity ?q" by (simp add: newly_pushed_def)
    moreover have "queue_inv ?q" "q_fits ?q (lp_buffer (s_loop s))" "q_accepts ?q"
      using inv True by (simp_all add: loop_inv_def handle_wf_def q_fits_def q_accepts_def)
    ultimately show ?thesis using fq.push_room True none queue by simp
  next
    case False
    have "q_push b ?q = ?q" if "closed ?q" for b using that by (simp add: q_push_def queue_push_def)
    with False none queue show ?thesis by auto
  qed
qed

lemma calm_step:
  assumes reach: "reachable sys_init sys_step s" and cl: "calm t s" and act: "calm_act sv a"
    and sv: "resolve_spec sv [] = Some t" "tg_monitor t \<noteq> []" and step: "sys_step s a u"
    and room: "length (s_pushed u) \<le> capacity (h_queue (s_h s))" "length (s_pushed u) < size_mod"
  shows "calm t u"
proof -
  have safe: "sys_safe s" using reachable_labelled [OF reach] by simp
  from step show ?thesis
  proof cases
    case (sys_capture i l' c')
    have inv: "loop_inv (s_loop s) (s_h s)" using safe by (simp add: sys_safe_def)
    have loop: "calm_loop t l' c'"
      by (rule calm_loop_step [OF _ inv _ sv sys_capture(3)])
        (use cl act in \<open>simp_all add: calm_def calm_act_def sys_capture(1)\<close>)
    have "q_dropped (h_queue (s_h s)) = 0" using cl by (simp add: calm_def)
    from calm_push [OF reach this sys_capture(3)] room have "q_dropped (h_queue c') = 0"
      by (simp add: sys_capture(2))
    with loop cl show ?thesis unfolding sys_capture(2) by (simp add: calm_def)
  next
    case (sys_consume r i r' c')
    have r: "calm_read r" "h_pending_flags (s_h s) = 0" "q_dropped (h_queue (s_h s)) = 0"
      using cl sys_consume(3) by (simp_all add: calm_def calm_loop_def)
    show ?thesis
    proof (cases "\<exists>st. rd_pc r = RReturn st")
      case True
      with sys_consume cl show ?thesis by (auto simp: read_step_def calm_def)
    next
      case False
      have inv: "read_inv r (s_h s)" by (rule sys_consume_inv [OF safe sys_consume(3) False])
      from calm_read_step [OF inv r sys_consume(5)] read_step_inv [OF inv, of i] sys_consume(5) cl show ?thesis
        unfolding sys_consume(2) by (auto simp: calm_def calm_loop_def read_frame_rel_def)
    qed
  next
    case (sys_call now d cap info timeout r)
    have "handle_wf (s_h s)" using safe by (simp add: sys_safe_def)
    with sys_call(6) act have "calm_read r"
      by (auto simp: read_entry_cases calm_read_def read_refused_def calm_act_def sys_call(1) split: if_splits)
    with cl show ?thesis unfolding sys_call(2) by (simp add: calm_def)
  qed (use act in \<open>simp_all add: calm_act_def\<close>)
qed

text \<open>Nothing is ever taken from the history, and the capacity of the queue is fixed.\<close>

lemma sys_run_pushed: "sys_run as s = Some u \<Longrightarrow> length (s_pushed s) \<le> length (s_pushed u)"
proof (induction as arbitrary: s)
  case (Cons a as)
  then obtain v where v: "sys_next a s = Some v" "sys_run as v = Some u"
    by (auto simp: Option.bind_eq_Some_conv)
  have "length (s_pushed s) \<le> length (s_pushed v)"
    using sys_next_step [OF v(1)] by cases simp_all
  with Cons.IH [OF v(2)] show ?case by simp
qed simp

lemma calm_capacity:
  assumes safe: "sys_safe s" and act: "calm_act sv a" and step: "sys_step s a u"
  shows "capacity (h_queue (s_h u)) = capacity (h_queue (s_h s))"
  using step
proof cases
  case (sys_capture i l' c')
  have "loop_inv (s_loop s) (s_h s)" using safe by (simp add: sys_safe_def)
  from loop_step_inv [OF this, of i] sys_capture(3) show ?thesis
    unfolding sys_capture(2) by (auto simp: loop_frame_def)
next
  case (sys_consume r i r' c')
  show ?thesis
  proof (cases "\<exists>st. rd_pc r = RReturn st")
    case True
    with sys_consume show ?thesis by (auto simp: read_step_def)
  next
    case False
    from read_step_inv [OF sys_consume_inv [OF safe sys_consume(3) False], of i] sys_consume(5) show ?thesis
      unfolding sys_consume(2) by (auto simp: read_frame_rel_def)
  qed
qed (use act in \<open>simp_all add: calm_act_def\<close>)

definition calm_at :: "target_t \<Rightarrow> sys \<Rightarrow> bool" where
  "calm_at t s \<longleftrightarrow> reachable sys_init sys_step s \<and> calm t s \<and> capacity (h_queue (s_h s)) = 100"

lemma calm_run:
  "sys_run as s = Some u \<Longrightarrow> calm_at t s \<Longrightarrow> \<forall>a\<in>set as. calm_act sv a \<Longrightarrow> resolve_spec sv [] = Some t \<Longrightarrow>
     tg_monitor t \<noteq> [] \<Longrightarrow> length (s_pushed u) \<le> 100 \<Longrightarrow> calm_at t u"
proof (induction as arbitrary: s)
  case (Cons a as)
  then obtain v where v: "sys_next a s = Some v" "sys_run as v = Some u"
    by (auto simp: Option.bind_eq_Some_conv)
  note step = sys_next_step [OF v(1)]
  have at: "reachable sys_init sys_step s" "calm t s" "capacity (h_queue (s_h s)) = 100"
    using Cons.prems(2) by (simp_all add: calm_at_def)
  have act: "calm_act sv a" using Cons.prems(3) by simp
  have le: "length (s_pushed v) \<le> 100" using sys_run_pushed [OF v(2)] Cons.prems(6) by simp
  have "calm t v"
    by (rule calm_step [OF at(1,2) act Cons.prems(4,5) step]) (use le at(3) in \<open>simp_all add: size_mod_def\<close>)
  moreover have "sys_safe s" using reachable_labelled [OF at(1)] by simp
  from calm_capacity [OF this act step] have "capacity (h_queue (s_h v)) = 100" by (simp add: at(3))
  ultimately have "calm_at t v" using reach_step [OF at(1) step] by (simp add: calm_at_def)
  from Cons.IH [OF v(2) this] Cons.prems(3-6) show ?case by simp
qed simp

subsection \<open>The reads of the self test\<close>

definition turn_good :: "server \<Rightarrow> turn \<Rightarrow> bool" where
  "turn_good sv t \<longleftrightarrow> (\<forall>i\<in>set (tn_idle t). good_in sv i) \<and>
     (\<forall>x\<in>set (tn_steps t). case x of Inl i \<Rightarrow> good_in sv i | Inr _ \<Rightarrow> True)"

lemma calm_dump_read:
  assumes read: "dump_read info buffer tn s = Some ((st, buf, frame), u)" and at: "calm_at t s"
    and good: "turn_good sv tn" and sv: "resolve_spec sv [] = Some t" "tg_monitor t \<noteq> []"
    and le: "length (s_pushed u) \<le> 100"
  shows "calm_at t u" "\<not> has_flag (fr_flags frame) WEBA_FRAME_DISCONTINUITY"
proof -
  let ?as = "Call buffer (fi_frame_samples info) (Some zero_frame) 1000 (tn_now tn) # map thread_act (tn_steps tn)"
  from read have run: "sys_run ?as s = Some u" and res: "call_result u = Some (st, buf, frame)"
    by (auto simp: dump_read_def Option.bind_eq_Some_conv)
  have "\<forall>a\<in>set ?as. calm_act sv a"
    using good by (auto simp: calm_act_def thread_act_def turn_good_def zero_frame_def split: sum.splits)
  from calm_run [OF run at this sv le] show u: "calm_at t u" .
  from res obtain r where r: "s_read u = Some r"
    "frame = (case rd_info r of None \<Rightarrow> zero_frame | Some f \<Rightarrow> f)"
    by (auto simp: call_result_def split: option.splits read_pc.splits)
  have "calm_read r" using u r(1) by (simp add: calm_at_def calm_def)
  then show "\<not> has_flag (fr_flags frame) WEBA_FRAME_DISCONTINUITY"
    by (simp add: calm_read_def r(2) zero_frame_def split: option.split)
qed

lemma read_frames_pushed:
  "read_frames info count ts buffer k (st, s) = Some (k', st', u) \<Longrightarrow> length (s_pushed s) \<le> length (s_pushed u)"
proof (induction ts arbitrary: buffer k s)
  case (Cons tn ts)
  show ?case
  proof (cases "rt_index k < count")
    case True
    with Cons.prems obtain v status buf frame w where v: "sys_run (map Capture (tn_idle tn)) s = Some v"
      and w: "dump_read info buffer tn v = Some ((status, buf, frame), w)"
      and rest: "w = u \<or> read_frames info count ts buf (tally_frame frame k) (st, w) = Some (k', st', u)"
      by (fastforce simp: Option.bind_eq_Some_conv split: if_splits)
    from w have "length (s_pushed v) \<le> length (s_pushed w)"
      by (auto simp: dump_read_def Option.bind_eq_Some_conv dest!: sys_run_pushed sys_next_step elim!: sys_callE)
    with sys_run_pushed [OF v] rest Cons.IH show ?thesis by fastforce
  next
    case False
    with Cons.prems show ?thesis by simp
  qed
qed (simp split: if_splits)

lemma read_frames_calm:
  "read_frames info count ts buffer k (st, s) = Some (k', st', u) \<Longrightarrow> calm_at t s \<Longrightarrow> \<forall>tn\<in>set ts. turn_good sv tn \<Longrightarrow>
     resolve_spec sv [] = Some t \<Longrightarrow> tg_monitor t \<noteq> [] \<Longrightarrow> length (s_pushed u) \<le> 100 \<Longrightarrow> rt_gaps k' = rt_gaps k"
proof (induction ts arbitrary: buffer k s)
  case (Cons tn ts)
  show ?case
  proof (cases "rt_index k < count")
    case True
    with Cons.prems(1) obtain v status buf frame w where v: "sys_run (map Capture (tn_idle tn)) s = Some v"
      and w: "dump_read info buffer tn v = Some ((status, buf, frame), w)"
      and rest: "w = u \<and> k' = k \<or> read_frames info count ts buf (tally_frame frame k) (st, w) = Some (k', st', u)"
      by (fastforce simp: Option.bind_eq_Some_conv split: if_splits)
    have good: "turn_good sv tn" "\<forall>tn\<in>set ts. turn_good sv tn" using Cons.prems(3) by simp_all
    have le: "length (s_pushed w) \<le> 100" using rest read_frames_pushed Cons.prems(6) le_trans by blast
    have "length (s_pushed v) \<le> length (s_pushed w)" using w
      by (auto simp: dump_read_def Option.bind_eq_Some_conv dest!: sys_run_pushed sys_next_step elim!: sys_callE)
    with le have "length (s_pushed v) \<le> 100" by simp
    moreover have "\<forall>a\<in>set (map Capture (tn_idle tn)). calm_act sv a"
      using good(1) by (auto simp: calm_act_def turn_good_def)
    ultimately have "calm_at t v" using calm_run [OF v Cons.prems(2) _ Cons.prems(4,5)] by blast
    note r = calm_dump_read [OF w this good(1) Cons.prems(4,5) le]
    have "rt_gaps (tally_frame frame k) = rt_gaps k" using r(2) by (simp add: tally_frame_def Let_def)
    with rest Cons.IH [OF _ r(1) good(2) Cons.prems(4-6)] show ?thesis by metis
  next
    case False
    with Cons.prems(1) show ?thesis by simp
  qed
qed (simp split: if_splits)

text \<open>What has been captured by the end of the reads; it does not depend on the checks.\<close>

definition first_tally :: read_tally where
  "first_tally = \<lparr>rt_silent = 0, rt_gaps = 0, rt_index = 0\<rparr>"

definition frames_captured :: "test_env \<Rightarrow> nat" where
  "frames_captured e =
     (case reads_begin e of
        None \<Rightarrow> 0
      | Some (info, s) \<Rightarrow>
          (case read_frames info frame_count (te_reads e) (replicate (dump_frame_bytes info) 0) first_tally
                  (\<lparr>ts_failures = 0, ts_out = []\<rparr>, s) of
             None \<Rightarrow> 0
           | Some (_, _, u) \<Rightarrow> length (s_pushed u)))"

text \<open>Every answer is in good order, and the queue of the default configuration never fills.\<close>

definition test_healthy :: "server \<Rightarrow> test_env \<Rightarrow> bool" where
  "test_healthy sv e \<longleftrightarrow> (\<forall>k\<in>{0, 1, 2}. \<forall>i\<in>set (te_idle e k). good_in sv i) \<and>
     (\<forall>tn\<in>set (te_reads e). turn_good sv tn) \<and> frames_captured e \<le> 100"

lemma read_frames_checks:
  "read_frames info count ts buffer k (st, s) = Some (k', st', u) \<Longrightarrow>
     \<exists>st''. read_frames info count ts buffer k (st2, s) = Some (k', st'', u)"
proof (induction ts arbitrary: buffer k s)
  case (Cons tn ts)
  show ?case
  proof (cases "rt_index k < count")
    case True
    with Cons.prems obtain v status buf frame w where v: "sys_run (map Capture (tn_idle tn)) s = Some v"
      and w: "dump_read info buffer tn v = Some ((status, buf, frame), w)"
      and rest: "if status \<noteq> 1 then w = u \<and> k' = k
        else read_frames info count ts buf (tally_frame frame k) (st, w) = Some (k', st', u)"
      by (fastforce simp: Option.bind_eq_Some_conv split: if_splits)
    with True Cons.IH show ?thesis by (auto split: if_splits)
  next
    case False
    with Cons.prems show ?thesis by simp
  qed
qed (simp split: if_splits)

lemma reads_begin_calm:
  assumes sur: "test_surroundings sv t e" and good: "\<forall>k\<in>{0, 1, 2}. \<forall>i\<in>set (te_idle e k). good_in sv i"
    and begin': "reads_begin e = Some (info, s)" and le: "length (s_pushed s) \<le> 100"
  shows "calm_at t s" "tg_monitor t \<noteq> []"
proof -
  have alloc: "te_handle_ok e k" "te_alloc_ok e k n" for k n using sur by (simp_all add: test_surroundings_def)
  obtain c where create: "weba_capture_create True (te_handle_ok e 5) (te_alloc_ok e 5) (Some (test_config e)) = Inr (WEBA_OK, Some c)"
    and c: "startable c" "h_requested_sink c = []" "h_fixed_rate c" "frame_bytes c = 7680" "mic_format_of c =
      \<lparr>mf_sample_rate = 48000, mf_channels = 2, mf_format = WEBA_SAMPLE_F32LE, mf_frame_samples = 960\<rparr>"
    and cap: "capacity (h_queue c) = 100"
    by (rule test_created [OF alloc])
  obtain c' where start: "weba_capture_start (te_start e) (Some c) = Inr (WEBA_OK, Some c', Some (loop_start c'))"
    and names: "names t (loop_start c') c'"
    by (rule test_started [OF sur c order_refl]) blast
  let ?s0 = "(sys_of c')\<lparr>s_clock := te_early e\<rparr>"
  have st: "started c'" using start_started(1) [OF c(1) start] .
  have "h_queue c' = h_queue c"
    using start by (auto simp: weba_capture_start_def sum_bind_eq_Inr publish_format_def Let_def status_defs
        split: if_splits prod.splits option.splits)
  moreover have "reachable sys_init sys_step ?s0"
    by (rule reach_init) (simp add: sys_init_def sys_of_def st)
  ultimately have at0: "calm_at t ?s0"
    using st names cap
    by (simp add: calm_at_def calm_def calm_loop_def calm_pc_def sys_of_def loop_start_def started_def names_def)
  let ?as = "map Capture (te_idle e 0 @ te_idle e 1 @ te_idle e 2) @
    [Call (test_scratch (test_config e)) (cfg_frame_samples (test_config e) - 1) None 0 (te_small e)]"
  have run: "sys_run ?as ?s0 = Some s"
    using begin' create start by (auto simp: reads_begin_def Let_def Option.bind_eq_Some_conv sys_run_append)
  have "\<forall>a\<in>set ?as. calm_act sv a" using good by (auto simp: calm_act_def)
  moreover show mon: "tg_monitor t \<noteq> []"
    using sur by (auto simp: test_surroundings_def contains_text_def fixed_name_def)
  moreover have "resolve_spec sv [] = Some t" using sur by (simp add: test_surroundings_def)
  ultimately show "calm_at t s" using calm_run [OF run at0 _ _ _ le] by blast
qed

lemma healthy_no_gaps:
  assumes sur: "test_surroundings sv t e" and healthy: "test_healthy sv e"
    and begin': "reads_begin e = Some (info, s)" and reads: "test_reads e (test_config e) info (ts, s) = Some (k, y)"
  shows "rt_gaps k = 0"
proof -
  let ?b = "replicate (dump_frame_bytes info) 0"
  from reads obtain ts' u where run: "read_frames info frame_count (te_reads e) ?b first_tally (ts, s) = Some (k, ts', u)"
    by (auto simp: test_reads_def first_tally_def Let_def)
  from read_frames_checks [OF this] obtain ts'' where
    run0: "read_frames info frame_count (te_reads e) ?b first_tally (\<lparr>ts_failures = 0, ts_out = []\<rparr>, s) = Some (k, ts'', u)" by blast
  then have le: "length (s_pushed u) \<le> 100" using healthy begin' by (simp add: test_healthy_def frames_captured_def)
  then have le0: "length (s_pushed s) \<le> 100" using read_frames_pushed [OF run] by simp
  have good: "\<forall>k\<in>{0, 1, 2}. \<forall>i\<in>set (te_idle e k). good_in sv i" "\<forall>tn\<in>set (te_reads e). turn_good sv tn"
    using healthy by (simp_all add: test_healthy_def)
  note calm = reads_begin_calm [OF sur good(1) begin' le0]
  have "resolve_spec sv [] = Some t" using sur by (simp add: test_surroundings_def)
  from read_frames_calm [OF run calm(1) good(2) this calm(2) le] show ?thesis by (simp add: first_tally_def)
qed

end
