(* ===== verification/Sample_Test.thy ===== *)
theory Sample_Test
  imports Calm_Run Sample_Run
begin

text \<open>
  A run of the self test on a server with one sink, with fifty reads at 22 ms, each of which sleeps
  for 21 ms. It serves as the instance of the self test's property.
\<close>

subsection \<open>Reads that come in time\<close>

text \<open>
  With frames of 20 ms a turn that leaves its sleep 21 ms is served, whatever the next deadline is,
  for that is at most a period away.
\<close>

definition turn_prompt :: "turn \<Rightarrow> bool" where
  "turn_prompt t \<longleftrightarrow>
     (let rs = rounds_of [] (tn_steps t); i = (\<lambda>k. snd (rs ! k)) in
      tn_before t \<and> ends_reading (tn_steps t) \<and> length rs = 6 \<and> clock_runs (tn_now t) rs \<and>
      ri_now (i 0) = tn_now t \<and> 21000 \<le> ri_waited (i 1) \<and> tn_now t + 21000000 \<le> ri_now (i 2))"

lemma prompt_served:
  assumes reach: "reachable sys_init sys_step s" and prompt: "turn_prompt t" and clock: "s_clock s \<le> tn_now t"
    and per: "period_ns (s_h s) = 20000000"
  shows "turn_served t s"
proof -
  let ?i = "\<lambda>k. snd (rounds_of [] (tn_steps t) ! k)" and ?p = "period_us (h_frame_samples (s_h s)) (h_sample_rate (s_h s))"
  have soon: "due_soon s" using soon.both.invariant [OF reach] by simp
  let ?due = "due_at (s_h s) (tn_now t) ?p"
  have "?due \<le> tn_now t + 20000000" using due_at_soon [OF soon clock] per by simp
  then have "ns_to_us (?due - tn_now t) \<le> 20000"
    using ns_to_us_neg [of "?due - tn_now t"] ns_to_us_bounds [of "?due - tn_now t"]
    by (cases "0 \<le> ?due - tn_now t") simp_all
  then have "sleep_wait ?due (tn_now t + ms_to_ns 1000) (tn_now t) \<le> 21000" by (simp add: sleep_wait_def)
  moreover from this have "us_to_ns (sleep_wait ?due (tn_now t + ms_to_ns 1000) (tn_now t)) \<le> 21000000"
    by (simp add: us_to_ns_def)
  ultimately show ?thesis using prompt clock per
    by (simp add: turn_served_def turn_prompt_def ms_to_ns_def Let_def)
qed

fun turns_prompt :: "ns \<Rightarrow> turn list \<Rightarrow> bool" where
  "turns_prompt now [] = True"
| "turns_prompt now (t # ts) \<longleftrightarrow> now \<le> tn_now t \<and> turn_prompt t \<and> turn_between (tn_now t) (tn_now t + 22000000) t \<and>
     turns_prompt (tn_now t + 22000000) ts"

lemma prompt_reads_served:
  "test_at info T E n s \<Longrightarrow> describes info
     \<lparr>mf_sample_rate = 48000, mf_channels = 2, mf_format = WEBA_SAMPLE_F32LE, mf_frame_samples = 960\<rparr> \<Longrightarrow>
   turns_prompt E ts \<Longrightarrow> T \<le> E \<Longrightarrow> length buffer = dump_frame_bytes info \<Longrightarrow> reads_served info ts buffer s"
proof (induction ts arbitrary: n s buffer E)
  case (Cons t ts)
  let ?E = "tn_now t + 22000000"
  have at: "test_at info T ?E n s" using Cons.prems(1,3) by (simp add: test_at_def)
  have "mic_format_of (s_h s) = \<lparr>mf_sample_rate = 48000, mf_channels = 2, mf_format = WEBA_SAMPLE_F32LE, mf_frame_samples = 960\<rparr>"
    using Cons.prems(1,2) by (simp add: test_at_def describes_def mic_format_of_def)
  then have per: "period_ns (s_h s) = 20000000"
    by (simp add: mic_format_of_def period_ns_def period_us_def us_to_ns_def)
  have served: "turn_served t s"
    by (rule prompt_served [OF running_at(3) [OF at] _ _ per]) (use Cons.prems(1,3) in \<open>simp_all add: test_at_def\<close>)
  obtain u where u: "sys_run (map Capture (tn_idle t)) s = Some u" "test_at info T ?E n u"
    "loop_frame (s_h s) (s_h u)" "s_clock u = s_clock s"
    by (rule test_at_runs [OF at, of "tn_idle t"])
  have "turn_between T ?E t" using Cons.prems(3,4) by (simp add: turn_between_def)
  from test_read [OF u(2) turn_served_idle [OF served u(3,4)] this Cons.prems(5)] obtain buf frame s' where
    read: "dump_read info buffer t u = Some ((1, buf, frame), s')" "length buf = dump_frame_bytes info"
      "test_at info T ?E (n + 1) s'" .
  have "reads_served info ts buf s'"
    by (rule Cons.IH [OF read(3) Cons.prems(2) _ _ read(2)]) (use Cons.prems(3,4) in simp_all)
  with served u(1) read(1) show ?case by simp
qed simp

subsection \<open>The reads begin\<close>

lemma reads_begin_at:
  assumes sur: "test_surroundings sv t e" and order: "te_early e \<le> te_small e" "te_small e \<le> E"
  obtains info s where "reads_begin e = Some (info, s)" "test_at info T E 0 s"
    "describes info \<lparr>mf_sample_rate = 48000, mf_channels = 2, mf_format = WEBA_SAMPLE_F32LE, mf_frame_samples = 960\<rparr>"
proof -
  have alloc: "te_handle_ok e k" "te_alloc_ok e k n" for k n using sur by (simp_all add: test_surroundings_def)
  have early: "te_early e \<le> E" using order by simp
  obtain c where create: "weba_capture_create True (te_handle_ok e 5) (te_alloc_ok e 5) (Some (test_config e)) = Inr (WEBA_OK, Some c)"
    and c: "startable c" "h_requested_sink c = []" "h_fixed_rate c" "frame_bytes c = 7680" "mic_format_of c =
      \<lparr>mf_sample_rate = 48000, mf_channels = 2, mf_format = WEBA_SAMPLE_F32LE, mf_frame_samples = 960\<rparr>"
    by (rule test_created [OF alloc])
  obtain c' where start: "weba_capture_start (te_start e) (Some c) = Inr (WEBA_OK, Some c', Some (loop_start c'))"
    and at0: "test_at (h_format_info c') T E 0 ((sys_of c')\<lparr>s_clock := te_early e\<rparr>)"
    and names: "names t (loop_start c') c'" and F: "mic_format_of c' = mic_format_of c"
    by (rule test_started [OF sur c early, where T = T])
  let ?s0 = "(sys_of c')\<lparr>s_clock := te_early e\<rparr>"
  have s0: "names t (s_loop ?s0) (s_h ?s0)" "s_clock ?s0 \<le> te_small e" "mic_format_of (s_h ?s0) =
      \<lparr>mf_sample_rate = 48000, mf_channels = 2, mf_format = WEBA_SAMPLE_F32LE, mf_frame_samples = 960\<rparr>"
    using names order F c(5) by (simp_all add: sys_of_def)
  from test_looks [OF sur at0 s0(1,3,2) order(2)] obtain s1 s2 s3 s4 where
    "sys_run (map Capture (te_idle e 0)) ?s0 = Some s1" "sys_run (map Capture (te_idle e 1)) s1 = Some s2"
    "sys_run (map Capture (te_idle e 2)) s2 = Some s3"
    "sys_next (Call (test_scratch (test_config e)) (cfg_frame_samples (test_config e) - 1) None 0 (te_small e)) s3 = Some s4"
    and at: "test_at (h_format_info (s_h s2)) T E 0 s4"
      "describes (h_format_info (s_h s2))
         \<lparr>mf_sample_rate = 48000, mf_channels = 2, mf_format = WEBA_SAMPLE_F32LE, mf_frame_samples = 960\<rparr>" by metis
  then have "reads_begin e = Some (h_format_info (s_h s2), s4)"
    using create start by (simp add: reads_begin_def Let_def)
  from this at show ?thesis by (rule that)
qed

subsection \<open>The surroundings\<close>

definition one_sink :: server where
  "one_sink = \<lparr>sv_default = Some ''hdmi'', sv_sinks = (\<lambda>s. if s = ''hdmi'' then Some (Some ''hdmi.monitor'') else None)\<rparr>"

definition one_sink_resolve :: resolve_env where
  "one_sink_resolve =
     \<lparr>re_default = \<lparr>qe_issued = True, qe_calls = [Some (Some ''hdmi'')], qe_strerror = ''''\<rparr>,
      re_monitor = (\<lambda>s. \<lparr>qe_issued = True,
        qe_calls = (if s = ''hdmi''
          then [\<lparr>si_strerror = '''', si_info = Some (Some ''hdmi.monitor''), si_eol = 0\<rparr>,
                \<lparr>si_strerror = '''', si_info = None, si_eol = 1\<rparr>]
          else [\<lparr>si_strerror = ''No such entity'', si_info = None, si_eol = -1\<rparr>]), qe_strerror = ''''\<rparr>)\<rparr>"

lemma one_sink_serves: "serves one_sink one_sink_resolve"
  by (simp add: serves_def answers_default_def answers_monitor_def one_sink_def one_sink_resolve_def)

definition test_turn :: "nat \<Rightarrow> turn" where
  "test_turn k = (let now = int k * 22000000 in
     \<lparr>tn_before = True, tn_idle = replicate 1 ((sample_in 0 5)\<lparr>li_resolve := one_sink_resolve\<rparr>), tn_now = now,
      tn_steps = map Inr (replicate 2 \<lparr>ri_now = now, ri_waited = 21000\<rparr> @
        replicate 4 \<lparr>ri_now = now + 21000000, ri_waited = 0\<rparr>), tn_report = False\<rparr>)"

definition sample_test :: test_env where
  "sample_test = \<lparr>te_uninit = sample_config, te_handle_ok = (\<lambda>_. True), te_alloc_ok = (\<lambda>_ _. True),
     te_states = [CtxTerminated], te_early = 0, te_start = sample_start\<lparr>se_resolve := one_sink_resolve\<rparr>,
     te_bad = sample_start\<lparr>se_resolve := one_sink_resolve\<rparr>,
     te_idle = (\<lambda>_. replicate 9 ((sample_in 0 5)\<lparr>li_resolve := one_sink_resolve\<rparr>)), te_small = 0, te_started = 0,
     te_reads = map test_turn [0..<50], te_ended = 1100000000, te_ratio = ''1.100000'',
     te_stop = replicate 10 sample_bad, te_waited = 0\<rparr>"

lemma sample_test_surroundings:
  "test_surroundings one_sink \<lparr>tg_sink = ''hdmi'', tg_monitor = ''hdmi.monitor''\<rparr> sample_test"
proof -
  have "contains_text ''.monitor'' (fixed_name ''hdmi.monitor'')" by code_simp
  then show ?thesis
    using one_sink_serves
    by (simp add: test_surroundings_def sample_test_def sample_start_def sample_connect_def connects_def
        resolve_spec_def one_sink_def)
qed

lemma test_turn_prompt: "turn_prompt (test_turn k)" "turn_between (int k * 22000000) (int k * 22000000 + 22000000) (test_turn k)"
  by (simp_all add: turn_prompt_def turn_between_def test_turn_def numeral_eq_Suc Let_def)

lemma test_turns_prompt: "turns_prompt (int k * 22000000) (map test_turn [k..<k + n])"
proof (induction n arbitrary: k)
  case (Suc n)
  have "tn_now (test_turn k) = int k * 22000000" by (simp add: test_turn_def Let_def)
  moreover have "[k..<k + Suc n] = k # [Suc k..<Suc k + n]" by (subst upt_conv_Cons) simp_all
  ultimately show ?case using Suc.IH [of "Suc k"] test_turn_prompt [of k]
    by (simp add: algebra_simps del: upt_Suc)
qed simp

lemma sample_test_timely: "test_timely sample_test"
proof -
  have e: "te_early sample_test = 0" "te_small sample_test = 0" "te_started sample_test = 0"
    "te_reads sample_test = map test_turn [0..<50]" "te_ended sample_test = 1100000000"
    by (simp_all add: sample_test_def)
  obtain info s where b: "reads_begin sample_test = Some (info, s)" "test_at info 0 0 0 s"
    "describes info \<lparr>mf_sample_rate = 48000, mf_channels = 2, mf_format = WEBA_SAMPLE_F32LE, mf_frame_samples = 960\<rparr>"
    by (rule reads_begin_at [OF sample_test_surroundings, where T = 0 and E = 0]) (simp_all add: e)
  have "turns_prompt 0 (map test_turn [0..<50])" using test_turns_prompt [of 0 50] by simp
  from prompt_reads_served [OF b(2,3) this order_refl length_replicate]
  have "reads_served info (map test_turn [0..<50]) (replicate (dump_frame_bytes info) 0) s" .
  moreover have "turn_between 0 1100000000 (test_turn k)" if "k < 50" for k
  proof -
    have "int k * 22000000 + 22000000 \<le> 1100000000" using that by simp
    then show ?thesis using test_turn_prompt(2) [of k] by (fastforce simp: turn_between_def split: sum.splits)
  qed
  ultimately show ?thesis by (simp add: test_timely_def e b(1))
qed

subsection \<open>A healthy run\<close>

text \<open>A step of the thread pushes one frame at most.\<close>

definition captures_in :: "act list \<Rightarrow> nat" where
  "captures_in as = length (filter (\<lambda>a. case a of Capture _ \<Rightarrow> True | _ \<Rightarrow> False) as)"

lemma sys_run_pushed_le: "sys_run as s = Some u \<Longrightarrow> length (s_pushed u) \<le> length (s_pushed s) + captures_in as"
proof (induction as arbitrary: s)
  case (Cons a as)
  then obtain v where v: "sys_next a s = Some v" "sys_run as v = Some u"
    by (auto simp: Option.bind_eq_Some_conv)
  have "length (s_pushed v) \<le> length (s_pushed s) + captures_in [a]"
    using sys_next_step [OF v(1)] by cases (simp_all add: captures_in_def newly_pushed_def)
  with Cons.IH [OF v(2)] show ?case by (simp add: captures_in_def split: if_splits)
qed simp

lemma test_turn_captures:
  assumes "sys_run (map Capture (tn_idle (test_turn k))) s = Some v"
    "dump_read info buffer (test_turn k) v = Some (y, u)"
  shows "length (s_pushed u) \<le> length (s_pushed s) + 1"
proof -
  have "length (s_pushed v) \<le> length (s_pushed s) + 1"
    using sys_run_pushed_le [OF assms(1)] by (simp add: captures_in_def test_turn_def Let_def)
  moreover from assms(2) have "sys_run (Call buffer (fi_frame_samples info) (Some zero_frame) 1000 (tn_now (test_turn k)) #
      map thread_act (tn_steps (test_turn k))) v = Some u"
    by (auto simp: dump_read_def Option.bind_eq_Some_conv)
  from sys_run_pushed_le [OF this] have "length (s_pushed u) \<le> length (s_pushed v)"
    by (simp add: captures_in_def test_turn_def thread_act_def Let_def)
  ultimately show ?thesis by simp
qed

lemma test_reads_captures:
  "read_frames info count (map test_turn ks) buffer k (st, s) = Some (k', st', u) \<Longrightarrow>
     length (s_pushed u) \<le> length (s_pushed s) + length ks"
proof (induction ks arbitrary: buffer k s)
  case (Cons n ks)
  show ?case
  proof (cases "rt_index k < count")
    case True
    with Cons.prems obtain v status buf frame w where v: "sys_run (map Capture (tn_idle (test_turn n))) s = Some v"
      and w: "dump_read info buffer (test_turn n) v = Some ((status, buf, frame), w)"
      and rest: "w = u \<or> read_frames info count (map test_turn ks) buf (tally_frame frame k) (st, w) = Some (k', st', u)"
      by (fastforce simp: Option.bind_eq_Some_conv split: if_splits)
    from test_turn_captures [OF v w] rest Cons.IH show ?thesis by fastforce
  next
    case False
    with Cons.prems show ?thesis by simp
  qed
qed (simp split: if_splits)

lemma reads_begin_captures:
  assumes "reads_begin e = Some (info, s)"
  shows "length (s_pushed s) \<le> length (te_idle e 0) + length (te_idle e 1) + length (te_idle e 2)"
proof -
  from assms obtain c' where "sys_run (map Capture (te_idle e 0 @ te_idle e 1 @ te_idle e 2) @
      [Call (test_scratch (test_config e)) (cfg_frame_samples (test_config e) - 1) None 0 (te_small e)])
      ((sys_of c')\<lparr>s_clock := te_early e\<rparr>) = Some s"
    by (auto simp: reads_begin_def Let_def Option.bind_eq_Some_conv sys_run_append
        split: sum.splits prod.splits option.splits)
  from sys_run_pushed_le [OF this] show ?thesis by (simp add: captures_in_def sys_of_def comp_def)
qed

lemma sample_test_healthy: "test_healthy one_sink sample_test"
proof -
  have good: "good_in one_sink ((sample_in 0 5)\<lparr>li_resolve := one_sink_resolve\<rparr>)"
    using one_sink_serves by (simp add: good_in_def sample_in_def)
  then have "turn_good one_sink (test_turn k)" for k
    by (auto simp: turn_good_def test_turn_def Let_def)
  moreover have "frames_captured sample_test \<le> 100"
  proof -
    have "length (s_pushed u) \<le> 100" if b: "reads_begin sample_test = Some (info, s)"
      and r: "read_frames info frame_count (te_reads sample_test) buffer first_tally (st, s) = Some (k, st', u)" for info s buffer st k st' u
    proof -
      have "te_reads sample_test = map test_turn [0..<50]" by (simp add: sample_test_def)
      from r [unfolded this] have "length (s_pushed u) \<le> length (s_pushed s) + 50"
        using test_reads_captures by fastforce
      moreover have "length (s_pushed s) \<le> 27" using reads_begin_captures [OF b] by (simp add: sample_test_def)
      ultimately show ?thesis by simp
    qed
    then show ?thesis by (auto simp: frames_captured_def split: option.split)
  qed
  ultimately show ?thesis using good by (auto simp: test_healthy_def sample_test_def)
qed

end
