(* ===== verification/Resources.thy ===== *)
theory Resources
  imports Lifecycle "HOL-Library.Multiset"
begin

text \<open>
  Who owns what: the main loop and the context of \<open>control_t\<close>, and the recording streams that the
  capture thread opens (\<open>src/pulse_control.cpp\<close>, \<open>src/pulse_mic.cpp\<close>, \<open>src/capture.cpp\<close>). Each
  operation has the list of what it acquires and releases, in the order of the code; replaying the
  lists gives what is live, and fails on the release of something that is not.
\<close>

subsection \<open>Acquiring and releasing\<close>

datatype resource = Mainloop | Context | Stream nat

datatype use = Acquire resource | Release resource

fun live :: "use list \<Rightarrow> resource multiset \<Rightarrow> resource multiset option" where
  "live [] m = Some m"
| "live (Acquire r # us) m = live us (add_mset r m)"
| "live (Release r # us) m = (if r \<in># m then live us (m - {#r#}) else None)"

lemma live_append: "live (us @ vs) m = Option.bind (live us m) (live vs)"
  by (induction us m rule: live.induct) simp_all

subsection \<open>The recording stream\<close>

text \<open>\<open>pa_simple_deleter_t\<close> frees a stream that is not null; \<open>~mic_t()\<close> runs it.\<close>

definition pa_simple_delete :: "nat option \<Rightarrow> use list" where
  "pa_simple_delete stream = (case stream of None \<Rightarrow> [] | Some n \<Rightarrow> [Release (Stream n)])"

definition mic_delete :: "mic option \<Rightarrow> use list" where
  "mic_delete m = (case m of None \<Rightarrow> [] | Some stream \<Rightarrow> pa_simple_delete stream)"

definition mic_open_uses :: "string + mic \<Rightarrow> use list" where
  "mic_open_uses r = (case r of Inr (Some n) \<Rightarrow> [Acquire (Stream n)] | _ \<Rightarrow> [])"

text \<open>
  The \<open>unique_ptr\<close> of \<open>capture_loop()\<close>: assigned by an opening, which destroys what it held; reset by
  a failed read and by a moved default sink; destroyed when the function returns.
\<close>

definition loop_uses :: "loop_in \<Rightarrow> loop_state \<times> weba_capture \<Rightarrow> use list" where
  "loop_uses i s =
     (let (l, c) = s in
      case lp_pc l of
        LOpen target \<Rightarrow>
          mic_open_uses (mic_open (li_simple_new i) (li_strerror i) (tg_monitor target) (mic_format_of c))
            @ mic_delete (lp_mic l)
      | LRead \<Rightarrow>
          (case mic_read (li_read i) (li_strerror i) (Option.bind (lp_mic l) id) (frame_bytes c) of
             Inl _ \<Rightarrow> mic_delete (lp_mic l)
           | Inr _ \<Rightarrow> [])
      | LFollow \<Rightarrow> if lp_mic (fst (step_follow i l c)) = None then mic_delete (lp_mic l) else []
      | LExit \<Rightarrow> mic_delete (lp_mic l)
      | _ \<Rightarrow> [])"

fun loop_trace :: "loop_in list \<Rightarrow> loop_state \<times> weba_capture \<Rightarrow> use list" where
  "loop_trace [] s = []"
| "loop_trace (i # is) s =
     loop_uses i s @ (case loop_step i s of Inl _ \<Rightarrow> [] | Inr s' \<Rightarrow> loop_trace is s')"

subsection \<open>The connection\<close>

definition control_init_uses :: "connect_env \<Rightarrow> use list" where
  "control_init_uses e =
     (if \<not> ce_mainloop e then []
      else if \<not> ce_context e then [Acquire Mainloop]
      else [Acquire Mainloop, Acquire Context])"

definition control_shutdown_uses :: "control \<Rightarrow> use list" where
  "control_shutdown_uses c =
     (if ct_ctx c then [Release Context] else []) @ (if ct_mainloop c then [Release Mainloop] else [])"

definition start_uses :: "start_env \<Rightarrow> weba_capture \<Rightarrow> use list" where
  "start_uses e c =
     (if h_running c then []
      else control_init_uses (se_connect e) @
        (case control_init (se_connect e) (h_control c) of
           Inl _ \<Rightarrow> []
         | Inr (ct, status) \<Rightarrow>
             if status \<noteq> WEBA_OK then []
             else (case resolve_target (se_resolve e) (h_requested_sink c) ct of
                     (ct', None) \<Rightarrow> control_shutdown_uses ct'
                   | (_, Some _) \<Rightarrow> [])))"

text \<open>A stop that joins: the thread's last steps, then the shutdown.\<close>

definition stop_uses :: "loop_in list \<Rightarrow> loop_state \<Rightarrow> weba_capture \<Rightarrow> use list" where
  "stop_uses is l c =
     loop_trace is (l, stop_begin c) @
     (case loop_run is (l, stop_begin c) of
        Inl _ \<Rightarrow> []
      | Inr (l', c') \<Rightarrow> if h_running c' then [] else control_shutdown_uses (h_control c'))"

subsection \<open>What is held\<close>

definition mic_held :: "mic option \<Rightarrow> resource multiset" where
  "mic_held m = (case m of Some (Some n) \<Rightarrow> {#Stream n#} | _ \<Rightarrow> {#})"

definition control_held :: "control \<Rightarrow> resource multiset" where
  "control_held c = (if ct_ctx c then {#Context#} else {#}) + (if ct_mainloop c then {#Mainloop#} else {#})"

lemma mic_held_simps [simp]:
  "mic_held None = {#}" "mic_held (Some None) = {#}" "mic_held (Some (Some n)) = {#Stream n#}"
  by (simp_all add: mic_held_def)

lemma live_mic_delete [simp]: "live (mic_delete m) (mic_held m + k) = Some k"
  by (auto simp: mic_delete_def pa_simple_delete_def split: option.splits)

lemma live_mic_assign:
  "live (mic_open_uses r @ mic_delete old) (mic_held old + k) =
     Some ((case r of Inr m \<Rightarrow> mic_held (Some m) | Inl _ \<Rightarrow> {#}) + k)"
proof -
  have "live (mic_delete old) (add_mset x (mic_held old + k)) = Some (add_mset x k)" for x
    using live_mic_delete [of old "add_mset x k"] by simp
  then show ?thesis
    by (auto simp: mic_open_uses_def live_append split: sum.splits option.splits)
qed

text \<open>Every step of the thread accounts for the stream it holds.\<close>

lemma loop_uses_live:
  assumes "loop_step i (l, c) = Inr (l', c')"
  shows "live (loop_uses i (l, c)) (mic_held (lp_mic l) + k) = Some (mic_held (lp_mic l') + k)"
proof (cases "lp_pc l")
  case (LOpen t)
  with assms show ?thesis
    by (auto simp: loop_uses_def loop_step_def step_open_def live_mic_assign split: sum.splits)
next
  case LRead
  with assms show ?thesis
    by (auto simp: loop_uses_def loop_step_def step_read_def split: sum.splits)
next
  case LFollow
  with assms have "lp_mic l' = None \<or> lp_mic l' = lp_mic l" "lp_mic (fst (step_follow i l c)) = lp_mic l'"
    by (auto simp: loop_step_def step_follow_def Let_def split: if_splits prod.splits option.splits)
  with LFollow show ?thesis by (auto simp: loop_uses_def)
qed (use assms in \<open>auto simp: loop_uses_def loop_step_def step_resolve_def step_opened_def Let_def
       sum_bind_eq_Inr wait_for_stop_def split: if_splits prod.splits option.splits bool.splits\<close>)

lemma loop_trace_live:
  "loop_run is (l, c) = Inr (l', c') \<Longrightarrow>
     live (loop_trace is (l, c)) (mic_held (lp_mic l) + k) = Some (mic_held (lp_mic l') + k)"
proof (induction "is" arbitrary: l c)
  case (Cons i "is")
  then obtain l1 c1 where "loop_step i (l, c) = Inr (l1, c1)" "loop_run is (l1, c1) = Inr (l', c')"
    by (auto simp: sum_bind_eq_Inr)
  with Cons.IH [of l1 c1] loop_uses_live [of i l c l1 c1 k] show ?case by (simp add: live_append)
qed simp

subsection \<open>The life of a connection\<close>

lemma live_shutdown [simp]: "live (control_shutdown_uses c) (control_held c + k) = Some k"
  by (simp add: control_shutdown_uses_def control_held_def)

lemma control_held_same: "same_but_error c c' \<Longrightarrow> control_held c' = control_held c"
  using same_but_errorD [of c c'] by (simp add: control_held_def)

lemma control_held_down [simp]: "control_held (control_shutdown sts c) = {#}"
  by (simp add: control_held_def control_shutdown_state)

text \<open>An \<open>init()\<close> forgets the pointers that it overwrites, so what it adds is all that is held.\<close>

lemma control_init_live:
  assumes "control_init e c = Inr (c', st)" "ce_mainloop e \<or> \<not> ct_ctx c"
  shows "live (control_init_uses e) k = Some (control_held c' + k)"
proof -
  from assms have "ct_mainloop c' = ce_mainloop e" "ct_ctx c' = (ce_mainloop e \<and> ce_context e)"
    by (auto simp: control_init_def Let_def state_callbacks split: if_splits)
  then show ?thesis by (simp add: control_init_uses_def control_held_def)
qed

lemma start_live:
  assumes "weba_capture_start e (Some c) = Inr (st, Some c', lo)" "\<not> h_running c"
    and "ce_mainloop (se_connect e) \<or> \<not> ct_ctx (h_control c)"
  shows "live (start_uses e c) k = Some (control_held (h_control c') + k)"
proof -
  from assms(1,2) obtain ct status where init: "control_init (se_connect e) (h_control c) = Inr (ct, status)"
    by (auto simp: weba_capture_start_def sum_bind_eq_Inr)
  note live = control_init_live [OF init assms(3)]
  obtain ct' r where res: "resolve_target (se_resolve e) (h_requested_sink c) ct = (ct', r)" by fastforce
  note held = control_held_same [OF resolve_target_frame(1) [OF res]]
  show ?thesis
  proof (cases "status = WEBA_OK")
    case False
    with assms(1,2) init have "h_control c' = ct"
      by (auto simp: weba_capture_start_def Let_def set_error_def)
    with False assms(2) init live show ?thesis by (simp add: start_uses_def)
  next
    case True
    show ?thesis
    proof (cases r)
      case None
      with True assms(1,2) init res have "h_control c' = control_shutdown (se_disconnect e) ct'"
        by (auto simp: weba_capture_start_def Let_def set_error_def)
      moreover have "live (control_shutdown_uses ct') (control_held ct + k) = Some k"
        using live_shutdown [of ct' k] held by simp
      ultimately show ?thesis using None True assms(2) init res live
        by (simp add: start_uses_def live_append)
    next
      case (Some t)
      with True assms(1,2) init res have "h_control c' = ct'"
        by (auto simp: weba_capture_start_def Let_def publish_format_def sum_bind_eq_Inr split: if_splits)
      with Some True assms(2) init res live held show ?thesis by (simp add: start_uses_def)
    qed
  qed
qed

lemma startable_fresh:
  "startable c \<Longrightarrow> \<not> h_running c \<and> \<not> ct_ctx (h_control c) \<and> \<not> ct_mainloop (h_control c) \<and> \<not> ct_thread (h_control c)"
  by (simp add: startable_def control_new_def)

text \<open>A start that fails after the main loop has been made, but before its thread.\<close>

lemma failed_connect_start:
  assumes "startable c" "ce_mainloop (se_connect e)" "ce_context (se_connect e) \<longrightarrow> ce_connect_rc (se_connect e) < 0"
  shows "\<exists>c'. weba_capture_start e (Some c) = Inr (WEBA_ERR_PULSE, Some c', None) \<and> \<not> h_running c' \<and>
    \<not> ct_thread (h_control c') \<and> ct_mainloop (h_control c') \<and> ct_ctx (h_control c') = ce_context (se_connect e)"
  using startable_fresh [OF assms(1)] assms(2,3)
  by (auto simp: weba_capture_start_def control_init_def set_error_def state_callbacks Let_def status_defs)

lemma start_holds:
  assumes "weba_capture_start e (Some c) = Inr (WEBA_OK, Some c', lo)" "\<not> h_running c"
  shows "ct_ctx (h_control c')" "ct_mainloop (h_control c')"
proof -
  from assms obtain ct ct' t where i: "control_init (se_connect e) (h_control c) = Inr (ct, WEBA_OK)"
    and r: "resolve_target (se_resolve e) (h_requested_sink c) ct = (ct', Some t)" and c': "h_control c' = ct'"
    by (auto simp: weba_capture_start_def Let_def sum_bind_eq_Inr status_defs publish_format_def
        split: if_splits prod.splits option.splits)
  with control_init_ok [OF i] same_but_errorD [OF resolve_target_frame(1) [OF r]]
  show "ct_ctx (h_control c')" "ct_mainloop (h_control c')" by simp_all
qed

text \<open>The stop of a running capture releases what the thread and the connection hold.\<close>

lemma stop_live:
  assumes "loop_run is (l, stop_begin c) = Inr (l', c')" "lp_pc l' = LDone" "\<not> h_running c'" "lp_mic l' = None"
  shows "live (stop_uses is l c) (mic_held (lp_mic l) + control_held (h_control c)) = Some {#}"
proof -
  have "control_held (h_control c') = control_held (h_control c)"
    using control_held_same [OF loop_run_control [OF assms(1)]] by simp
  then have "live (control_shutdown_uses (h_control c')) (control_held (h_control c)) = Some {#}"
    using live_shutdown [of "h_control c'" "{#}"] by simp
  with assms loop_trace_live [OF assms(1), of "control_held (h_control c)"] show ?thesis
    by (simp add: stop_uses_def live_append)
qed

text \<open>A stream pointer is never null while it is held, so a read uses a live stream.\<close>

lemma mic_real_step:
  "loop_step i (l, c) = Inr (l', c') \<Longrightarrow> lp_mic l \<noteq> Some None \<Longrightarrow> lp_mic l' \<noteq> Some None"
  by (cases "lp_pc l")
    (auto simp: loop_steps mic_open_def sum_bind_eq_Inr split: if_splits prod.splits option.splits sum.splits bool.splits)

lemma mic_real_run: "loop_run is (l, c) = Inr (l', c') \<Longrightarrow> lp_mic l \<noteq> Some None \<Longrightarrow> lp_mic l' \<noteq> Some None"
proof (induction "is" arbitrary: l c)
  case (Cons i "is")
  then obtain l1 c1 where "loop_step i (l, c) = Inr (l1, c1)" "loop_run is (l1, c1) = Inr (l', c')"
    by (auto simp: sum_bind_eq_Inr)
  with Cons.IH mic_real_step Cons.prems(2) show ?case by blast
qed simp

lemma unthreaded_init:
  assumes "control_init e c = Inr (ct, st)" "ce_mainloop e" "\<not> ct_thread ct"
  shows "ce_context e \<longrightarrow> ce_connect_rc e < 0"
    and "control_held ct = (if ce_context e then {#Mainloop, Context#} else {#Mainloop#})"
  using assms by (auto simp: control_init_def state_callbacks control_held_def Let_def split: if_splits)

text \<open>Retrying after a connection that failed before its thread was made.\<close>

lemma failed_connection_leaks:
  assumes "startable c" "ce_mainloop (se_connect e)" "ce_context (se_connect e) \<longrightarrow> ce_connect_rc (se_connect e) < 0"
    and "weba_capture_start e (Some c) = Inr (st1, Some c1, lo1)"
    and "ce_mainloop (se_connect e')" "weba_capture_start e' (Some c1) = Inr (st2, Some c2, lo2)"
  shows "st1 = WEBA_ERR_PULSE \<and>
    live (start_uses e c @ start_uses e' c1) {#} =
      Some (control_held (h_control c2) + (if ce_context (se_connect e) then {#Mainloop, Context#} else {#Mainloop#}))"
proof -
  note fresh = startable_fresh [OF assms(1)]
  from failed_connect_start [OF assms(1-3)] assms(4) have c1: "st1 = WEBA_ERR_PULSE" "\<not> h_running c1"
    "control_held (h_control c1) = (if ce_context (se_connect e) then {#Mainloop, Context#} else {#Mainloop#})"
    by (auto simp: control_held_def)
  have "live (start_uses e c) {#} = Some (control_held (h_control c1))"
    using start_live [OF assms(4), of "{#}"] fresh by simp
  with start_live [OF assms(6) c1(2), of "control_held (h_control c1)"] assms(5) c1
  show ?thesis by (simp add: live_append)
qed

end
