(* ===== verification/Logging.thy ===== *)
theory Logging
  imports Prelude
begin

text \<open>
  The leveled log of \<open>src/log.h\<close> and \<open>src/log.cpp\<close>: the global level, its one-time initialisation
  from the environment, level names, and the line a \<open>line_t\<close> writes to \<open>stderr\<close>. The write itself
  is the value \<open>log_emit\<close> returns. The operations here run alone; \<open>Log_Race\<close> interleaves them.
\<close>

subsection \<open>Levels\<close>

datatype level_t = level_error | level_warning | level_info | level_debug

primrec level_int :: "level_t \<Rightarrow> int" where
  "level_int level_error = 0"
| "level_int level_warning = 1"
| "level_int level_info = 2"
| "level_int level_debug = 3"

text \<open>Levels are compared by their integer values, as the code's casts do.\<close>

instantiation level_t :: linorder
begin

definition less_eq_level_t :: "level_t \<Rightarrow> level_t \<Rightarrow> bool" where
  "less_eq_level_t a b \<longleftrightarrow> level_int a \<le> level_int b"

definition less_level_t :: "level_t \<Rightarrow> level_t \<Rightarrow> bool" where
  "less_level_t a b \<longleftrightarrow> level_int a < level_int b"

instance
proof
  fix a b :: level_t
  show "a \<le> b \<Longrightarrow> b \<le> a \<Longrightarrow> a = b"
    by (cases a; cases b) (simp_all add: less_eq_level_t_def)
qed (auto simp: less_eq_level_t_def less_level_t_def)

end

definition level_name :: "level_t \<Rightarrow> string" where
  "level_name l = (case l of level_error \<Rightarrow> ''error'' | level_warning \<Rightarrow> ''warning''
     | level_info \<Rightarrow> ''info'' | level_debug \<Rightarrow> ''debug'')"

text \<open>\<open>parse_level\<close> returns whether the name is known, and the out-parameter.\<close>

definition parse_level :: "string \<Rightarrow> level_t \<Rightarrow> bool \<times> level_t" where
  "parse_level name out =
     (if name = ''error'' then (True, level_error)
      else if name = ''warning'' \<or> name = ''warn'' then (True, level_warning)
      else if name = ''info'' then (True, level_info)
      else if name = ''debug'' then (True, level_debug)
      else (False, out))"

subsection \<open>The global level\<close>

record log_state =
  g_level :: level_t
  g_level_initialized :: bool

definition log_initial :: log_state where
  "log_initial = \<lparr>g_level = level_info, g_level_initialized = False\<rparr>"

text \<open>\<open>env\<close> is what \<open>getenv("WEBA_LOG_LEVEL")\<close> returns. A parsed level starts out as \<open>level_t{}\<close>.\<close>

definition init_from_env :: "string option \<Rightarrow> log_state \<Rightarrow> log_state" where
  "init_from_env env s =
     (if g_level_initialized s then s
      else
        let s1 = s\<lparr>g_level_initialized := True\<rparr> in
        case env of
          None \<Rightarrow> s1
        | Some name \<Rightarrow>
            (case parse_level name level_error of
               (True, parsed) \<Rightarrow> s1\<lparr>g_level := parsed\<rparr>
             | (False, _) \<Rightarrow> s1))"

definition set_level :: "level_t \<Rightarrow> log_state \<Rightarrow> log_state" where
  "set_level l s = s\<lparr>g_level_initialized := True, g_level := l\<rparr>"

definition get_level :: "string option \<Rightarrow> log_state \<Rightarrow> log_state \<times> level_t" where
  "get_level env s = (let s1 = init_from_env env s in (s1, g_level s1))"

definition log_enabled :: "string option \<Rightarrow> level_t \<Rightarrow> log_state \<Rightarrow> log_state \<times> bool" where
  "log_enabled env l s = (let (s1, cur) = get_level env s in (s1, level_int l \<le> level_int cur))"

subsection \<open>Lines\<close>

text \<open>The conversion \<open>%-7s\<close>: left-justified, padded with blanks to seven columns.\<close>

definition pad_right :: "nat \<Rightarrow> string \<Rightarrow> string" where
  "pad_right n s = s @ replicate (n - length s) CHR '' ''"

definition line_text :: "level_t \<Rightarrow> string \<Rightarrow> string" where
  "line_text l msg =
     ''[webaudio] '' @ pad_right 7 (level_name l) @ '' '' @ c_str msg @ [CHR 0x0A]"

text \<open>A \<open>line_t\<close> collects pieces, and its destructor writes the line.\<close>

record line_t =
  ln_level :: level_t
  ln_stream :: string

definition line_new :: "level_t \<Rightarrow> line_t" where
  "line_new l = \<lparr>ln_level = l, ln_stream = []\<rparr>"

definition line_put :: "string \<Rightarrow> line_t \<Rightarrow> line_t" where
  "line_put s ln = ln\<lparr>ln_stream := ln_stream ln @ s\<rparr>"

definition line_delete :: "line_t \<Rightarrow> string" where
  "line_delete ln = line_text (ln_level ln) (ln_stream ln)"

text \<open>The \<open>WEBA_LOG_*\<close> macros: a line is built and written only when its level is enabled.\<close>

definition log_emit :: "string option \<Rightarrow> level_t \<Rightarrow> string list \<Rightarrow> log_state \<Rightarrow> log_state \<times> string list" where
  "log_emit env l pieces s =
     (let (s1, on) = log_enabled env l s
      in (s1, if on then [line_delete (fold line_put pieces (line_new l))] else []))"

subsection \<open>Lemmas\<close>

lemma parse_level_name [simp]: "parse_level (level_name l) out = (True, l)"
  by (cases l) (simp_all add: parse_level_def level_name_def)

lemma init_from_env_idem [simp]: "init_from_env env (init_from_env env' s) = init_from_env env' s"
  by (auto simp: init_from_env_def Let_def split: option.splits prod.splits bool.splits)

lemma init_from_env_initialized [simp]: "g_level_initialized (init_from_env env s)"
  by (auto simp: init_from_env_def Let_def split: option.splits prod.splits bool.splits)

lemma init_after_set [simp]: "init_from_env env (set_level l s) = set_level l s"
  by (simp add: init_from_env_def set_level_def)

lemma log_enabled_iff: "snd (log_enabled env l s) \<longleftrightarrow> l \<le> g_level (init_from_env env s)"
  by (simp add: log_enabled_def get_level_def less_eq_level_t_def Let_def)

lemma log_enabled_state: "fst (log_enabled env l s) = init_from_env env s"
  by (simp add: log_enabled_def get_level_def Let_def)

lemma line_puts: "ln_stream (fold line_put ps ln) = ln_stream ln @ concat ps" "ln_level (fold line_put ps ln) = ln_level ln"
  by (induction ps arbitrary: ln) (simp_all add: line_put_def)

lemma line_delete_pieces: "line_delete (fold line_put ps (line_new l)) = line_text l (concat ps)"
  by (simp add: line_delete_def line_puts line_new_def)

text \<open>Errors are never filtered.\<close>

lemma error_emitted [simp]: "snd (log_emit env level_error ps s) = [line_text level_error (concat ps)]"
proof -
  have "level_int level_error \<le> level_int l" for l by (cases l) simp_all
  then show ?thesis by (simp add: log_emit_def log_enabled_def get_level_def line_delete_pieces Let_def)
qed

lemma length_level_name: "length (level_name l) \<le> 7"
  by (cases l) (simp_all add: level_name_def)

lemma length_pad_right: "length s \<le> n \<Longrightarrow> length (pad_right n s) = n"
  by (simp add: pad_right_def)

end
