(* ===== verification/Log_Lines.thy ===== *)
theory Log_Lines
  imports Lifecycle Frame_Period Logging
begin

text \<open>
  The lines that the operations of \<open>src/capture.cpp\<close>, \<open>src/pulse_control.cpp\<close> and
  \<open>src/pulse_mic.cpp\<close> log, beside what they do to the state: each operation has the list of its
  lines, by level and pieces, in the order of the code. Writing them goes through the level.
\<close>

type_synonym message = "level_t \<times> string list"

definition u32_dec :: "u32 \<Rightarrow> string" where
  "u32_dec n = nat_dec (unat n)"

subsection \<open>The lines of each operation\<close>

text \<open>Both \<open>set_error\<close> functions log the text they store.\<close>

definition set_error_log :: "string \<Rightarrow> message list" where
  "set_error_log msg = [(level_error, [msg])]"

text \<open>Each way to fail, in a query or before, ends in one \<open>set_error\<close> of the control layer.\<close>

definition resolve_log :: "resolve_env \<Rightarrow> string \<Rightarrow> control \<Rightarrow> message list" where
  "resolve_log e requested c =
     (case resolve_target e requested c of
        (ct, None) \<Rightarrow> set_error_log (ct_error ct)
      | (_, Some _) \<Rightarrow> [])"

definition control_init_log :: "control \<times> int \<Rightarrow> message list" where
  "control_init_log r =
     (case r of (ct, status) \<Rightarrow>
        if status \<noteq> WEBA_OK then set_error_log (ct_error ct)
        else [(level_info, [''connected to audio server''])])"

definition mic_open_log :: "string \<Rightarrow> mic_format_t \<Rightarrow> string + mic \<Rightarrow> message list" where
  "mic_open_log monitor f r =
     (case r of
        Inl _ \<Rightarrow> []
      | Inr _ \<Rightarrow> [(level_info, [''recording '', monitor, '' at '', u32_dec (mf_sample_rate f), '' Hz, '',
          u32_dec (mf_channels f), '' ch, '', u32_dec (mf_frame_samples f), '' frames/read''])])"

definition loop_log :: "loop_in \<Rightarrow> loop_state \<times> weba_capture \<Rightarrow> message list" where
  "loop_log i s =
     (let (l, c) = s in
      case lp_pc l of
        LResolve \<Rightarrow>
          resolve_log (li_resolve i) (h_requested_sink c) (h_control c) @
          (case resolve_target (li_resolve i) (h_requested_sink c) (h_control c) of
             (ct, None) \<Rightarrow> set_error_log (control_error ct)
           | (_, Some _) \<Rightarrow> [])
      | LOpen target \<Rightarrow>
          (let r = mic_open (li_simple_new i) (li_strerror i) (tg_monitor target) (mic_format_of c)
           in mic_open_log (tg_monitor target) (mic_format_of c) r @
              (case r of Inl open_error \<Rightarrow> set_error_log open_error | Inr _ \<Rightarrow> []))
      | LRead \<Rightarrow>
          (case mic_read (li_read i) (li_strerror i) (Option.bind (lp_mic l) id) (frame_bytes c) of
             Inl read_error \<Rightarrow> set_error_log read_error
           | Inr _ \<Rightarrow> [])
      | LFollow \<Rightarrow>
          (if h_requested_sink c = [] \<and> h_sink_recheck_ms c > 0 \<and> li_now i \<ge> h_next_sink_check c
           then resolve_log (li_resolve i) '''' (h_control c) @
             (case resolve_target (li_resolve i) '''' (h_control c) of
                (_, None) \<Rightarrow> []
              | (_, Some target) \<Rightarrow>
                  if tg_monitor target \<noteq> h_current_monitor c
                  then [(level_info, [''default sink moved to '', tg_sink target, '', reopening capture''])]
                  else [])
           else [])
      | LExit \<Rightarrow> [(level_info, [''capture thread exiting''])]
      | _ \<Rightarrow> [])"

fun run_log :: "loop_in list \<Rightarrow> loop_state \<times> weba_capture \<Rightarrow> message list" where
  "run_log [] s = []"
| "run_log (i # is) s =
     loop_log i s @ (case loop_step i s of Inl _ \<Rightarrow> [] | Inr s' \<Rightarrow> run_log is s')"

text \<open>
  A start logs its errors, or that the capture has started; the text of the period may fault on a zero
  rate, which no created handle has.
\<close>

definition started_log :: "weba_capture \<Rightarrow> message list outcome" where
  "started_log c =
     sum_bind (frame_period_text (h_frame_samples c) (h_sample_rate c)) (\<lambda>period.
       Inr [(level_info, [''capture started: '', u32_dec (h_sample_rate c), '' Hz, '', u32_dec (h_channels c),
         '' ch, '', u32_dec (h_frame_samples c), '' frames/frame ('', period, ''), sink '', [CHR 0x27],
         (if h_requested_sink c = [] then ''default'' else h_requested_sink c), [CHR 0x27]])])"

definition start_log :: "start_env \<Rightarrow> weba_capture \<Rightarrow> message list outcome" where
  "start_log e c =
     (if h_running c then Inr []
      else sum_bind (control_init (se_connect e) (h_control c)) (\<lambda>(ct, status).
        if status \<noteq> WEBA_OK
        then Inr (control_init_log (ct, status) @ set_error_log (control_error ct))
        else
          let before = control_init_log (ct, status) @ resolve_log (se_resolve e) (h_requested_sink c) ct in
          case resolve_target (se_resolve e) (h_requested_sink c) ct of
            (ct', None) \<Rightarrow> Inr (before @ set_error_log (control_error ct'))
          | (_, Some _) \<Rightarrow> sum_bind (started_log c) (\<lambda>msgs. Inr (before @ msgs))))"

text \<open>A stop logs only that it abandons the thread.\<close>

definition stop_log :: "bool \<Rightarrow> message list" where
  "stop_log joined =
     (if joined then []
      else [(level_error, [''capture thread did not exit within '', nat_dec (nat kJoinTimeout),
        '' ms; it is blocked in pa_simple_read() on a source that is not delivering audio. '',
        ''Abandoning the thread and leaking this handle rather than freeing memory in use.''])])"

subsection \<open>What reaches the terminal\<close>

fun emit :: "string option \<Rightarrow> message list \<Rightarrow> log_state \<Rightarrow> log_state \<times> string list" where
  "emit env [] s = (s, [])"
| "emit env ((l, ps) # ms) s =
     (let (s1, out) = log_emit env l ps s; (s2, rest) = emit env ms s1 in (s2, out @ rest))"

definition emitted :: "string option \<Rightarrow> message list \<Rightarrow> log_state \<Rightarrow> string list" where
  "emitted env ms s = snd (emit env ms s)"

lemma emitted_simps [simp]:
  "emitted env [] s = []"
  "emitted env ((l, ps) # ms) s = snd (log_emit env l ps s) @ emitted env ms (fst (log_emit env l ps s))"
  by (simp_all add: emitted_def split: prod.splits)

text \<open>An error line is written at whatever level, whoever initialises the log.\<close>

lemma error_reaches:
  "(level_error, ps) \<in> set ms \<Longrightarrow> line_text level_error (concat ps) \<in> set (emitted env ms s)"
proof (induction ms arbitrary: s)
  case (Cons m ms)
  then show ?case by (cases m) (auto simp del: emitted_simps(1))
qed simp

subsection \<open>No error is silent\<close>

lemma resolve_found_same: "resolve_target e req c = (c', Some t) \<Longrightarrow> c' = c"
  by (auto simp: resolve_target_def query_default_sink_def query_monitor_def Let_def
      split: if_splits option.splits prod.splits bool.splits)

lemma resolve_logs:
  "resolve_target e req c = (c', r) \<Longrightarrow>
     ct_error c' = ct_error c \<or> (level_error, [ct_error c']) \<in> set (resolve_log e req c)"
  by (cases r) (auto simp: resolve_log_def set_error_log_def dest: resolve_found_same)

text \<open>What a step leaves as the error text of the handle or of its connection, it has logged.\<close>

definition logged :: "weba_capture \<Rightarrow> weba_capture \<Rightarrow> message list \<Rightarrow> bool" where
  "logged c c' ms \<longleftrightarrow>
     (h_error c' = h_error c \<or> (level_error, [h_error c']) \<in> set ms) \<and>
     (ct_error (h_control c') = ct_error (h_control c) \<or> (level_error, [ct_error (h_control c')]) \<in> set ms)"

lemma logged_same: "h_error c' = h_error c \<Longrightarrow> h_control c' = h_control c \<Longrightarrow> logged c c' ms"
  by (simp add: logged_def)

lemma logged_trans: "logged a b ms \<Longrightarrow> logged b c ms' \<Longrightarrow> logged a c (ms @ ms')"
  by (auto simp: logged_def)

lemma loop_step_logs:
  assumes "loop_step i (l, c) = Inr (l', c')"
  shows "logged c c' (loop_log i (l, c))"
proof (cases "lp_pc l")
  case LResolve
  obtain ct r where res: "resolve_target (li_resolve i) (h_requested_sink c) (h_control c) = (ct, r)" by fastforce
  with LResolve assms resolve_logs [OF res] show ?thesis
    by (cases r) (auto simp: loop_step_def step_resolve_def loop_log_def logged_def set_error_def set_error_log_def)
next
  case (LOpen t)
  with assms show ?thesis
    by (auto simp: loop_step_def step_open_def loop_log_def logged_def set_error_def set_error_log_def split: sum.splits)
next
  case LRead
  with assms show ?thesis
    by (auto simp: loop_step_def step_read_def loop_log_def logged_def set_error_def set_error_log_def split: sum.splits)
next
  case LFollow
  obtain ct r where res: "resolve_target (li_resolve i) [] (h_control c) = (ct, r)" by fastforce
  with LFollow assms resolve_logs [OF res] show ?thesis
    by (cases r) (auto simp: loop_step_def step_follow_def loop_log_def logged_def Let_def split: if_splits)
qed (use assms in \<open>auto simp: loop_step_def step_opened_def pending_or_def publish_format_def Let_def
       sum_bind_eq_Inr intro!: logged_same split: if_splits option.splits bool.splits\<close>)

lemma loop_run_logs: "loop_run is (l, c) = Inr (l', c') \<Longrightarrow> logged c c' (run_log is (l, c))"
proof (induction "is" arbitrary: l c)
  case (Cons i "is")
  then obtain l1 c1 where s: "loop_step i (l, c) = Inr (l1, c1)" "loop_run is (l1, c1) = Inr (l', c')"
    by (auto simp: sum_bind_eq_Inr)
  with logged_trans [OF loop_step_logs [OF s(1)] Cons.IH [OF s(2)]] show ?case by simp
qed (simp add: logged_def)

text \<open>A start that fails has logged the text it leaves; one that succeeds says so.\<close>

lemma start_logs:
  assumes "weba_capture_start e (Some c) = Inr (st, Some c', lo)" "\<not> h_running c" "st \<noteq> WEBA_OK"
  shows "\<exists>ms. start_log e c = Inr ms \<and> (level_error, [h_error c']) \<in> set ms"
proof -
  from assms(1,2) obtain ct status where init: "control_init (se_connect e) (h_control c) = Inr (ct, status)"
    by (auto simp: weba_capture_start_def sum_bind_eq_Inr)
  obtain ct' r where res: "resolve_target (se_resolve e) (h_requested_sink c) ct = (ct', r)" by fastforce
  show ?thesis
  proof (cases "status = WEBA_OK")
    case False
    with assms(1,2) init show ?thesis
      by (auto simp: weba_capture_start_def start_log_def set_error_def set_error_log_def Let_def)
  next
    case ok: True
    show ?thesis
    proof (cases r)
      case None
      with ok assms(1,2) init res show ?thesis
        by (auto simp: weba_capture_start_def start_log_def set_error_def set_error_log_def Let_def)
    next
      case (Some t)
      with ok assms init res have False
        by (auto simp: weba_capture_start_def sum_bind_eq_Inr Let_def split: if_splits)
      then show ?thesis ..
    qed
  qed
qed

text \<open>A start that succeeds says so last.\<close>

lemma start_ok_logs:
  assumes "weba_capture_start e (Some c) = Inr (WEBA_OK, Some c', lo)" "\<not> h_running c" "h_sample_rate c \<noteq> 0"
  shows "\<exists>ms t. start_log e c = Inr (ms @ [(level_info, t)]) \<and> hd t = ''capture started: ''"
proof -
  obtain t where t: "frame_period_text (h_frame_samples c) (h_sample_rate c) = Inr t"
    using period_text_cases [OF assms(3)] by blast
  from assms(1,2) obtain ct ct' target where "control_init (se_connect e) (h_control c) = Inr (ct, WEBA_OK)"
    and "resolve_target (se_resolve e) (h_requested_sink c) ct = (ct', Some target)"
    by (auto simp: weba_capture_start_def sum_bind_eq_Inr Let_def status_defs
        split: if_splits prod.splits option.splits)
  with t assms(2) show ?thesis by (simp add: start_log_def started_log_def Let_def)
qed

end
