(* ===== verification/Wakeup.thy ===== *)
theory Wakeup
  imports Prelude Transition
begin

text \<open>
  Waiting on a condition variable for a flag that another thread sets. The waiter holds the mutex
  while it evaluates its predicate and gives it up in the same step in which it blocks; the setter
  stores, then notifies. \<open>weba_capture_stop()\<close>, \<open>queue.close()\<close>, the alarm and the state callback
  store under the mutex; the end of \<open>capture_loop()\<close> stores \<open>running\<close> without it. One machine
  serves both, and the protocol is an argument.
\<close>

subsection \<open>The two threads\<close>

datatype protocol = UnderMutex | WithoutMutex

datatype waiter_pc = WEnter | WTest | WSleep | WBlocked | WWoken | WPast

datatype setter_pc = SEnter | SStore | SLeave | SNotify | SDone

text \<open>
  \<open>wk_mutex\<close>: who holds the mutex, the waiter (\<open>Some True\<close>), the setter (\<open>Some False\<close>) or nobody;
  \<open>wk_flag\<close>: what the waiter's predicate reads.
\<close>

record wakeup =
  wk_mutex :: "bool option"
  wk_flag :: bool
  wk_waiter :: waiter_pc
  wk_setter :: setter_pc

definition wakeup_start :: wakeup where
  "wakeup_start = \<lparr>wk_mutex = None, wk_flag = False, wk_waiter = WEnter, wk_setter = SEnter\<rparr>"

datatype actor = Waiter | Setter

text \<open>
  One step of the waiter: lock; test; block, or leave; after a wake-up, lock again and test. A step
  that is not enabled is \<open>None\<close>.
\<close>

definition waiter_step :: "wakeup \<Rightarrow> wakeup option" where
  "waiter_step s =
     (case wk_waiter s of
        WEnter \<Rightarrow> if wk_mutex s = None then Some (s\<lparr>wk_mutex := Some True, wk_waiter := WTest\<rparr>) else None
      | WTest \<Rightarrow> Some (if wk_flag s then s\<lparr>wk_mutex := None, wk_waiter := WPast\<rparr> else s\<lparr>wk_waiter := WSleep\<rparr>)
      | WSleep \<Rightarrow> Some (s\<lparr>wk_mutex := None, wk_waiter := WBlocked\<rparr>)
      | WBlocked \<Rightarrow> None
      | WWoken \<Rightarrow> if wk_mutex s = None then Some (s\<lparr>wk_mutex := Some True, wk_waiter := WTest\<rparr>) else None
      | WPast \<Rightarrow> None)"

text \<open>One step of the setter; \<open>notify_all\<close> wakes a waiter only if it is blocked.\<close>

definition setter_step :: "protocol \<Rightarrow> wakeup \<Rightarrow> wakeup option" where
  "setter_step p s =
     (case wk_setter s of
        SEnter \<Rightarrow>
          (if p = WithoutMutex then Some (s\<lparr>wk_setter := SStore\<rparr>)
           else if wk_mutex s = None then Some (s\<lparr>wk_mutex := Some False, wk_setter := SStore\<rparr>) else None)
      | SStore \<Rightarrow> Some (s\<lparr>wk_flag := True, wk_setter := SLeave\<rparr>)
      | SLeave \<Rightarrow> Some (if p = WithoutMutex then s\<lparr>wk_setter := SNotify\<rparr>
                       else s\<lparr>wk_mutex := None, wk_setter := SNotify\<rparr>)
      | SNotify \<Rightarrow> Some (s\<lparr>wk_setter := SDone,
                        wk_waiter := (if wk_waiter s = WBlocked then WWoken else wk_waiter s)\<rparr>)
      | SDone \<Rightarrow> None)"

definition wakeup_next :: "protocol \<Rightarrow> wakeup \<Rightarrow> actor \<Rightarrow> wakeup option" where
  "wakeup_next p s a = (case a of Waiter \<Rightarrow> waiter_step s | Setter \<Rightarrow> setter_step p s)"

inductive wakeup_step :: "protocol \<Rightarrow> wakeup \<Rightarrow> actor \<Rightarrow> wakeup \<Rightarrow> bool" for p where
  wakeup_take: "wakeup_next p s a = Some t \<Longrightarrow> wakeup_step p s a t"

inductive_simps wakeup_step_iff: "wakeup_step p s a t"

text \<open>The protocols of the code, by their functions.\<close>

definition stop_request_protocol :: protocol where "stop_request_protocol = UnderMutex"

definition queue_close_protocol :: protocol where "queue_close_protocol = UnderMutex"

definition state_callback_protocol :: protocol where "state_callback_protocol = UnderMutex"

definition alarm_ring_protocol :: protocol where "alarm_ring_protocol = UnderMutex"

definition loop_exit_protocol :: protocol where "loop_exit_protocol = WithoutMutex"

subsection \<open>A lost wake-up\<close>

text \<open>The setter is done, the flag is set, and the waiter is blocked: nothing will wake it but its timeout.\<close>

definition lost_wakeup :: "wakeup \<Rightarrow> bool" where
  "lost_wakeup s \<longleftrightarrow> wk_waiter s = WBlocked \<and> wk_setter s = SDone"

definition mutex_inv :: "wakeup \<Rightarrow> bool" where
  "mutex_inv s \<longleftrightarrow>
     (wk_mutex s = Some True \<longleftrightarrow> wk_waiter s \<in> {WTest, WSleep}) \<and>
     (wk_mutex s = Some False \<longleftrightarrow> wk_setter s \<in> {SStore, SLeave}) \<and>
     (wk_flag s \<longleftrightarrow> wk_setter s \<in> {SLeave, SNotify, SDone}) \<and>
     (wk_waiter s = WSleep \<longrightarrow> \<not> wk_flag s) \<and>
     (wk_waiter s = WBlocked \<longrightarrow> wk_setter s \<noteq> SDone) \<and>
     (wk_waiter s = WPast \<longrightarrow> wk_setter s \<in> {SNotify, SDone})"

lemma mutex_inv_waiter: "mutex_inv s \<Longrightarrow> waiter_step s = Some t \<Longrightarrow> mutex_inv t"
  by (cases "wk_waiter s"; cases "wk_setter s"; cases "wk_mutex s")
    (auto simp: waiter_step_def mutex_inv_def split: if_split_asm)

lemma mutex_inv_setter: "mutex_inv s \<Longrightarrow> setter_step UnderMutex s = Some t \<Longrightarrow> mutex_inv t"
  by (cases "wk_setter s"; cases "wk_waiter s"; cases "wk_mutex s")
    (auto simp: setter_step_def mutex_inv_def split: if_split_asm)

lemma mutex_inv_step: "mutex_inv s \<Longrightarrow> wakeup_step UnderMutex s a t \<Longrightarrow> mutex_inv t"
proof -
  assume inv: "mutex_inv s" and "wakeup_step UnderMutex s a t"
  then have "wakeup_next UnderMutex s a = Some t" by (simp only: wakeup_step_iff)
  then show "mutex_inv t"
    by (cases a) (simp_all add: wakeup_next_def mutex_inv_waiter [OF inv] mutex_inv_setter [OF inv])
qed

interpretation wk: invariant_rule "\<lambda>s. s = wakeup_start" "wakeup_step UnderMutex" mutex_inv
proof unfold_locales
  fix s show "s = wakeup_start \<Longrightarrow> mutex_inv s" by (simp add: wakeup_start_def mutex_inv_def)
qed (rule mutex_inv_step)

lemma mutex_no_loss: "reachable (\<lambda>s. s = wakeup_start) (wakeup_step UnderMutex) s \<Longrightarrow> \<not> lost_wakeup s"
  using wk.invariant by (auto simp: lost_wakeup_def mutex_inv_def)

text \<open>Under the mutex some thread can always move until the waiter is past its wait.\<close>

lemma mutex_progress:
  assumes "reachable (\<lambda>s. s = wakeup_start) (wakeup_step UnderMutex) s" "wk_waiter s \<noteq> WPast"
  shows "\<exists>a t. wakeup_step UnderMutex s a t"
proof -
  have inv: "mutex_inv s" using assms(1) by (rule wk.invariant)
  have "waiter_step s \<noteq> None \<or> setter_step UnderMutex s \<noteq> None"
    using inv assms(2)
    by (cases "wk_waiter s"; cases "wk_setter s"; cases "wk_mutex s"; cases "the (wk_mutex s)")
      (simp_all add: mutex_inv_def waiter_step_def setter_step_def)
  then obtain a t where "wakeup_next UnderMutex s a = Some t"
    by (metis actor.simps(3,4) not_None_eq wakeup_next_def)
  then show ?thesis by (auto intro: wakeup_take)
qed

text \<open>
  The waiter of a query owns its alarm, and frees it when it returns. The one access of the setter
  that can come later is the notification: it follows the unlocking, and the waiter may have found
  the flag set before it ever blocked.
\<close>

definition alarm_freed :: "wakeup \<Rightarrow> bool" where
  "alarm_freed s \<longleftrightarrow> wk_waiter s = WPast"

lemma freed_setter:
  assumes "reachable (\<lambda>s. s = wakeup_start) (wakeup_step UnderMutex) s" "alarm_freed s"
  shows "wk_setter s = SNotify \<or> wk_setter s = SDone"
  using wk.invariant [OF assms(1)] assms(2) by (simp add: mutex_inv_def alarm_freed_def)

text \<open>
  Without the mutex the store and the notification can both fall between the waiter's test and its
  blocking.
\<close>

definition run_actors :: "protocol \<Rightarrow> actor list \<Rightarrow> wakeup \<Rightarrow> wakeup option" where
  "run_actors p as s = foldl (\<lambda>so a. Option.bind so (\<lambda>s. wakeup_next p s a)) (Some s) as"

lemma run_actors_snoc:
  "run_actors p (as @ [a]) s = Option.bind (run_actors p as s) (\<lambda>s. wakeup_next p s a)"
  by (simp add: run_actors_def)

lemma run_actors_reachable:
  "run_actors p as s = Some t \<Longrightarrow> reachable (\<lambda>s'. s' = s) (wakeup_step p) t"
proof (induction as arbitrary: t rule: rev_induct)
  case Nil
  then show ?case by (auto simp: run_actors_def intro: reach_init)
next
  case (snoc a as)
  then obtain u where "run_actors p as s = Some u" "wakeup_next p u a = Some t"
    by (auto simp: run_actors_snoc bind_eq_Some_conv)
  with snoc.IH show ?case by (blast intro: reach_step wakeup_take)
qed

definition losing_schedule :: "actor list" where
  "losing_schedule = [Waiter, Waiter, Setter, Setter, Setter, Setter, Waiter]"

definition freeing_schedule :: "actor list" where
  "freeing_schedule = [Setter, Setter, Setter, Waiter, Waiter]"

lemma freeing_schedule_run:
  "run_actors UnderMutex freeing_schedule wakeup_start =
     Some \<lparr>wk_mutex = None, wk_flag = True, wk_waiter = WPast, wk_setter = SNotify\<rparr>"
  by (simp add: run_actors_def freeing_schedule_def wakeup_next_def waiter_step_def setter_step_def
      wakeup_start_def)

lemma losing_schedule_run:
  "run_actors WithoutMutex losing_schedule wakeup_start =
     Some \<lparr>wk_mutex = None, wk_flag = True, wk_waiter = WBlocked, wk_setter = SDone\<rparr>"
  by (simp add: run_actors_def losing_schedule_def wakeup_next_def waiter_step_def setter_step_def
      wakeup_start_def)

text \<open>
  The alarm can be freed before its setter has notified; and the exit of the capture thread can leave
  the stopper asleep.
\<close>

lemma notified_after_free:
  "\<exists>q. reachable (\<lambda>s. s = wakeup_start) (wakeup_step alarm_ring_protocol) q \<and> alarm_freed q \<and>
     wk_setter q = SNotify \<and> (\<exists>t. wakeup_step alarm_ring_protocol q Setter t)"
proof -
  let ?q = "\<lparr>wk_mutex = None, wk_flag = True, wk_waiter = WPast, wk_setter = SNotify\<rparr>"
  have "reachable (\<lambda>s. s = wakeup_start) (wakeup_step alarm_ring_protocol) ?q"
    unfolding alarm_ring_protocol_def by (rule run_actors_reachable [OF freeing_schedule_run])
  then show ?thesis
    by (intro exI [of _ ?q]) (simp add: alarm_freed_def wakeup_step_iff wakeup_next_def setter_step_def)
qed

lemma exit_missed:
  "\<exists>q. reachable (\<lambda>s. s = wakeup_start) (wakeup_step loop_exit_protocol) q \<and>
     lost_wakeup q \<and> wk_flag q \<and> (\<nexists>a t. wakeup_step loop_exit_protocol q a t)"
proof -
  let ?q = "\<lparr>wk_mutex = None, wk_flag = True, wk_waiter = WBlocked, wk_setter = SDone\<rparr>"
  have "reachable (\<lambda>s. s = wakeup_start) (wakeup_step loop_exit_protocol) ?q"
    unfolding loop_exit_protocol_def by (rule run_actors_reachable [OF losing_schedule_run])
  moreover have "\<not> wakeup_step loop_exit_protocol ?q a t" for a t
    by (cases a) (simp_all add: wakeup_step_iff wakeup_next_def waiter_step_def setter_step_def)
  ultimately show ?thesis by (intro exI [of _ ?q]) (simp add: lost_wakeup_def)
qed

end
