(* ===== verification/Query_Lifetime.thy ===== *)
theory Query_Lifetime
  imports Pulse_Control
begin

text \<open>
  The lifetime of the alarm of one query in \<open>src/pulse_control.cpp\<close>. The query hands libpulse a raw
  pointer to an alarm that it owns alone; when it returns, the alarm is freed, whether or not the
  request has been answered, and the operation is not cancelled. A callback that runs later reaches
  the freed alarm, if it reaches it at all.
\<close>

subsection \<open>The alarm as a heap cell\<close>

text \<open>\<open>None\<close>: freed. A callback dereferences the alarm only on the branches that ring it.\<close>

type_synonym alarm_cell = "query_result alarm option"

definition server_info_late :: "server_info \<Rightarrow> alarm_cell \<Rightarrow> alarm_cell outcome" where
  "server_info_late info cell =
     (case cell of None \<Rightarrow> Inl UseAfterFree | Some a \<Rightarrow> Inr (Some (server_info_callback info a)))"

definition sink_info_late :: "sink_info \<Rightarrow> alarm_cell \<Rightarrow> alarm_cell outcome" where
  "sink_info_late i cell =
     (if si_eol i > 0 then Inr cell
      else case cell of None \<Rightarrow> Inl UseAfterFree | Some a \<Rightarrow> Inr (Some (sink_info_callback i a)))"

text \<open>The callbacks of one request, in the order they run.\<close>

fun run_calls :: "('c \<Rightarrow> alarm_cell \<Rightarrow> alarm_cell outcome) \<Rightarrow> 'c list \<Rightarrow> alarm_cell \<Rightarrow> alarm_cell outcome" where
  "run_calls f [] cell = Inr cell"
| "run_calls f (x # xs) cell = sum_bind (f x cell) (run_calls f xs)"

text \<open>
  A whole query with its alarm: allocated, rung by the callbacks that run before the wait ends, read
  by the wait, freed on return; \<open>late\<close> are the callbacks that run after that. The functions
  \<open>query_monitor\<close> and \<open>query_default_sink\<close> are the same code without the cell.
\<close>

definition finish_query ::
  "('c \<Rightarrow> alarm_cell \<Rightarrow> alarm_cell outcome) \<Rightarrow> 'c list \<Rightarrow> string \<Rightarrow> alarm_cell \<Rightarrow> control \<Rightarrow>
   (control \<times> string option) outcome" where
  "finish_query f late timed_out cell c =
     (case cell of
        None \<Rightarrow> Inl UseAfterFree
      | Some a \<Rightarrow>
          let answer = (case alarm_wait kQueryTimeout kQueryTimeout a of
                Some (True, Some result, _) \<Rightarrow>
                  (if \<not> qr_ok result then (ct_set_error (qr_error result) c, None)
                   else (c, Some (qr_value result)))
              | _ \<Rightarrow> (ct_set_error timed_out c, None))
          in sum_bind (run_calls f late None) (\<lambda>_. Inr answer))"

definition query_default_sink_life ::
  "server_info query_env \<Rightarrow> server_info list \<Rightarrow> control \<Rightarrow> (control \<times> string option) outcome" where
  "query_default_sink_life e late c =
     (if \<not> qe_issued e
      then Inr (ct_set_error (pulse_error ''pa_context_get_server_info()'' (qe_strerror e)) c, None)
      else sum_bind (run_calls server_info_late (qe_calls e) (Some (alarm_new query_result_new))) (\<lambda>cell.
        finish_query server_info_late late ''timed out querying the default sink'' cell c))"

definition query_monitor_life ::
  "sink_info query_env \<Rightarrow> sink_info list \<Rightarrow> string \<Rightarrow> control \<Rightarrow> (control \<times> string option) outcome" where
  "query_monitor_life e late sink c =
     (if \<not> qe_issued e
      then Inr (ct_set_error (pulse_error ''pa_context_get_sink_info_by_name()'' (qe_strerror e)) c, None)
      else sum_bind (run_calls sink_info_late (qe_calls e) (Some (alarm_new query_result_new))) (\<lambda>cell.
        finish_query sink_info_late late
          (''timed out looking up sink '' @ [CHR 0x27] @ sink @ [CHR 0x27]) cell c))"

text \<open>While the alarm lives, the callbacks are those of the control layer; once it is freed, any that touches it faults.\<close>

lemma run_calls_live:
  assumes "\<And>x a. f x (Some a) = Inr (Some (g x a))"
  shows "run_calls f xs (Some a) = Inr (Some (fold g xs a))"
  by (induction xs arbitrary: a) (simp_all add: assms)

lemma run_calls_dead:
  assumes "\<And>x. f x None = (if touches x then Inl UseAfterFree else Inr None)"
  shows "run_calls f xs None = (if list_ex touches xs then Inl UseAfterFree else Inr None)"
  by (induction xs) (simp_all add: assms)

lemma sink_info_cell:
  "sink_info_late i (Some a) = Inr (Some (sink_info_callback i a))"
  "sink_info_late i None = (if si_eol i \<le> 0 then Inl UseAfterFree else Inr None)"
  by (auto simp: sink_info_late_def sink_info_callback_def)

lemma server_info_cell:
  "server_info_late i (Some a) = Inr (Some (server_info_callback i a))"
  "server_info_late i None = (if True then Inl UseAfterFree else Inr None)"
  by (auto simp: server_info_late_def)

lemmas sink_calls_live = run_calls_live [where f = sink_info_late, OF sink_info_cell(1)]
lemmas sink_calls_dead = run_calls_dead [where f = sink_info_late, OF sink_info_cell(2)]
lemmas server_calls_live = run_calls_live [where f = server_info_late, OF server_info_cell(1)]
lemmas server_calls_dead = run_calls_dead [where f = server_info_late, OF server_info_cell(2)]

lemma query_monitor_life_eq:
  "query_monitor_life e late sink c =
     (if qe_issued e \<and> list_ex (\<lambda>i. si_eol i \<le> 0) late then Inl UseAfterFree else Inr (query_monitor e sink c))"
  by (simp add: query_monitor_life_def query_monitor_def finish_query_def sink_calls_live sink_calls_dead Let_def
      split: option.split bool.split prod.split)

lemma query_default_sink_life_eq:
  "query_default_sink_life e late c =
     (if qe_issued e \<and> late \<noteq> [] then Inl UseAfterFree else Inr (query_default_sink e c))"
proof -
  have "list_ex (\<lambda>_. True) late \<longleftrightarrow> late \<noteq> []" by (cases late) simp_all
  then show ?thesis
    by (simp add: query_default_sink_life_def query_default_sink_def finish_query_def server_calls_live
        server_calls_dead Let_def split: option.split bool.split prod.split)
qed

subsection \<open>The documented order of the callbacks\<close>

text \<open>
  One server-info callback; for a sink either one error, or its result and then the end of the list,
  or the end alone.
\<close>

definition sink_protocol :: "sink_info list \<Rightarrow> bool" where
  "sink_protocol calls \<longleftrightarrow> (\<exists>i. calls = [i] \<and> si_eol i \<noteq> 0) \<or>
     (\<exists>i j. calls = [i, j] \<and> si_eol i = 0 \<and> si_eol j > 0)"

text \<open>A query that was answered in time is never reached again.\<close>

lemma answered_sink_life:
  assumes "sink_protocol (before @ late)" "\<exists>i\<in>set before. si_eol i \<le> 0"
  shows "\<not> list_ex (\<lambda>i. si_eol i \<le> 0) late"
  using assms unfolding sink_protocol_def
  by (cases before rule: list.exhaust [case_names Nil Cons]; cases "tl before") (auto simp: append_eq_Cons_conv)

lemma unanswered_query_monitor:
  assumes "\<not> (\<exists>i\<in>set (qe_calls e). si_eol i \<le> 0)" "qe_issued e"
  shows "query_monitor e sink c = (ct_set_error (timed_out_sink sink) c, None)"
proof -
  have "List.map_filter sink_info_result (qe_calls e) = []"
    using assms(1) by (auto simp: map_filter_def filter_empty_conv sink_info_result_def not_le)
  with assms(2) show ?thesis by (simp add: query_monitor_eq)
qed

end
