(* ===== verification/Context_Race.thy ===== *)
theory Context_Race
  imports Transition
begin

text \<open>
  Who touches libpulse's objects when: the loop thread of \<open>control_t\<close>, which dispatches events of the
  context inside \<open>pa_mainloop_run()\<close>, and the thread that runs \<open>shutdown()\<close> or a query of
  \<open>src/pulse_control.cpp\<close>. The context API is not thread safe, as the comment in \<open>shutdown()\<close> says,
  so the two must not meet. Only the order of the accesses is kept.
\<close>

subsection \<open>The two threads\<close>

text \<open>The loop thread polls, dispatches, and returns from a poll once it has been asked to quit.\<close>

datatype loop_thread = Polling | Dispatching | Returned

text \<open>The next call of the other thread.\<close>

datatype client_call =
    CallQuit
  | CallJoin
  | CallDisconnect
  | CallUnref
  | CallFree
  | CallGetInfo
  | CallOperationUnref
  | CallNone

record contact =
  cx_loop :: loop_thread
  cx_quit :: bool
  cx_client :: client_call

datatype mover = LoopThread | Client

text \<open>\<open>busy\<close>: whether the poll has found an event.\<close>

definition loop_thread_step :: "bool \<Rightarrow> contact \<Rightarrow> contact option" where
  "loop_thread_step busy s =
     (case cx_loop s of
        Polling \<Rightarrow> Some (s\<lparr>cx_loop := if cx_quit s then Returned else if busy then Dispatching else Polling\<rparr>)
      | Dispatching \<Rightarrow> Some (s\<lparr>cx_loop := Polling\<rparr>)
      | Returned \<Rightarrow> None)"

text \<open>\<open>shutdown()\<close>: quit, join, disconnect, drop the context, free the loop.\<close>

definition shutdown_step :: "contact \<Rightarrow> contact option" where
  "shutdown_step s =
     (case cx_client s of
        CallQuit \<Rightarrow> Some (s\<lparr>cx_quit := True, cx_client := CallJoin\<rparr>)
      | CallJoin \<Rightarrow> if cx_loop s = Returned then Some (s\<lparr>cx_client := CallDisconnect\<rparr>) else None
      | CallDisconnect \<Rightarrow> Some (s\<lparr>cx_client := CallUnref\<rparr>)
      | CallUnref \<Rightarrow> Some (s\<lparr>cx_client := CallFree\<rparr>)
      | CallFree \<Rightarrow> Some (s\<lparr>cx_client := CallNone\<rparr>)
      | _ \<Rightarrow> None)"

text \<open>A query: issue the operation, and drop its handle, before waiting on the alarm.\<close>

definition query_step :: "contact \<Rightarrow> contact option" where
  "query_step s =
     (case cx_client s of
        CallGetInfo \<Rightarrow> Some (s\<lparr>cx_client := CallOperationUnref\<rparr>)
      | CallOperationUnref \<Rightarrow> Some (s\<lparr>cx_client := CallNone\<rparr>)
      | _ \<Rightarrow> None)"

text \<open>The loop thread beside a client, which is one of the two.\<close>

definition contact_next :: "(contact \<Rightarrow> contact option) \<Rightarrow> mover \<times> bool \<Rightarrow> contact \<Rightarrow> contact option" where
  "contact_next client a s = (case fst a of LoopThread \<Rightarrow> loop_thread_step (snd a) s | Client \<Rightarrow> client s)"

inductive contact_step :: "(contact \<Rightarrow> contact option) \<Rightarrow> contact \<Rightarrow> mover \<times> bool \<Rightarrow> contact \<Rightarrow> bool" for client where
  contact_take: "contact_next client a s = Some t \<Longrightarrow> contact_step client s a t"

inductive_simps contact_step_iff: "contact_step client s a t"

definition shutdown_begins :: "contact \<Rightarrow> bool" where
  "shutdown_begins s \<longleftrightarrow> cx_client s = CallQuit \<and> \<not> cx_quit s \<and> cx_loop s = Polling"

definition query_begins :: "contact \<Rightarrow> bool" where
  "query_begins s \<longleftrightarrow> cx_client s = CallGetInfo \<and> \<not> cx_quit s \<and> cx_loop s = Polling"

subsection \<open>Meeting\<close>

definition on_context :: "client_call \<Rightarrow> bool" where
  "on_context k \<longleftrightarrow> k \<in> {CallDisconnect, CallUnref, CallGetInfo, CallOperationUnref}"

definition on_loop :: "client_call \<Rightarrow> bool" where
  "on_loop k \<longleftrightarrow> k \<in> {CallQuit, CallFree}"

text \<open>The loop thread is inside the context's code, and the next call of the client is too.\<close>

definition context_race :: "contact \<Rightarrow> bool" where
  "context_race s \<longleftrightarrow> cx_loop s = Dispatching \<and> on_context (cx_client s)"

text \<open>The loop thread is inside the main loop's code, and the next call of the client is too.\<close>

definition mainloop_race :: "contact \<Rightarrow> bool" where
  "mainloop_race s \<longleftrightarrow> cx_loop s \<noteq> Returned \<and> on_loop (cx_client s)"

text \<open>In a shutdown the client touches the context only after the loop thread has returned.\<close>

definition shutdown_inv :: "contact \<Rightarrow> bool" where
  "shutdown_inv s \<longleftrightarrow>
     (cx_client s = CallQuit \<and> \<not> cx_quit s) \<or> (cx_client s = CallJoin \<and> cx_quit s) \<or>
     (cx_client s \<in> {CallDisconnect, CallUnref, CallFree, CallNone} \<and> cx_quit s \<and> cx_loop s = Returned)"

interpretation shut: invariant_rule shutdown_begins "contact_step shutdown_step" shutdown_inv
proof unfold_locales
  fix s show "shutdown_begins s \<Longrightarrow> shutdown_inv s" by (simp add: shutdown_begins_def shutdown_inv_def)
next
  fix s a t
  assume inv: "shutdown_inv s" and "contact_step shutdown_step s a t"
  then have "contact_next shutdown_step a s = Some t" by (simp only: contact_step_iff)
  with inv show "shutdown_inv t"
    by (cases "fst a"; cases "cx_client s"; cases "cx_loop s")
      (auto simp: contact_next_def shutdown_step_def loop_thread_step_def shutdown_inv_def split: if_splits)
qed

subsection \<open>A shutdown ends\<close>

text \<open>A turn of a thread; while it cannot move, as in a join, the turn passes.\<close>

definition contact_turn :: "(contact \<Rightarrow> contact option) \<Rightarrow> mover \<times> bool \<Rightarrow> contact \<Rightarrow> contact" where
  "contact_turn client a s = (case contact_next client a s of None \<Rightarrow> s | Some t \<Rightarrow> t)"

text \<open>
  The turns that are left: before the request to quit only the client's counts, however long the loop
  thread polls; in the join only that of the loop thread, which still has to leave a dispatch and to see
  the request.
\<close>

definition shutdown_rank :: "contact \<Rightarrow> nat" where
  "shutdown_rank s =
     (case cx_client s of
        CallQuit \<Rightarrow> 7
      | CallJoin \<Rightarrow> (case cx_loop s of Dispatching \<Rightarrow> 6 | Polling \<Rightarrow> 5 | Returned \<Rightarrow> 4)
      | CallDisconnect \<Rightarrow> 3
      | CallUnref \<Rightarrow> 2
      | CallFree \<Rightarrow> 1
      | _ \<Rightarrow> 0)"

definition awaited :: "contact \<Rightarrow> mover" where
  "awaited s = (if cx_client s = CallJoin \<and> cx_loop s \<noteq> Returned then LoopThread else Client)"

interpretation shut_turns: ranked_turns "contact_turn shutdown_step" fst shutdown_inv shutdown_rank awaited
proof unfold_locales
  note defs = contact_turn_def contact_next_def shutdown_step_def loop_thread_step_def shutdown_inv_def
    shutdown_rank_def awaited_def
  fix s :: contact and a :: "mover \<times> bool"
  assume inv: "shutdown_inv s"
  then show "shutdown_inv (contact_turn shutdown_step a s)"
    by (cases "fst a"; cases "cx_client s"; cases "cx_loop s") (auto simp: defs)
  from inv show "shutdown_rank (contact_turn shutdown_step a s) \<le> shutdown_rank s"
    by (cases "fst a"; cases "cx_client s"; cases "cx_loop s") (auto simp: defs)
  from inv show "0 < shutdown_rank s \<Longrightarrow> fst a = awaited s \<Longrightarrow>
      shutdown_rank (contact_turn shutdown_step a s) < shutdown_rank s"
    by (cases "fst a"; cases "cx_client s"; cases "cx_loop s") (auto simp: defs)
  from inv show "shutdown_rank (contact_turn shutdown_step a s) = shutdown_rank s \<Longrightarrow>
      awaited (contact_turn shutdown_step a s) = awaited s"
    by (cases "fst a"; cases "cx_client s"; cases "cx_loop s") (auto simp: defs)
qed

lemma shutdown_finishes:
  assumes "reachable shutdown_begins (contact_step shutdown_step) s" "7 \<le> length rs"
    and "\<And>r. r \<in> set rs \<Longrightarrow> fst ` set r = UNIV"
  shows "cx_client (fold (contact_turn shutdown_step) (concat rs) s) = CallNone"
    "cx_loop (fold (contact_turn shutdown_step) (concat rs) s) = Returned"
proof -
  let ?t = "fold (contact_turn shutdown_step) (concat rs) s"
  note inv = shut.invariant [OF assms(1)]
  have "shutdown_rank s \<le> 7" by (simp add: shutdown_rank_def split: client_call.split loop_thread.split)
  then have "shutdown_rank s \<le> length rs" using assms(2) by simp
  from shut_turns.rounds_finish [OF inv this assms(3)] show "cx_client ?t = CallNone" "cx_loop ?t = Returned"
    by (auto simp: shutdown_inv_def shutdown_rank_def split: loop_thread.splits)
qed

text \<open>A query begins while the loop thread polls; the poll finds an event, and the two meet.\<close>

lemma query_races: "\<exists>q. reachable query_begins (contact_step query_step) q \<and> context_race q"
proof (intro exI conjI)
  let ?q = "\<lparr>cx_loop = Dispatching, cx_quit = False, cx_client = CallGetInfo\<rparr>"
  have "reachable query_begins (contact_step query_step) \<lparr>cx_loop = Polling, cx_quit = False, cx_client = CallGetInfo\<rparr>"
    by (rule reach_init) (simp add: query_begins_def)
  then show "reachable query_begins (contact_step query_step) ?q"
    by (rule reach_step [where a = "(LoopThread, True)"])
      (simp add: contact_step_iff contact_next_def loop_thread_step_def)
  show "context_race ?q" by (simp add: context_race_def on_context_def)
qed

end
