(* ===== verification/Log_Race.thy ===== *)
theory Log_Race
  imports Logging Transition
begin

text \<open>
  Two threads on the log level of \<open>src/log.cpp\<close>: one in \<open>init_from_env()\<close>, whose test-and-set of
  \<open>g_level_initialized\<close> and store of \<open>g_level\<close> are two accesses, the other in \<open>set_level()\<close>, which
  is two stores. Each access to an atomic is one step.
\<close>

datatype init_pc = ICompareExchange | IStoreLevel | IReturned

datatype set_pc = SStoreInitialized | SStoreLevel | SReturned

record log_race =
  lr_log :: log_state
  lr_init :: init_pc
  lr_set :: set_pc

datatype log_actor = Reader | Writer

definition init_access :: "string option \<Rightarrow> log_race \<Rightarrow> log_race" where
  "init_access env r =
     (case lr_init r of
        ICompareExchange \<Rightarrow>
          (if g_level_initialized (lr_log r) then r\<lparr>lr_init := IReturned\<rparr>
           else r\<lparr>lr_log := (lr_log r)\<lparr>g_level_initialized := True\<rparr>, lr_init := IStoreLevel\<rparr>)
      | IStoreLevel \<Rightarrow>
          (case env of
             None \<Rightarrow> r\<lparr>lr_init := IReturned\<rparr>
           | Some name \<Rightarrow>
               (case parse_level name level_error of
                  (True, parsed) \<Rightarrow> r\<lparr>lr_log := (lr_log r)\<lparr>g_level := parsed\<rparr>, lr_init := IReturned\<rparr>
                | (False, _) \<Rightarrow> r\<lparr>lr_init := IReturned\<rparr>))
      | IReturned \<Rightarrow> r)"

definition set_access :: "level_t \<Rightarrow> log_race \<Rightarrow> log_race" where
  "set_access l r =
     (case lr_set r of
        SStoreInitialized \<Rightarrow>
          r\<lparr>lr_log := (lr_log r)\<lparr>g_level_initialized := True\<rparr>, lr_set := SStoreLevel\<rparr>
      | SStoreLevel \<Rightarrow> r\<lparr>lr_log := (lr_log r)\<lparr>g_level := l\<rparr>, lr_set := SReturned\<rparr>
      | SReturned \<Rightarrow> r)"

definition race_start :: "log_state \<Rightarrow> log_race" where
  "race_start s = \<lparr>lr_log = s, lr_init = ICompareExchange, lr_set = SStoreInitialized\<rparr>"

fun run_race :: "string option \<Rightarrow> level_t \<Rightarrow> log_actor list \<Rightarrow> log_race \<Rightarrow> log_race" where
  "run_race env l [] r = r"
| "run_race env l (a # as) r =
     run_race env l as (case a of Reader \<Rightarrow> init_access env r | Writer \<Rightarrow> set_access l r)"

text \<open>One thread after the other is the sequential model.\<close>

lemma race_sequential:
  "lr_log (run_race env l [Reader, Reader, Writer, Writer] (race_start s)) = set_level l (init_from_env env s)"
  "lr_log (run_race env l [Writer, Writer, Reader, Reader] (race_start s)) = init_from_env env (set_level l s)"
  by (simp_all add: race_start_def init_access_def set_access_def set_level_def init_from_env_def
      split: option.splits prod.splits bool.splits)

text \<open>Once the level has been initialised, a level that was set stays.\<close>

inductive race_step :: "string option \<Rightarrow> level_t \<Rightarrow> log_race \<Rightarrow> log_actor \<Rightarrow> log_race \<Rightarrow> bool" for env l where
  race_reader: "race_step env l r Reader (init_access env r)"
| race_writer: "race_step env l r Writer (set_access l r)"

definition race_settled :: "level_t \<Rightarrow> log_race \<Rightarrow> bool" where
  "race_settled l r \<longleftrightarrow> g_level_initialized (lr_log r) \<and> lr_init r \<noteq> IStoreLevel \<and>
     (lr_set r = SReturned \<longrightarrow> g_level (lr_log r) = l)"

definition race_initialised :: "log_race \<Rightarrow> bool" where
  "race_initialised r \<longleftrightarrow> (\<exists>s. g_level_initialized s \<and> r = race_start s)"

lemma race_settled_step: "race_settled l r \<Longrightarrow> race_step env l r a r' \<Longrightarrow> race_settled l r'"
proof -
  assume settled: "race_settled l r" and "race_step env l r a r'"
  from this(2) show "race_settled l r'"
  proof cases
    case race_reader
    with settled show ?thesis by (auto simp: race_settled_def init_access_def split: init_pc.splits)
  next
    case race_writer
    with settled show ?thesis by (auto simp: race_settled_def set_access_def split: set_pc.splits)
  qed
qed

interpretation race: invariant_rule race_initialised "race_step env l" "race_settled l" for env l
proof unfold_locales
  fix r show "race_initialised r \<Longrightarrow> race_settled l r"
    by (auto simp: race_initialised_def race_start_def race_settled_def)
qed (rule race_settled_step)

text \<open>Otherwise the store of \<open>init_from_env()\<close> can come last.\<close>

lemma race_lost:
  "run_race (Some (level_name e)) l [Reader, Writer, Writer, Reader] (race_start log_initial) =
     \<lparr>lr_log = \<lparr>g_level = e, g_level_initialized = True\<rparr>, lr_init = IReturned, lr_set = SReturned\<rparr>"
  by (simp add: race_start_def init_access_def set_access_def log_initial_def)

end
