(* ===== verification/Sample_Life.thy ===== *)
theory Sample_Life
  imports Sample_Run Life_Calls
begin

text \<open>The life of the sample handle after its start, as a witness: a state that is reached by one call.\<close>

definition sample_life :: life where
  "sample_life = (life_of sample_created)\<lparr>lf_h := Some sample_handle, lf_thread := Some (loop_start sample_handle)\<rparr>"

lemma sample_life_sel [simp]:
  "lf_h sample_life = Some sample_handle" "lf_thread sample_life = Some (loop_start sample_handle)"
  "lf_client sample_life = ClientIdle" "lf_read sample_life = None"
  by (simp_all add: sample_life_def life_of_def)

lemma sample_life_reachable: "reachable life_init life_step sample_life"
proof (rule reach_step)
  show "reachable life_init life_step (life_of sample_created)"
    by (rule reach_init) (auto simp: life_init_def intro: sample_startable)
  show "life_step (life_of sample_created) (StartCall sample_start) sample_life"
    using life_start [of "life_of sample_created" sample_created sample_start, OF _ _ sample_started]
    by (simp add: life_of_def sample_life_def)
qed

text \<open>Its stop, during which the thread leaves its loop and is joined.\<close>

lemma sample_life_stop:
  obtains c where "execution life_step sample_life (stop_steps False True (replicate 10 sample_bad) 0 [CtxTerminated])
     (sample_life\<lparr>lf_h := Some c, lf_thread := None\<rparr>)"
proof -
  note run = started_run [OF sample_startable sample_started loop_run.simps(1)]
  have ten: "10 \<le> length (replicate 10 sample_bad)" by simp
  from stop_joins [OF run(1-4) ten, of "[CtxTerminated]" 0] obtain c where
    stop: "weba_capture_stop [CtxTerminated] (replicate 10 sample_bad) 0 (lf_thread sample_life, Some sample_handle) =
       Inr (Some (None, Some c))" by auto
  have "h_thread sample_handle" by (rule run(3))
  with stop stop_exec [of sample_life sample_handle False "replicate 10 sample_bad" 0 "[CtxTerminated]"]
  have "execution life_step sample_life (stop_steps False True (replicate 10 sample_bad) 0 [CtxTerminated])
     (sample_life\<lparr>lf_h := Some c, lf_thread := None, lf_client := ClientIdle\<rparr>)" by auto
  moreover have "sample_life\<lparr>lf_h := Some c, lf_thread := None, lf_client := ClientIdle\<rparr> =
      sample_life\<lparr>lf_h := Some c, lf_thread := None\<rparr>" by (simp add: sample_life_def life_of_def)
  ultimately show ?thesis by (intro that) simp
qed

end
