(* ===== verification/Life_System.thy ===== *)
theory Life_System
  imports Life_Calls
begin

text \<open>
  How the two machines fit: from a first start until the wait of a stop is over, the life of a handle is
  a run of the system of \<open>System\<close>, whose invariants are therefore those of the capture in any life. The
  system has a clock that does not run backwards, which the life leaves open; the acts of a run must
  have times that do not either.
\<close>

subsection \<open>The acts of a capture\<close>

definition act_time :: "life_act \<Rightarrow> ns option" where
  "act_time a = (case a of ReadStep i \<Rightarrow> Some (ri_now i) | ReadCall _ _ _ _ now \<Rightarrow> Some now | _ \<Rightarrow> None)"

text \<open>No act ends the capture, and the times do not go back before \<open>now\<close>.\<close>

definition capturing_act :: "life_act \<Rightarrow> bool" where
  "capturing_act a \<longleftrightarrow> (case a of StopJoin _ \<Rightarrow> False | StopFinish _ \<Rightarrow> False | DeleteCall _ \<Rightarrow> False | _ \<Rightarrow> True)"

fun clocked :: "ns \<Rightarrow> life_act list \<Rightarrow> bool" where
  "clocked now [] = True"
| "clocked now (a # as) \<longleftrightarrow> capturing_act a \<and>
     (case act_time a of None \<Rightarrow> clocked now as | Some t \<Rightarrow> now \<le> t \<and> clocked t as)"

definition shows_system :: "life \<Rightarrow> sys \<Rightarrow> bool" where
  "shows_system u s \<longleftrightarrow> lf_h u = Some (s_h s) \<and> lf_thread u = Some (s_loop s) \<and> lf_read u = s_read s \<and>
     \<not> h_thread_abandoned (s_h s)"

text \<open>A start in the middle of a capture is refused and changes nothing.\<close>

lemma start_refused:
  assumes "life_inv u" "lf_h u = Some c" "lf_client u = ClientIdle" "\<not> h_thread_abandoned c" "lf_thread u = Some l"
    and "weba_capture_start e (Some c) = Inr (st, Some c', lo)"
  shows "c' = c" "lo = None"
proof -
  have th: "thread_inv (Some l) c" and cl: "client_inv ClientIdle (lf_read u) c"
    using assms(1-3,5) by (simp_all add: life_inv_def)
  then have "h_thread c" using assms(4) by (simp add: thread_inv_def)
  then have "h_running c" using th cl by (auto simp: thread_inv_def client_inv_def exiting_def)
  with assms(6) show "c' = c" "lo = None" by (simp_all add: weba_capture_start_def)
qed

lemma system_step:
  assumes inv: "life_inv u" and sim: "shows_system u s" and step: "life_step u a v"
    and act: "capturing_act a" "\<And>t. act_time a = Some t \<Longrightarrow> s_clock s \<le> t"
  shows "\<exists>s'. (s' = s \<or> (\<exists>b. sys_step s b s')) \<and> shows_system v s' \<and>
    s_clock s' = (case act_time a of None \<Rightarrow> s_clock s | Some t \<Rightarrow> t)"
proof -
  have stepped: ?thesis if "sys_step s b s'" "shows_system v s'"
    "s_clock s' = (case act_time a of None \<Rightarrow> s_clock s | Some t \<Rightarrow> t)" for b s' using that by blast
  from step show ?thesis
  proof cases
    case (life_thread c l i l' c')
    let ?s = "s\<lparr>s_loop := l', s_h := c', s_pushed := s_pushed s @ newly_pushed (s_loop s) (s_h s)\<rparr>"
    have "sys_step s (Capture i) ?s" using sim life_thread by (intro sys_capture) (simp add: shows_system_def)
    moreover have "loop_frame c c'"
      using inv life_thread by (intro thread_inv_loop(2) [OF _ life_thread(5)]) (simp add: life_inv_def)
    ultimately show ?thesis using sim life_thread
      by (elim stepped) (simp_all add: shows_system_def loop_frame_def act_time_def)
  next
    case (life_read c r i r' c')
    have "s_clock s \<le> ri_now i" using act(2) life_read(1) by (simp add: act_time_def)
    with sim life_read have "sys_step s (Consume i) (s\<lparr>s_read := Some r', s_h := c', s_clock := ri_now i,
        s_got := s_got s @ newly_got r r' (s_h s), s_released := s_released s @ newly_released r (s_h s) (ri_now i)\<rparr>)"
      by (intro sys_consume) (simp_all add: shows_system_def)
    moreover have "read_frame_rel c c'"
      using inv life_read by (intro active_read(3) [OF _ _ life_read(5)]) (simp_all add: life_inv_def)
    ultimately show ?thesis using sim life_read
      by (elim stepped) (simp_all add: shows_system_def read_frame_rel_def act_time_def)
  next
    case (life_call c d cap info timeout now r)
    have "s_clock s \<le> now" using act(2) life_call(1) by (simp add: act_time_def)
    with sim life_call have "sys_step s (Call d cap info timeout now) (s\<lparr>s_read := Some r, s_clock := now\<rparr>)"
      by (intro sys_step.sys_call) (simp_all add: shows_system_def)
    then show ?thesis using sim life_call by (elim stepped) (simp_all add: shows_system_def act_time_def)
  next
    case (life_event c st)
    with sim show ?thesis
      by (intro stepped [OF sys_event]) (simp_all add: shows_system_def act_time_def)
  next
    case (life_start c e st c' lo)
    with sim have "\<not> h_thread_abandoned c" "lf_thread u = Some (s_loop s)" by (simp_all add: shows_system_def)
    from start_refused [OF inv life_start(3,4) this life_start(5)] sim life_start show ?thesis
      by (intro exI [of _ s]) (simp add: shows_system_def act_time_def)
  next
    case (life_stop c d)
    with sim show ?thesis
      by (intro stepped [OF sys_request]) (simp_all add: shows_system_def act_time_def request_stop_def)
  next
    case (life_close c d)
    then have "h_stop_requested (s_h s)" using inv sim by (simp add: life_inv_def client_inv_def shows_system_def)
    with sim life_close show ?thesis
      by (intro stepped [OF sys_close]) (simp_all add: shows_system_def act_time_def close_queue_def)
  qed (use act in \<open>simp_all add: capturing_act_def\<close>)
qed

text \<open>A capture, from a first start on.\<close>

lemma system_execution:
  "execution life_step u as v \<Longrightarrow> life_inv u \<Longrightarrow> shows_system u s \<Longrightarrow> reachable served sys_step s \<Longrightarrow> clocked (s_clock s) as \<Longrightarrow>
     \<exists>s'. reachable served sys_step s' \<and> shows_system v s'"
proof (induction arbitrary: s rule: execution.induct)
  case (exec_cons u a w as v)
  have act: "capturing_act a" "s_clock s \<le> t" if "act_time a = Some t" for t
    using exec_cons.prems(4) that by auto
  have "capturing_act a" using exec_cons.prems(4) by simp
  with system_step [OF exec_cons.prems(1,2) exec_cons.hyps(1) _ act(2)] obtain s' where
    s': "s' = s \<or> (\<exists>b. sys_step s b s')" "shows_system w s'"
      "s_clock s' = (case act_time a of None \<Rightarrow> s_clock s | Some t \<Rightarrow> t)" by blast
  have "reachable served sys_step s'" using s'(1) exec_cons.prems(3) by (auto intro: reach_step)
  moreover have "clocked (s_clock s') as" using exec_cons.prems(4) s'(3) by (cases "act_time a") auto
  moreover have "life_inv w" by (rule life_inv_step [OF exec_cons.prems(1) exec_cons.hyps(1)])
  ultimately show ?case using exec_cons.IH s'(2) by blast
qed blast

lemma capture_is_system:
  assumes "startable c" "weba_capture_start e (Some c) = Inr (WEBA_OK, Some c', lo)"
    and run: "execution life_step ((life_of c')\<lparr>lf_thread := lo\<rparr>) as u" "clocked 0 as"
  shows "\<exists>s. reachable served sys_step s \<and> shows_system u s"
proof (rule system_execution [OF run(1)])
  have lo: "lo = Some (loop_start c')" by (rule start_started(3) [OF assms(1,2)])
  have "life_step (life_of c) (StartCall e) ((life_of c')\<lparr>lf_thread := lo\<rparr>)"
    using life_start [of "life_of c" c e, OF _ _ assms(2)] by (simp add: life_of_def lo)
  moreover have "life_init (life_of c)" using assms(1) by (auto simp: life_init_def)
  ultimately show "life_inv ((life_of c')\<lparr>lf_thread := lo\<rparr>)" using life_inv_init life_inv_step by blast
  have "\<not> h_thread_abandoned c'"
    using start_control(4) [OF assms(2)] startable_new(1) [OF assms(1)] assms(1) by (simp add: startable_def)
  then show "shows_system ((life_of c')\<lparr>lf_thread := lo\<rparr>) (sys_of c')"
    by (simp add: shows_system_def life_of_def sys_of_def lo)
  show "reachable served sys_step (sys_of c')" by (rule reach_init [of served, OF served_start [OF assms(1,2)]])
  show "clocked (s_clock (sys_of c')) as" using run(2) by (simp add: sys_of_def)
qed

end
