(* ===== verification/Life_Stop.thy ===== *)
theory Life_Stop
  imports Life_Calls
begin

text \<open>
  A stop in the life of a handle, with the capture thread, a consumer and the server between its
  accesses in any order: what it leaves, when it may abandon the thread, and that the thread leaves its
  loop, after which the wait ends.
\<close>

subsection \<open>While a stop is in progress\<close>

text \<open>The acts that are no call of the client: of the threads, and the accesses of the stop itself.\<close>

definition uncalled :: "life_act \<Rightarrow> bool" where
  "uncalled a \<longleftrightarrow> (case a of StartCall _ \<Rightarrow> False | StopCall _ \<Rightarrow> False | DeleteCall _ \<Rightarrow> False | _ \<Rightarrow> True)"

definition thread_turn :: "life_act \<Rightarrow> bool" where
  "thread_turn a \<longleftrightarrow> (case a of ThreadStep _ \<Rightarrow> True | _ \<Rightarrow> False)"

definition past_stop :: "client_pc \<Rightarrow> bool" where
  "past_stop pc \<longleftrightarrow> pc = ClientIdle \<or> pc = ClientDelete"

definition control_down :: "control \<Rightarrow> bool" where
  "control_down ct \<longleftrightarrow> \<not> ct_mainloop ct \<and> \<not> ct_ctx ct \<and> \<not> ct_thread ct \<and> \<not> ct_ready ct"

definition stop_phase :: "client_pc \<Rightarrow> weba_capture \<Rightarrow> bool" where
  "stop_phase pc c \<longleftrightarrow> h_stop_requested c \<and> (closed (h_queue c) \<or> (\<exists>d. pc = ClientClose d)) \<and>
     (past_stop pc \<and> \<not> h_thread_abandoned c \<longrightarrow> control_down (h_control c))"

definition in_stop :: "life \<Rightarrow> bool" where
  "in_stop s \<longleftrightarrow> life_inv s \<and> (\<exists>c. lf_h s = Some c \<and> stop_phase (lf_client s) c)"

text \<open>The steps until the thread is gone; 0 also when there is none.\<close>

definition steps_left :: "life \<Rightarrow> nat" where
  "steps_left s = (case lf_thread s of None \<Rightarrow> 0 | Some l \<Rightarrow> exit_distance (lp_pc l))"

definition abandoned_in :: "life \<Rightarrow> bool" where
  "abandoned_in s \<longleftrightarrow> (\<exists>c. lf_h s = Some c \<and> h_thread_abandoned c)"

definition waited_out :: "life_act \<Rightarrow> bool" where
  "waited_out a \<longleftrightarrow> (case a of StopJoin w \<Rightarrow> kJoinTimeout \<le> w | _ \<Rightarrow> False)"

lemma control_down_shutdown: "control_down (control_shutdown sts ct)"
  by (simp add: control_down_def control_shutdown_state)

lemma stop_phase_finish: "stop_phase (ClientFinish d) c \<Longrightarrow> stop_phase pc (stop_finish sts c)"
  by (simp add: stop_phase_def stop_finish_def control_down_shutdown past_stop_def)

text \<open>No step of a thread undoes what the stop has done so far.\<close>

lemma stop_phase_loop:
  assumes "stop_phase pc c" "thread_inv (Some l) c" "loop_step i (l, c) = Inr (l', c')" "past_stop pc \<Longrightarrow> \<not> h_thread c"
  shows "stop_phase pc c'"
  using thread_inv_loop(2) [OF assms(2,3)] assms(1,2,4)
  by (auto simp: stop_phase_def loop_frame_def thread_inv_def)

lemma stop_phase_read: "stop_phase pc c \<Longrightarrow> read_frame_rel c c' \<Longrightarrow> stop_phase pc c'"
  by (simp add: stop_phase_def read_frame_rel_def)

lemma in_stop_step:
  assumes inv: "in_stop s" and step: "life_step s a t" and act: "uncalled a"
  shows "in_stop t" "steps_left t \<le> steps_left s - (if thread_turn a then 1 else 0)"
    "abandoned_in t \<Longrightarrow> abandoned_in s \<or> waited_out a"
proof -
  obtain c where c: "lf_h s = Some c" and ph: "stop_phase (lf_client s) c" and li: "life_inv s"
    using inv by (auto simp: in_stop_def)
  have th: "thread_inv (lf_thread s) c" and cl: "client_inv (lf_client s) (lf_read s) c"
    and wf: "handle_wf c" "active_inv (lf_read s) c"
    using li c by (simp_all add: life_inv_def)
  have past: "\<not> h_thread c" if "past_stop (lf_client s)"
    using that cl ph by (auto simp: past_stop_def client_inv_def stop_phase_def)
  have "(\<exists>c'. lf_h t = Some c' \<and> stop_phase (lf_client t) c') \<and>
    steps_left t \<le> steps_left s - (if thread_turn a then 1 else 0) \<and> (abandoned_in t \<longrightarrow> abandoned_in s \<or> waited_out a)"
    using step
  proof cases
    case (life_thread h l i l' c')
    with c have step': "loop_step i (l, c) = Inr (l', c')" and l: "lf_thread s = Some l" by simp_all
    have "h_stop_requested c" using ph by (simp add: stop_phase_def)
    with stop_phase_loop [OF ph th [unfolded l] step' past] exit_distance_step [OF step']
      thread_inv_loop(2) [OF th [unfolded l] step'] life_thread l c show ?thesis
      by (simp add: steps_left_def thread_turn_def abandoned_in_def loop_frame_def)
  next
    case (life_read h r i r' c')
    with c wf have rel: "read_frame_rel c c'" by (intro active_read(3) [OF wf(1) _ , of r i r']) simp_all
    with stop_phase_read [OF ph rel] life_read c show ?thesis
      by (simp add: steps_left_def thread_turn_def abandoned_in_def read_frame_rel_def)
  next
    case (life_event h st)
    have "stop_phase (lf_client s) (server_event st c)"
      using ph life_event c by (auto simp: stop_phase_def control_down_def)
    with life_event c show ?thesis by (simp add: steps_left_def thread_turn_def abandoned_in_def)
  next
    case (life_join h d w joined)
    with c ph show ?thesis
      by (auto simp: steps_left_def thread_turn_def abandoned_in_def waited_out_def stop_phase_def past_stop_def
          detach_thread_def stop_wait_def split: if_splits)
  next
    case (life_finish h d sts)
    with c ph stop_phase_finish show ?thesis
      by (auto simp: steps_left_def thread_turn_def abandoned_in_def stop_finish_def)
  qed (use c ph act in \<open>auto simp: steps_left_def thread_turn_def abandoned_in_def uncalled_def stop_phase_def
        past_stop_def close_queue_def queue_close_def\<close>)
  with life_inv_step [OF li step]
  show "in_stop t" "steps_left t \<le> steps_left s - (if thread_turn a then 1 else 0)"
    "abandoned_in t \<Longrightarrow> abandoned_in s \<or> waited_out a"
    by (simp_all add: in_stop_def)
qed

lemma in_stop_execution:
  "execution life_step s as t \<Longrightarrow> in_stop s \<Longrightarrow> list_all uncalled as \<Longrightarrow>
     in_stop t \<and> steps_left t \<le> steps_left s - length (filter thread_turn as) \<and>
     (abandoned_in t \<longrightarrow> abandoned_in s \<or> list_ex waited_out as)"
proof (induction rule: execution.induct)
  case (exec_cons s a u as t)
  then have "uncalled a" "list_all uncalled as" by simp_all
  note one = in_stop_step [OF exec_cons.prems(1) exec_cons.hyps(1) this(1)]
  with exec_cons.IH [OF one(1) \<open>list_all uncalled as\<close>] show ?case by auto
qed simp

lemma in_stop_begin:
  assumes "life_inv s" "life_step s (StopCall d) t"
  shows "in_stop t" "steps_left t \<le> 10" "abandoned_in t \<Longrightarrow> abandoned_in s"
proof -
  obtain c where t: "lf_h s = Some c" "t = s\<lparr>lf_h := Some (request_stop c), lf_client := ClientClose d\<rparr>"
    using assms(2) by (auto simp: life_stop_iff)
  have "stop_phase (ClientClose d) (request_stop c)" by (simp add: stop_phase_def past_stop_def request_stop_def)
  with life_inv_step [OF assms] show "in_stop t" by (simp add: in_stop_def t(2))
  show "steps_left t \<le> 10" using exit_distance_le by (simp add: steps_left_def split: option.split)
  show "abandoned_in t \<Longrightarrow> abandoned_in s" by (simp add: t abandoned_in_def request_stop_def)
qed

subsection \<open>What a stop leaves, and that it ends\<close>

text \<open>Past a stop: all is at rest, or the thread has been abandoned and everything it uses is kept.\<close>

definition stop_leaves :: "loop_state option \<Rightarrow> weba_capture \<Rightarrow> bool" where
  "stop_leaves lo c \<longleftrightarrow>
     (if h_thread_abandoned c
      then lo \<noteq> None \<and> \<not> h_thread c \<and> h_stop_requested c \<and> closed (h_queue c) \<and> ct_thread (h_control c)
      else lo = None \<and> at_rest c)"

lemma in_stop_leaves:
  assumes "in_stop t" "past_stop (lf_client t)"
  shows "\<exists>c. lf_h t = Some c \<and> stop_leaves (lf_thread t) c"
proof -
  obtain c where c: "lf_h t = Some c" and ph: "stop_phase (lf_client t) c" and li: "life_inv t"
    using assms(1) by (auto simp: in_stop_def)
  have "thread_inv (lf_thread t) c" "client_inv (lf_client t) (lf_read t) c" using li c by (simp_all add: life_inv_def)
  with c ph assms(2) show ?thesis
    by (auto simp: stop_leaves_def stop_phase_def past_stop_def thread_inv_def client_inv_def at_rest_def
        control_down_def split: option.splits)
qed

text \<open>The wait takes the thread for gone exactly when it is, and does not last beyond its timeout.\<close>

lemma in_stop_join:
  assumes inv: "in_stop t" and pc: "lf_client t = ClientJoin d"
  obtains l where "lf_thread t = Some l"
    "\<And>w u. life_step t (StopJoin w) u \<Longrightarrow>
      lf_thread u = (if lp_pc l = LDone then None else Some l) \<and> (lp_pc l = LDone \<or> kJoinTimeout \<le> w)"
    "\<And>w. lp_pc l = LDone \<or> kJoinTimeout \<le> w \<Longrightarrow> \<exists>u. life_step t (StopJoin w) u"
proof -
  obtain c where c: "lf_h t = Some c" and li: "life_inv t" using inv by (auto simp: in_stop_def)
  then have th: "thread_inv (lf_thread t) c" and "h_thread c" using pc by (simp_all add: life_inv_def client_inv_def)
  then obtain l where l: "lf_thread t = Some l" by (auto simp: thread_inv_def split: option.splits)
  then have run: "h_running c \<longleftrightarrow> lp_pc l \<noteq> LDone" using th by (simp add: thread_inv_def)
  show ?thesis
  proof (rule that [OF l])
    show "lf_thread u = (if lp_pc l = LDone then None else Some l) \<and> (lp_pc l = LDone \<or> kJoinTimeout \<le> w)"
      if "life_step t (StopJoin w) u" for w u
      using that c l run by (auto simp: life_join_iff stop_wait_def split: if_splits)
    show "\<exists>u. life_step t (StopJoin w) u" if "lp_pc l = LDone \<or> kJoinTimeout \<le> w" for w
      using that c pc run by (auto simp: life_join_iff stop_wait_def)
  qed
qed

lemma steps_left_done: "lf_thread t = Some l \<Longrightarrow> steps_left t = 0 \<Longrightarrow> lp_pc l = LDone"
  by (simp add: steps_left_def exit_distance_def split: loop_pc.splits)

lemma stop_execution:
  assumes "life_inv s" "execution life_step s (StopCall d # as) t" "list_all uncalled as"
  shows "in_stop t" "10 \<le> length (filter thread_turn as) \<Longrightarrow> steps_left t = 0"
    "abandoned_in t \<Longrightarrow> abandoned_in s \<or> list_ex waited_out as"
proof -
  obtain u where u: "life_step s (StopCall d) u" "execution life_step u as t"
    using assms(2) by (auto simp: execution_Cons)
  note begun = in_stop_begin [OF assms(1) u(1)]
  from in_stop_execution [OF u(2) begun(1) assms(3)] begun(2,3)
  show "in_stop t" "10 \<le> length (filter thread_turn as) \<Longrightarrow> steps_left t = 0"
    "abandoned_in t \<Longrightarrow> abandoned_in s \<or> list_ex waited_out as" by auto
qed

end
