(* ===== verification/Spec2Isabelle.thy ===== *)
theory Spec2Isabelle
  imports Sample_Recording Sample_Test Resources Log_Lines Wakeup Query_Lifetime Context_Race Log_Race Sample_Life Life_System Life_Stop
begin

text \<open>
  The web audio capture library: a C ABI (\<open>include/webacapture.h\<close>) over a C++ implementation that
  records the monitor of a PulseAudio sink and hands out frames of PCM audio at a fixed rate. All
  paths below are under \<open>src/\<close> of the repository.

  \<^bold>\<open>The program and its model.\<close> A handle (\<open>weba_capture\<close>, \<open>src/capture.cpp\<close>) owns a connection to
  the audio server (\<open>control_t\<close>), a bounded queue of frames (\<open>frame_queue_t\<close>) and, while it runs, a
  capture thread that opens a recording stream (\<open>mic_t\<close>), reads frames and pushes them. The caller
  pops them with \<open>weba_capture_read_frame()\<close>, which paces the output and fills in silence. The example
  program (\<open>examples/webacap-dump.c\<close>) is such a caller: it records the frames in a WAV file. So is the
  self test (\<open>tests/webaudio_selftest.cpp\<close>), which checks the life of a handle and fifty frames.

  \<^item> \<open>Prelude\<close>: machine types, faults, \<open>memcpy\<close>, time units, decimal text. A \<open>size_t\<close> is a natural
    number whose sums and products wrap at \<open>2 ^ 64\<close> (\<open>size_add\<close>, \<open>size_mul\<close>); a \<open>uint32_t\<close> is a word.
    Undefined behaviour and uncaught exceptions are the values \<open>Inl fault\<close>.
  \<^item> \<open>Queue_Interface\<close>, \<open>Frame_Queue\<close> (\<open>src/frame_queue.h\<close>): the locale \<open>drop_oldest_queue\<close> with the
    accounting its clients rely on; the ring buffer, its invariant, its abstract queue and the
    commuting lemmas; the interpretation \<open>fq\<close>.
  \<^item> \<open>Abi\<close> (\<open>include/webacapture.h\<close>): formats, statuses, flags, structures, defaults and texts.
  \<^item> \<open>Logging\<close>, \<open>Log_Race\<close> (\<open>src/log.h\<close>, \<open>src/log.cpp\<close>): levels, initialisation, the line object and
    its pieces; and the two atomics under two threads. \<open>Log_Lines\<close>: which lines each operation of the
    other files writes, in which order, beside what it does to the state.
  \<^item> \<open>Alarm\<close> (\<open>src/primitives.h\<close>): the alarm, with the locale \<open>one_shot\<close>, and the scope guard.
  \<^item> \<open>Pulse_Control\<close>, \<open>Query_Lifetime\<close>, \<open>Context_Race\<close> (\<open>src/pulse_control.h\<close>,
    \<open>src/pulse_control.cpp\<close>): connecting, the callbacks, the queries, resolving a target; the lifetime
    of a query's alarm, each callback being one step; and the order in which a shutdown or a query and
    the loop thread touch libpulse's context and main loop.
  \<^item> \<open>Pulse_Mic\<close> (\<open>src/pulse_mic.h\<close>, \<open>src/pulse_mic.cpp\<close>): format tables, opening, reading.
  \<^item> \<open>Frame_Period\<close>, \<open>Handle\<close>, \<open>Capture_Loop\<close>, \<open>Read_Frame\<close>, \<open>Lifecycle\<close> (\<open>src/capture.cpp\<close>): the
    frame period and its text; the object, creation and the readers of the handle;
    \<open>capture_loop()\<close> and \<open>weba_capture_read_frame()\<close> as machines whose program counters name the
    statements between two accesses to shared state; \<open>weba_capture_start()\<close>, \<open>weba_capture_stop()\<close>
    and \<open>weba_capture_destroy()\<close>.
  \<^item> \<open>Wakeup\<close>: waiting on a condition variable for a flag, with the store under the mutex, as in
    \<open>weba_capture_stop()\<close>, \<open>close()\<close>, the state callback and the alarm, or without, as at the end of
    \<open>capture_loop()\<close>; and an alarm that its waiter frees, with the setter's accesses one by one.
  \<^item> \<open>Resources\<close>: the main loop, the context and the streams: what each operation acquires and
    releases, in order, and that replaying it never releases what is not held.
  \<^item> \<open>Transition\<close>, \<open>System\<close>: reachable states and invariants, as locales; the running system, in which
    the steps of the capture thread, of the consumer, of a stop and of the connection's state callback
    interleave in every way, with the history of what was pushed, handed out and when; and a locale for
    liveness, \<open>ranked_turns\<close>, under schedules that give every thread its turns.
  \<^item> \<open>Read_Call\<close>, \<open>Loop_Service\<close>, \<open>Delivery\<close>, \<open>Delivered\<close>, \<open>Cadence\<close>: what whole calls and runs do,
    and the invariants of the system: safety, accounting, labelling of frames, cadence. Each is an
    interpretation of \<open>invariant_rule\<close> or \<open>relative_invariant\<close>.
  \<^item> \<open>Typing\<close>: which flags, statuses and waits occur in a reachable state, as an invariant.
  \<^item> \<open>Sys_Exec\<close>, \<open>System_Call\<close>: the step relation as a function, and a whole call inside the running
    system, with any steps of the capture thread between those of the consumer.
  \<^item> \<open>Handle_Life\<close>, \<open>Life_Calls\<close>: the whole life of a handle, any sequence of the calls of \<open>Lifecycle\<close>
    by one client thread, with a stop and a destruction taken apart into their accesses to the handle
    and the steps of the capture thread, of a consumer and of the state callback between them; its
    invariant, its starts, and the equivalence of these steps with the calls. \<open>Life_Stop\<close>: what a stop
    leaves and that it ends, with all of them between its accesses. \<open>Life_System\<close>: from a first start
    until the wait of a stop is over, a life is a run of the system.
  \<^item> \<open>Wav_File\<close>, \<open>Recorder\<close> (\<open>examples/webacap-dump.c\<close>): the output file with its header and sizes,
    and a reader of the format; \<open>main()\<close> as \<open>dump_main\<close>, \<open>dump_record\<close> and \<open>dump_loop\<close>, whose calls
    are runs of the system.
  \<^item> \<open>Recording\<close>, \<open>Recorder_Progress\<close>, \<open>Recorder_Exit\<close>: the invariants of a call, of a turn and of the
    recorder's loop against the history of the system; a frame for every turn; and every outcome of
    \<open>main()\<close>: the exceptions, the exits, and that it does return.
  \<^item> \<open>Self_Test\<close> (\<open>tests/webaudio_selftest.cpp\<close>): \<open>main()\<close> as \<open>selftest_main\<close>, \<open>test_live\<close> and
    \<open>read_frames\<close>, with its checks and their count. \<open>Self_Test_Run\<close>: what each of its parts does on a
    server that answers, and when the frames are released; \<open>Calm_Run\<close>: a capture that has nothing to
    report, with room in its queue, never flags a discontinuity.
  \<^item> \<open>Sample_Run\<close>, \<open>Sample_Life\<close>, \<open>Sample_Recording\<close>, \<open>Sample_Test\<close>: the runs and the sessions that
    serve as witnesses.

  \<^bold>\<open>What is shown.\<close> For the caller: no captured frame vanishes unreported (C1), what is delivered is
  audio or flagged silence (C2), states are well typed (C3), the cadence holds (C4), calls return
  (C5) and deliver (C6), unless the handle was stopped before its start (C7). For the recorder: its
  file, its counters, its progress, its exits (C8-C13); for the self test, its verdict (C14). For the
  capture thread: safety, progress, recovery, following the default sink, what it reports (C15-C19).
  For the life cycle: stopping, destroying, resources, starting, restarting and failing, the whole
  life of a handle, creating (C20-C29). For the parts: refinement of an abstract queue, the stream
  request, resolution, the lifetime of an alarm (C30-C34). For threads that meet: wake-ups and the
  alarm's notification, a stop among the threads, the shutdown and its end (C35-C37). For the texts and the log: the
  period, the errors written, the level (C38-C40).

  \<^bold>\<open>Surroundings.\<close> What libpulse answers is an argument: which calls succeed, which callbacks run
  while a thread waits, the statuses and the bytes read (\<open>connect_env\<close>, \<open>query_env\<close>, \<open>simple_new\<close>,
  \<open>read_answer\<close>). So are the steady clock, how long a wait has lasted, the success of an allocation
  and of the creation of a thread (\<open>ce_spawn\<close>, \<open>se_spawn\<close>, \<open>se_alloc\<close>) and the environment
  variable; for the recorder also the outcome of its comparisons of clock readings, \<open>malloc\<close> and
  \<open>fopen\<close>, and for the self test its two readings of the clock. No assumption is made about them
  except where a property names one:
  \<open>serves\<close> (the server answers a query in time), \<open>connects\<close>, \<open>sleep_honoured\<close>, \<open>sink_protocol\<close>,
  \<open>malloc_ok\<close> (a block has the length asked for), \<open>turns_served\<close> and \<open>reads_served\<close> (a call's steps
  come in time), \<open>session_served\<close> (those of a whole recording do), \<open>test_surroundings\<close> and \<open>test_healthy\<close> (a server for the self test), and
  that a disconnection reports the terminated state. A step that waits stays where it is until its
  condition or its timeout holds. The life of a handle has one client thread that makes the calls other
  than reads, and no read in progress when the handle is destroyed; an exception or the end of the
  process is the end of it.

  \<^bold>\<open>Bounds.\<close> No fuel is used: each thread is a one-step function, and runs are lists of answers. A
  stop is met within 10 steps of the capture thread (\<open>exit_distance\<close>), a frame is captured within 7
  steps (8 for a reopening), and a fixed-rate call returns within 6, under \<open>sleep_honoured\<close>. The
  accounting is exact while fewer than \<open>2 ^ 64\<close> frames have been pushed; a handle that
  comes back is ready if its queue has fewer than \<open>2 ^ 64\<close> bytes (C29 shows what happens beyond, and
  from \<open>2 ^ 63\<close> bytes). The sizes in the
  recorder's file are exact below 4 GiB (C11).

  \<^bold>\<open>Not modelled.\<close> The floating-point figures that the two programs print (the one that the self
  test compares is compared in exact arithmetic, \<open>cadence_matches\<close>), and failing writes of its
  file and of log lines, whose results are ignored; allocation failures other than those of a handle,
  its queue, the capture thread's buffer and the recorder's \<open>malloc\<close>, that is of strings and of small
  objects; what two threads do to libpulse's objects when they meet, as opposed to when they meet; the
  memory model beyond sequentially consistent atomics; the build rules and the documentation.
\<close>

section \<open>Properties\<close>

subsection \<open>What the caller receives\<close>

text \<open>
  C1. No captured frame vanishes unreported. In every reachable state of the running system the
  frames pushed are, in order, for each delivery as many lost frames as its drop count says and then
  the frame delivered, then the losses not yet reported, then the frames still queued; so the
  deliveries are a subsequence of the capture, and the counts add up.
\<close>

theorem frames_accounted:
  assumes "reachable sys_init sys_step s" and "length (s_pushed s) < 2 ^ 64"
  shows "explains (s_pushed s) (s_got s) (q_dropped (h_queue (s_h s))) (frames (h_queue (s_h s))) \<and>
    subseq (map snd (s_got s) @ frames (h_queue (s_h s))) (s_pushed s) \<and>
    length (s_pushed s) = sum_list (map fst (s_got s)) + length (s_got s) +
      q_dropped (h_queue (s_h s)) + length (frames (h_queue (s_h s)))"
proof -
  from acct.both.invariant [OF assms(1)] assms(2)
  have "explains (s_pushed s) (s_got s) (q_dropped (h_queue (s_h s))) (frames (h_queue (s_h s)))"
    by (simp add: accounted_def size_mod_def)
  with explains_length [OF this] explains_subseq [OF this] show ?thesis by blast
qed

theorem frames_accounted_witness:
  "\<exists>s. reachable sys_init sys_step s \<and> s_pushed s = [[1, 1], [2, 2], [3, 3]] \<and>
     s_got s = [(1, [2, 2]), (0, [3, 3])] \<and> q_dropped (h_queue (s_h s)) = 0 \<and> frames (h_queue (s_h s)) = []"
proof -
  obtain s r where s: "reachable sys_init sys_step s"
    "s_pushed s = [[1, 1], [2, 2], [3, 3]]" "s_got s = [(1, [2, 2]), (0, [3, 3])]"
    by (rule sample_last_state) (rule that; assumption)
  with frames_accounted [OF s(1)] show ?thesis by (auto simp: s(2,3))
qed

text \<open>
  C2. A frame is captured audio or flagged silence, never one for the other. When a call has returned
  1 with an info structure, either the buffer holds zeros, flagged as silence and underrun with no
  drops; or it holds the last frame taken from the queue, a captured one, not flagged so, with its
  drop count modulo 2^32 and the discontinuity flag if there were drops.
\<close>

theorem delivered_frame:
  assumes "reachable sys_init sys_step s" and "length (s_pushed s) < 2 ^ 64"
    and "s_read s = Some r" "rd_pc r = RReturn 1" "rd_info r = Some info"
  shows "(has_flag (fr_flags info) WEBA_FRAME_SILENCE \<and> has_flag (fr_flags info) WEBA_FRAME_UNDERRUN \<and>
      take (frame_bytes (s_h s)) (rd_dst r) = replicate (frame_bytes (s_h s)) 0 \<and> dropped_frames info = 0) \<or>
    (\<exists>n. \<not> has_flag (fr_flags info) WEBA_FRAME_SILENCE \<and> \<not> has_flag (fr_flags info) WEBA_FRAME_UNDERRUN \<and>
      s_got s \<noteq> [] \<and> last (s_got s) = (n, take (frame_bytes (s_h s)) (rd_dst r)) \<and>
      take (frame_bytes (s_h s)) (rd_dst r) \<in> set (s_pushed s) \<and> dropped_frames info = word_of_nat n \<and>
      (n = 0 \<or> has_flag (fr_flags info) WEBA_FRAME_DISCONTINUITY))"
proof -
  let ?got = "s_got s" and ?f = "take (frame_bytes (s_h s)) (rd_dst r)"
  from reachable_labelled [OF assms(1)] have acc: "accounted s" and
    lab: "frame_note (frame_bytes (s_h s)) ?got r" using assms(3) by (auto simp: labelled_def)
  from lab assms(4,5) have n: "dropped_frames info = word_of_nat (rd_total r)"
    "handed_frame (frame_bytes (s_h s)) ?got (fr_flags info) (rd_total r) (rd_dst r)"
    by (auto simp: frame_note_def)
  have "explains (s_pushed s) ?got (q_dropped (h_queue (s_h s))) (frames (h_queue (s_h s)))"
    using acc assms(2) by (simp add: accounted_def size_mod_def)
  note pushed = explains_delivered [OF this]
  from n(2) show ?thesis unfolding handed_frame_def
  proof
    assume "silent_frame (frame_bytes (s_h s)) (fr_flags info) (rd_total r) (rd_dst r)"
    with n(1) show ?thesis by (simp add: silent_frame_def)
  next
    assume cap: "captured_frame (frame_bytes (s_h s)) ?got (fr_flags info) (rd_total r) (rd_dst r)"
    then have got: "?got \<noteq> []" "last ?got = (rd_total r, ?f)"
      by (simp_all add: captured_frame_def taken_frame_def)
    with last_in_set [of ?got] have "?f \<in> set (s_pushed s)" by (intro pushed [of "rd_total r"]) simp
    with n(1) cap got show ?thesis
      by (intro disjI2 exI [of _ "rd_total r"]) (auto simp: captured_frame_def)
  qed
qed

theorem delivered_frame_witness:
  "\<exists>s r info. reachable sys_init sys_step s \<and> s_read s = Some r \<and> rd_info r = Some info \<and>
     has_flag (fr_flags info) WEBA_FRAME_SILENCE \<and>
     take (frame_bytes (s_h s)) (rd_dst r) = replicate (frame_bytes (s_h s)) 0"
proof -
  obtain s r where s: "reachable sys_init sys_step s" "s_pushed s = [[1, 1], [2, 2], [3, 3]]"
    and r: "s_read s = Some r" "rd_pc r = RReturn 1"
      "rd_info r = Some \<lparr>timestamp_ns = 3000000, fr_flags = 6, dropped_frames = 0\<rparr>"
    by (rule sample_last_state) (rule that; assumption)
  have "length (s_pushed s) < 2 ^ 64" by (simp add: s(2))
  from delivered_frame [OF s(1) this r] have
    "take (frame_bytes (s_h s)) (rd_dst r) = replicate (frame_bytes (s_h s)) 0"
    by (auto simp: has_flag_def flag_defs)
  with s(1) r show ?thesis by (fastforce simp: has_flag_def flag_defs)
qed

text \<open>
  C3. Every reachable state is well typed: the pending flags are none or those of a reopening, a
  wait is not negative and a sleep is positive, a call returns 1, 0, the state error or the argument
  error, and a delivered frame carries no flag, a discontinuity, silence with underrun, a reopening
  with its discontinuity, or the last two together; no other combination.
\<close>

theorem states_well_typed:
  assumes "reachable sys_init sys_step s"
  shows "h_pending_flags (s_h s) \<in> {0, WEBA_FRAME_REINIT OR WEBA_FRAME_DISCONTINUITY} \<and>
    (case map_option rd_pc (s_read s) of
       Some (RPopWait w) \<Rightarrow> 0 \<le> w
     | Some (RSleep w) \<Rightarrow> 0 < w
     | Some (RFlags res) \<Rightarrow> res = 0 \<or> res = 1
     | Some (RAfter fl) \<Rightarrow> fl \<in> flag_words
     | Some (RReturn st) \<Rightarrow> st \<in> {1, 0, WEBA_ERR_STATE, WEBA_ERR_INVAL} \<and>
         (st = 1 \<longrightarrow> (\<forall>r info. s_read s = Some r \<longrightarrow> rd_info r = Some info \<longrightarrow> fr_flags info \<in> flag_words))
     | _ \<Rightarrow> True)"
  using typed.both.invariant [OF assms]
  by (cases "s_read s") (auto simp: sys_typed_def read_typed_def pending_words_def reinit_flags_def
      read_statuses_def split: read_pc.splits)

theorem states_well_typed_witness:
  "\<exists>s r. reachable sys_init sys_step s \<and> s_read s = Some r \<and> rd_pc r = RReturn 1 \<and>
     (\<forall>info. rd_info r = Some info \<longrightarrow> fr_flags info \<in> flag_words)"
proof -
  obtain s r where s: "reachable sys_init sys_step s" and r: "s_read s = Some r" "rd_pc r = RReturn 1"
    by (rule sample_last_state) (rule that; assumption)
  from states_well_typed [OF s] r s show ?thesis by auto
qed

text \<open>
  C4. The cadence holds. At fixed rate each deadline is the previous one plus the period, or, when
  that has passed, the time of delivery plus the period; no frame is handed out before its deadline,
  hence frames \<open>k\<close> apart are at least \<open>k\<close> periods apart from the deadline of the first, whatever
  the threads, the caller and the clock do.
\<close>

theorem cadence_held:
  assumes "reachable sys_init sys_step s" and "i + k < length (s_released s)"
  shows "fst (s_released s ! i) + int k * period_ns (s_h s) \<le> snd (s_released s ! (i + k)) \<and>
    (0 < k \<longrightarrow> fst (s_released s ! (i + k)) =
       after_deadline (period_ns (s_h s)) (s_released s ! (i + k - 1)))"
proof -
  have law: "lawful (period_ns (s_h s)) (s_released s)"
    using reachable_on_time [OF assms(1)] by (simp add: on_time_def)
  have "fst (s_released s ! i) + int k * period_ns (s_h s) \<le> fst (s_released s ! (i + k))"
    by (rule lawful_pace [OF law period_ns_nonneg assms(2)])
  moreover have "fst (s_released s ! (i + k)) \<le> snd (s_released s ! (i + k))"
    using law assms(2) by (simp add: lawful_def)
  moreover have "fst (s_released s ! (i + k)) = after_deadline (period_ns (s_h s)) (s_released s ! (i + k - 1))"
    if "0 < k" using law assms(2) that by (cases k) (simp_all add: lawful_def)
  ultimately show ?thesis by simp
qed

theorem cadence_held_witness:
  "\<exists>s. reachable sys_init sys_step s \<and> s_released s ! 2 = (3000000, 3000000) \<and>
     fst (s_released s ! 0) + 2 * period_ns (s_h s) \<le> 3000000"
proof -
  obtain s r where s: "reachable sys_init sys_step s"
    "s_released s = [(1000000, 2000000), (2000000, 2200000), (3000000, 3000000)]"
    by (rule sample_last_state) (rule that; assumption)
  from cadence_held [OF s(1), of 0 2] s show ?thesis by auto
qed

text \<open>
  C5. Every call returns. At fixed rate it ends within six steps of the consumer, if its one sleep lasts
  as long as asked and no stop is requested; without a fixed rate the caller's timeout is the only
  deadline, and once the clock has reached it the call ends within three. It returns a frame, an honest
  timeout or the state error of a closed queue, whatever the capture thread does in between within its
  guarantee.
\<close>

theorem read_call_returns:
  assumes "handle_wf c" "h_running c"
    and buffer: "honest_buffer c d cap" "h_frame_samples c \<le> cap"
    and entry: "read_frame_entry (Some c) (Some d) cap info timeout now = Inr r"
    and others: "\<And>k. capture_guarantee (g k)"
  shows "(h_fixed_rate c \<longrightarrow> \<not> h_stop_requested c \<longrightarrow> sleep_honoured c r (i 0) (i 1) (i 2) \<longrightarrow>
      (\<exists>r' c' st. read_exec (six_steps i g) (r, c) = Inr (r', c') \<and> rd_pc r' = RReturn st \<and>
        (st = 0 \<or> st = 1 \<or> st = WEBA_ERR_STATE \<and> closed (h_queue c)))) \<and>
    (\<not> h_fixed_rate c \<longrightarrow>
      now + ms_to_ns (max timeout 0) \<le> ri_now (i 0) \<and> ri_now (i 0) \<le> ri_now (i 2) \<and> 0 \<le> ri_waited (i 1) \<longrightarrow>
      (\<exists>r' c' st. read_exec [(i 0, g 0), (i 1, g 1), (i 2, g 2)] (r, c) = Inr (r', c') \<and> rd_pc r' = RReturn st \<and>
        (st = 0 \<or> st = 1 \<or> st = WEBA_ERR_STATE \<and> closed (h_queue c))))"
proof (intro conjI impI)
  assume fixed: "h_fixed_rate c" "\<not> h_stop_requested c" and sleep: "sleep_honoured c r (i 0) (i 1) (i 2)"
  show "\<exists>r' c' st. read_exec (six_steps i g) (r, c) = Inr (r', c') \<and> rd_pc r' = RReturn st \<and>
      (st = 0 \<or> st = 1 \<or> st = WEBA_ERR_STATE \<and> closed (h_queue c))"
    by (rule read_frame_returns [OF assms(1) fixed assms(2) buffer entry others sleep])
next
  assume unpaced: "\<not> h_fixed_rate c"
    and late: "now + ms_to_ns (max timeout 0) \<le> ri_now (i 0) \<and> ri_now (i 0) \<le> ri_now (i 2) \<and> 0 \<le> ri_waited (i 1)"
  show "\<exists>r' c' st. read_exec [(i 0, g 0), (i 1, g 1), (i 2, g 2)] (r, c) = Inr (r', c') \<and> rd_pc r' = RReturn st \<and>
      (st = 0 \<or> st = 1 \<or> st = WEBA_ERR_STATE \<and> closed (h_queue c))"
    using late by (intro unpaced_call_returns [OF assms(1) unpaced assms(2) buffer entry others]) simp_all
qed

theorem read_call_returns_witness:
  "(\<exists>r' c' st. read_exec (six_steps sample_clock (\<lambda>_. pending_or reinit_flags)) (sample_read, sample_handle) =
     Inr (r', c') \<and> rd_pc r' = RReturn st \<and> (st = 0 \<or> st = 1 \<or> st = WEBA_ERR_STATE \<and> closed (h_queue sample_handle))) \<and>
   (\<exists>r' c' st. read_exec [(sample_clock 0, pending_or reinit_flags), (sample_clock 1, pending_or reinit_flags),
       (sample_clock 2, pending_or reinit_flags)] (sample_unpaced_read, sample_unpaced) = Inr (r', c') \<and>
     rd_pc r' = RReturn st \<and> (st = 0 \<or> st = 1 \<or> st = WEBA_ERR_STATE \<and> closed (h_queue sample_unpaced)))"
  using read_call_returns [OF sample_wf sample_call_ready(3,5-7) sample_guarantee, of sample_clock] sample_call_ready(1,2,8)
    read_call_returns [OF sample_unpaced_wf sample_unpaced_ready(2-5) sample_guarantee, of sample_clock] sample_unpaced_ready(1,6-8)
  by blast

text \<open>
  C6. Until a stop is requested every call delivers. In any reachable state at fixed rate, a call
  with an honest buffer returns 1, after six steps of the consumer, however many steps the capture
  thread takes before each of them and whatever it is answered, if the timeout leaves a frame period
  and 1.001 ms from the first look at the clock and the one sleep lasts as long as asked.
\<close>

theorem every_call_delivers:
  assumes "reachable sys_init sys_step s" "idle (s_read s)" "s_clock s \<le> now"
    and "\<not> h_stop_requested (s_h s)" "h_fixed_rate (s_h s)"
    and buffer: "honest_buffer (s_h s) d cap" "h_frame_samples (s_h s) \<le> cap"
    and entry: "read_frame_entry (Some (s_h s)) (Some d) cap info timeout now = Inr r"
    and six: "length rs = 6" "clock_runs now rs"
    and sleep: "sleep_honoured (s_h s) r (snd (rs ! 0)) (snd (rs ! 1)) (snd (rs ! 2))"
    and time: "ri_now (snd (rs ! 0)) + period_ns (s_h s) + 1001000 \<le> now + ms_to_ns timeout"
  shows "\<exists>t r'. sys_run (Call d cap info timeout now # rounds rs) s = Some t \<and> s_read t = Some r' \<and>
    rd_pc r' = RReturn 1"
  using system_call_delivers [OF assms] by blast

theorem every_call_delivers_witness:
  "\<exists>t r'. sys_run (Call [9, 9, 9] 1 None 1000 0 #
       rounds (map (\<lambda>k. (replicate 9 (sample_in 0 5), sample_clock k)) [0..<6])) (sys_of sample_handle) = Some t \<and>
     s_read t = Some r' \<and> rd_pc r' = RReturn 1"
proof -
  let ?rs = "map (\<lambda>k. (replicate 9 (sample_in 0 5), sample_clock k)) [0..<6]"
  have nth: "snd (?rs ! 0) = sample_clock 0" "snd (?rs ! 1) = sample_clock 1" "snd (?rs ! 2) = sample_clock 2"
    by (simp_all add: upt_rec numeral_2_eq_2)
  have "sys_init (sys_of sample_handle)" using sample_served by (simp add: served_def)
  then have reach: "reachable sys_init sys_step (sys_of sample_handle)" by (rule reach_init)
  have s: "s_h (sys_of sample_handle) = sample_handle" "idle (s_read (sys_of sample_handle))"
    "s_clock (sys_of sample_handle) \<le> 0" by (simp_all add: sys_of_def idle_def)
  have clocks: "clock_runs 0 ?rs" by (simp add: upt_rec sample_clock_def)
  have "period_ns sample_handle = 1000000" by code_simp
  then have time: "ri_now (snd (?rs ! 0)) + period_ns sample_handle + 1001000 \<le> 0 + ms_to_ns 1000"
    by (simp add: nth sample_clock_def ms_to_ns_def)
  have sleep: "sleep_honoured sample_handle sample_read (snd (?rs ! 0)) (snd (?rs ! 1)) (snd (?rs ! 2))"
    unfolding nth by (rule sample_call_ready(8))
  have six: "length ?rs = 6" by simp
  show ?thesis
    by (rule every_call_delivers [OF reach s(2,3), unfolded s(1), OF sample_call_ready(2,1,5-7) six clocks sleep time])
qed

text \<open>
  C7. A handle that was stopped before its start is deaf. The header calls the stop safe, a start after
  it succeeds on a healthy server, and the handle reports that it runs; but its queue stays closed, so
  whatever the capture thread, the consumer and the client do from there, no frame is ever queued and
  no call ever returns 1.
\<close>

theorem stopped_handle_is_deaf:
  assumes "startable c" "connects (se_connect e)" "serves sv (se_resolve e)"
    and "resolve_spec sv (h_requested_sink c) = Some t" "se_spawn e" "se_alloc e (frame_bytes c)"
  shows "\<exists>c1 c2. weba_capture_stop sts is waited (None, Some c) = Inr (Some (None, Some c1)) \<and>
    weba_capture_start e (Some c1) = Inr (WEBA_OK, Some c2, Some (loop_start c2)) \<and>
    weba_capture_is_running (Some c2) = 1 \<and>
    (\<forall>as s. execution life_step ((life_of c2)\<lparr>lf_thread := Some (loop_start c2)\<rparr>) as s \<longrightarrow>
      (\<forall>c3. lf_h s = Some c3 \<longrightarrow> frames (h_queue c3) = []) \<and>
      (\<forall>r. lf_read s = Some r \<longrightarrow> rd_pc r \<noteq> RReturn 1))"
proof -
  from stopped_new [OF assms(1), of sts "is" waited] obtain c1 where
    stop: "weba_capture_stop sts is waited (None, Some c) = Inr (Some (None, Some c1))" and
    c1: "\<not> h_running c1" "\<not> h_thread c1" "h_control c1 = control_new" "drained c1"
      "h_requested_sink c1 = h_requested_sink c" "frame_bytes c1 = frame_bytes c" by blast
  from start_serves(4) [OF c1(1-3) assms(2,3), of t] assms(4-6) c1(5,6) obtain c2 where
    start: "weba_capture_start e (Some c1) = Inr (WEBA_OK, Some c2, Some (loop_start c2))" and
    c2: "h_running c2" "h_queue c2 = h_queue c1" by auto
  have "deaf ((life_of c2)\<lparr>lf_thread := Some (loop_start c2)\<rparr>)"
    using c1(4) c2(2) by (simp add: deaf_def life_of_def drained_def)
  from deaf_execution [OF _ this] have "\<forall>as s. execution life_step ((life_of c2)\<lparr>lf_thread := Some (loop_start c2)\<rparr>) as s \<longrightarrow>
      (\<forall>c3. lf_h s = Some c3 \<longrightarrow> frames (h_queue c3) = []) \<and> (\<forall>r. lf_read s = Some r \<longrightarrow> rd_pc r \<noteq> RReturn 1)"
    by (force simp: deaf_def drained_def frames_Nil_iff delivers_def)
  with stop start c2(1) show ?thesis by (auto simp: weba_capture_is_running_def)
qed

theorem stopped_handle_is_deaf_witness:
  "\<exists>c1 c2. weba_capture_stop [] [] 0 (None, Some sample_created) = Inr (Some (None, Some c1)) \<and>
     weba_capture_start sample_start (Some c1) = Inr (WEBA_OK, Some c2, Some (loop_start c2)) \<and>
     weba_capture_is_running (Some c2) = 1"
proof -
  have con: "connects (se_connect sample_start)"
    by (simp add: connects_def sample_start_def sample_connect_def)
  have sv: "serves (sample_server ''hdmi'') (se_resolve sample_start)"
    using sample_serves by (simp add: sample_start_def)
  have "h_requested_sink sample_created = ''''" by code_simp
  then have t: "resolve_spec (sample_server ''hdmi'') (h_requested_sink sample_created) = Some (sample_target ''hdmi'')"
    by (simp add: resolve_spec_def sample_server_def sample_target_def)
  have ok: "se_spawn sample_start" "se_alloc sample_start (frame_bytes sample_created)" by (simp_all add: sample_start_def)
  from stopped_handle_is_deaf [OF sample_startable con sv t ok, of "[]" "[]" 0] show ?thesis by blast
qed

subsection \<open>The recorder\<close>

text \<open>
  C8. A recording is the capture. When the recorder has ended well, the data of its file is a list of
  frames of 7680 bytes; those not flagged as silence are, in order, exactly the frames that the queue
  handed out, hence a subsequence of the frames captured, and the others are zeros. No frame is
  torn, repeated, reordered or invented, whatever the two threads and the server did.
\<close>

theorem recording_is_capture:
  assumes "dump_main e path sink = Inr (Some x)" "dx_status x = 0" "malloc_ok e"
  shows "\<exists>s log f. reachable served sys_step s \<and> dx_file x = Some f \<and>
    drop 44 f = concat (map le_data log) \<and>
    map snd (filter (\<lambda>e. \<not> le_silent e) log) = s_got s \<and>
    (\<forall>e\<in>set log. length (le_data e) = 7680 \<and> (le_silent e \<longrightarrow> le_data e = replicate 7680 0)) \<and>
    (length (s_pushed s) < 2 ^ 64 \<longrightarrow> subseq (map snd (s_got s)) (s_pushed s))"
proof -
  obtain info s d log where r: "reachable served sys_step s" "log_of 7680 (s_got s) log"
    and f: "dx_file x = Some (wav_bytes info (36 + word_of_nat (length (concat (map le_data log))))
       (word_of_nat (length (concat (map le_data log)))) (concat (map le_data log)))"
    by (rule recorded_capture [OF assms])
  have "subseq (map snd (s_got s)) (s_pushed s)" if "length (s_pushed s) < 2 ^ 64"
  proof -
    have "explains (s_pushed s) (s_got s) (q_dropped (h_queue (s_h s))) (frames (h_queue (s_h s)))"
      using served_reach(3) [OF r(1)] that by (simp add: accounted_def size_mod_def)
    from explains_subseq [OF this] show ?thesis
      by (rule subseq_order.trans [rotated]) (simp add: prefix_imp_subseq)
  qed
  with r f show ?thesis
    by (intro exI [of _ s] exI [of _ log] exI) (auto simp: wav_tags_at log_of_def entry_ok_def list_all_iff)
qed

theorem recording_is_capture_witness:
  "\<exists>x f log. dump_main sample_dump ''out.wav'' None = Inr (Some x) \<and> dx_file x = Some f \<and>
     drop 44 f = concat (map le_data log) \<and> (\<forall>e\<in>set log. length (le_data e) = 7680)"
proof -
  obtain x where x: "dump_main sample_dump ''out.wav'' None = Inr (Some x)" "dx_status x = 0"
    by (rule sample_dump_session)
  from recording_is_capture [OF x sample_dump_malloc] x(1) show ?thesis by blast
qed

text \<open>
  C9. The recorder's summary is true. Its frame count, modulo 2^64, is the number of frames in the
  file, its silence count those of them that were synthesized; and while fewer than 2^32 frames have
  been captured, every captured frame is in the file, in the count of dropped frames, lost since the
  last delivery, or still queued.
\<close>

theorem recording_counts:
  assumes "dump_main e path sink = Inr (Some x)" "dx_status x = 0" "malloc_ok e"
  shows "\<exists>s f n (d :: dump_state). reachable served sys_step s \<and> dx_file x = Some f \<and> dx_tally x = Some d \<and>
    length f = 44 + n * 7680 \<and> du_frames d = word_of_nat n \<and> length (s_got s) \<le> n \<and>
    du_silent d = word_of_nat (n - length (s_got s)) \<and>
    (length (s_pushed s) < 2 ^ 32 \<longrightarrow>
       length (s_pushed s) = length (s_got s) + unat (du_dropped d) +
         q_dropped (h_queue (s_h s)) + length (frames (h_queue (s_h s))))"
proof -
  obtain info s d log where r: "reachable served sys_step s" "dx_tally x = Some d" "log_of 7680 (s_got s) log"
      "tallied info log d"
    and f: "dx_file x = Some (wav_bytes info (36 + word_of_nat (length (concat (map le_data log))))
       (word_of_nat (length (concat (map le_data log)))) (concat (map le_data log)))" (is "_ = Some ?f")
    by (rule recorded_capture [OF assms])
  have len: "length ?f = 44 + length log * 7680" by (simp only: length_wav_bytes log_length [OF r(3)])
  note silent = count_flag_silent [OF r(3)]
  have counts: "du_frames d = word_of_nat (length log)" "du_silent d = word_of_nat (length log - length (s_got s))"
    "du_dropped d = word_of_nat (lost_in log)"
    using r(4) silent by (simp_all add: tallied_def)
  have "length (s_pushed s) = length (s_got s) + unat (du_dropped d) +
      q_dropped (h_queue (s_h s)) + length (frames (h_queue (s_h s)))"
    if small: "length (s_pushed s) < 2 ^ 32"
  proof -
    have "explains (s_pushed s) (s_got s) (q_dropped (h_queue (s_h s))) (frames (h_queue (s_h s)))"
      using served_reach(3) [OF r(1)] small by (simp add: accounted_def size_mod_def)
    note total' = explains_length [OF this]
    have "\<forall>(n, f)\<in>set (s_got s). n < 2 ^ 32"
      using member_le_sum_list [of _ "map fst (s_got s)"] total' small by force
    from lost_in_got [OF r(3) this] have lost: "lost_in log = sum_list (map fst (s_got s))" .
    then have "unat (du_dropped d) = lost_in log" unfolding counts(3) using total' small by (intro unat_word64) simp
    with lost total' show ?thesis by simp
  qed
  moreover have "length (s_got s) \<le> length log" using silent by simp
  ultimately show ?thesis using r(1,2) f len counts(1,2) by blast
qed

theorem recording_counts_witness:
  "\<exists>x f n. dump_main sample_dump ''out.wav'' None = Inr (Some x) \<and> dx_file x = Some f \<and>
     length f = 44 + n * 7680 \<and> (1 :: 64 word) = word_of_nat n"
proof -
  obtain x d where x: "dump_main sample_dump ''out.wav'' None = Inr (Some x)" "dx_status x = 0"
    "dx_tally x = Some d" "du_frames d = 1" by (rule sample_dump_session)
  from recording_counts [OF x(1,2) sample_dump_malloc] x show ?thesis by auto
qed

text \<open>
  C10. The recorder makes progress: from its start on an unstopped capture at fixed rate, \<open>n\<close> turns in
  which the six steps of the call come in time and its sleep lasts as long as asked, with any steps
  of the capture thread between and any answers, record exactly \<open>n\<close> frames and no error, and the
  file has the header and \<open>n\<close> frames.
\<close>

theorem recorder_progresses:
  assumes "reachable served sys_step s" "idle (s_read s)" "\<not> h_stop_requested (s_h s)" "h_fixed_rate (s_h s)"
    and "describes info (mic_format_of (s_h s))" "length b = dump_frame_bytes info"
    and "turns_served info (dump_frame_bytes info) ts (dump_start (write_header info fopen_wb) b, s)"
    and "\<not> tn_before t"
  shows "\<exists>(d :: dump_state) s'.
    dump_loop info (dump_frame_bytes info) (ts @ [t]) (dump_start (write_header info fopen_wb) b, s) = Some (d, s') \<and>
    du_frames d = word_of_nat (length ts) \<and> du_errors d = [] \<and>
    length (wv_bytes (du_out d)) = 44 + length ts * dump_frame_bytes info"
proof -
  let ?d = "dump_start (write_header info fopen_wb) b"
  have "recording info (?d, s)" using assms(1-6) by (simp add: recording_def dump_start_def)
  from served_turns_record [OF this assms(7,8)] obtain d :: dump_state and s' fs where
    loop: "dump_loop info (dump_frame_bytes info) (ts @ [t]) (?d, s) = Some (d, s')"
    and fs: "length fs = length ts" "\<forall>f\<in>set fs. length f = dump_frame_bytes info"
    and d: "du_out d = fold fwrite fs (du_out ?d)" "du_frames d = du_frames ?d + word_of_nat (length ts)"
      "du_errors d = du_errors ?d" by blast
  have "du_out d = wav_at (wav_bytes info 0 0 (concat fs))"
    using d(1) by (simp add: dump_start_def write_header_bytes fwrite_all)
  then have "length (wv_bytes (du_out d)) = 44 + length (concat fs)" by (simp add: wav_at_def)
  also have "length (concat fs) = length ts * dump_frame_bytes info"
    using fs by (simp add: length_concat sum_list_triv cong: map_cong)
  finally show ?thesis using loop d(2,3) by (auto simp: dump_start_def)
qed

theorem recorder_progresses_witness:
  "\<exists>info s (d :: dump_state) s'. dump_loop info (dump_frame_bytes info) [sample_turn, sample_last_turn]
       (dump_start (write_header info fopen_wb) (replicate (dump_frame_bytes info) 0), s) = Some (d, s') \<and>
     du_frames d = 1 \<and> length (wv_bytes (du_out d)) = 44 + dump_frame_bytes info"
proof -
  obtain c1 where
    rec: "recording (h_format_info c1) (dump_start (write_header (h_format_info c1) fopen_wb)
       (replicate (dump_frame_bytes (h_format_info c1)) 0), dump_system sample_dump c1)"
    and served: "turn_served sample_turn (dump_system sample_dump c1)"
    by (rule sample_dump_started) (rule that; assumption)
  let ?s = "dump_system sample_dump c1"
  have r: "reachable served sys_step ?s" "idle (s_read ?s)" "\<not> h_stop_requested (s_h ?s)" "h_fixed_rate (s_h ?s)"
    "describes (h_format_info c1) (mic_format_of (s_h ?s))"
    using rec by (simp_all add: recording_def)
  have "\<not> tn_before sample_last_turn" by (simp add: sample_last_turn_def)
  from recorder_progresses [OF r length_replicate sample_turns_served [OF served] this, of 0]
  show ?thesis by (intro exI [of _ "h_format_info c1"] exI [of _ ?s]) (auto simp del: dump_loop.simps)
qed

text \<open>
  C11. The file reads back. For every format and every sequence of frames written after the header,
  the finished file is a WAV file with the format's code, channels, rate and bits per sample, whose
  RIFF size is the file's length less 8, modulo 2^32, and whose data is the frames; beyond 2^32 bytes
  the size field wraps, and a reader finds only what is left modulo 2^32.
\<close>

theorem wav_round_trip:
  fixes info :: weba_format_info
  defines "h \<equiv> write_header info fopen_wb"
  shows "\<exists>w :: wav. parse_wav (wv_bytes (patch_sizes (ftell h) (fold fwrite ds h))) = Some w \<and>
    wav_code w = wav_format_code (fi_format info) \<and> wav_channels w = ucast (fi_channels info) \<and>
    wav_rate w = fi_sample_rate info \<and> wav_bits w = word_of_nat (8 * sample_bytes (fi_format info)) \<and>
    wav_riff w = word_of_nat (length (wv_bytes (fold fwrite ds h)) - 8) \<and>
    wav_data w = take (length (concat ds) mod 2 ^ 32) (concat ds)"
proof -
  have h: "h = wav_at (wav_bytes info 0 0 [])" by (simp add: h_def write_header_bytes)
  have body: "fold fwrite ds h = wav_at (wav_bytes info 0 0 (concat ds))" by (simp add: h fwrite_all)
  have "ftell h = 44" by (simp add: h ftell_def wav_at_def)
  moreover have "unat (word_of_nat (length (concat ds)) :: u32) = length (concat ds) mod 2 ^ 32"
    by (simp add: unsigned_of_nat take_bit_eq_mod)
  moreover have "length (concat ds) mod 2 ^ 32 \<le> length (concat ds)" by simp
  moreover have "length (wv_bytes (fold fwrite ds h)) = 44 + length (concat ds)" unfolding body
    by (simp only: wav_at_def wav_file.simps length_wav_bytes)
  ultimately show ?thesis unfolding body
    by (simp add: patch_sizes_bytes parse_wav_bytes mult.commute)
qed

text \<open>
  C12. The recorder and the library agree on the size of a frame: from the format that a running
  handle reports, the recorder computes the library's frame size, which is that of the recording
  stream, without wrap-around, so a buffer of this size is large enough for every read.
\<close>

theorem recorder_frame_size:
  assumes "reachable served sys_step s"
  shows "dump_frame_bytes (h_format_info (s_h s)) = frame_bytes (s_h s) \<and>
    mic_frame_bytes (mic_format_of (s_h s)) = frame_bytes (s_h s) \<and>
    unat (fi_frame_samples (h_format_info (s_h s))) * unat (fi_channels (h_format_info (s_h s))) *
      sample_bytes (fi_format (h_format_info (s_h s))) = frame_bytes (s_h s) \<and>
    honest_buffer (s_h s) (replicate (dump_frame_bytes (h_format_info (s_h s))) b)
      (fi_frame_samples (h_format_info (s_h s)))"
proof -
  have wf: "handle_wf (s_h s)" using served_reach(2) [OF assms] by (simp add: sys_safe_def)
  then have valid: "mic_format_valid (mic_format_of (s_h s))" by (simp add: handle_wf_def format_wf_def)
  then have sup: "channels_supported (h_channels (s_h s))" by (simp add: mic_format_valid_def mic_format_of_def)
  note info = published_describes [OF served_reach(5) [OF assms]]
  have "sample_bytes (h_format (s_h s)) = bytes_per_sample_of (h_format (s_h s))"
    using valid by (auto simp: sample_bytes_def bytes_per_sample_of_def mic_format_valid_def mic_format_of_def
        split: weba_sample_format.splits)
  with dump_buffer_honest [OF wf info] dump_frame_bytes_eq [OF info valid] frame_bytes_eq [OF sup] info
  show ?thesis by (simp add: frame_bytes_mic describes_def) (simp add: mic_format_of_def)
qed

theorem recorder_frame_size_witness:
  "dump_frame_bytes (h_format_info sample_handle) = 2 \<and> honest_buffer sample_handle [7, 7] 1"
proof -
  have s: "reachable served sys_step (sys_of sample_handle)" by (rule reach_init [of served, OF sample_served])
  have h: "s_h (sys_of sample_handle) = sample_handle" by (simp add: sys_of_def)
  note size' = recorder_frame_size [OF s, of 7, unfolded h sample_frame_bytes]
  then have "dump_frame_bytes (h_format_info sample_handle) = 2" by simp
  moreover have "fi_frame_samples (h_format_info sample_handle) = 1" by code_simp
  moreover have "replicate 2 7 = [7, 7 :: byte]" by (simp add: numeral_2_eq_2)
  ultimately show ?thesis using size' by (metis (no_types))
qed

text \<open>
  C13. Every outcome of the recorder. An exception ends it only when a thread cannot be created, or the
  new capture thread cannot allocate its buffer of 7680 bytes; then nothing is cleaned up. When it
  exits, it exits with 0 and a file, or with 1, one message and no file, and the handle is freed unless
  its capture thread has been abandoned. And in a session that is served, with turns of the loop until
  one is past the deadline and ten steps of the capture thread during the destruction, it does exit,
  the handle is freed, and a file has the header and a frame for each turn before the last.
\<close>

theorem recorder_exits:
  "case dump_main e path sink of
      Inl f \<Rightarrow>
        f = SystemError \<and> (\<not> ce_spawn (se_connect (de_start e)) \<or> \<not> se_spawn (de_start e)) \<or>
        f = Terminate \<and> \<not> se_alloc (de_start e) 7680
    | Inr None \<Rightarrow> \<not> session_served e
    | Inr (Some x) \<Rightarrow>
        (dx_status x = 0 \<and> dx_file x \<noteq> None \<or> dx_status x = 1 \<and> dx_file x = None \<and> length (dx_err x) = 1) \<and>
        (\<forall>c. snd (dx_lib x) = Some c \<longrightarrow> h_thread_abandoned c) \<and>
        (session_served e \<longrightarrow> dx_lib x = (None, None) \<and>
          (\<forall>f. dx_file x = Some f \<longrightarrow> length f = 44 + (length (de_turns e) - 1) * 7680))"
proof (cases "dump_main e path sink")
  case (Inl f)
  with dump_main_fault show ?thesis by simp
next
  case (Inr r)
  show ?thesis
  proof (cases r)
    case None
    with session_ends [OF _ Inr] Inr show ?thesis by auto
  next
    case (Some x)
    with dump_main_exit [of e path sink x] session_ends [OF _ Inr] Inr show ?thesis by auto
  qed
qed

theorem recorder_exits_witness:
  "\<exists>x f. dump_main sample_dump ''out.wav'' None = Inr (Some x) \<and> dx_lib x = (None, None) \<and>
     dx_file x = Some f \<and> length f = 44 + 7680"
proof -
  obtain x where x: "dump_main sample_dump ''out.wav'' None = Inr (Some x)" "dx_status x = 0"
    by (rule sample_dump_session)
  have "length (de_turns sample_dump) - 1 = 1" by (simp add: sample_dump_def)
  with recorder_exits [of sample_dump "''out.wav''" None] x sample_session_served show ?thesis by auto
qed

subsection \<open>The self test\<close>

text \<open>
  C14. The self test comes to its end on a server that answers, with fifty reads that are served: all
  its checks but two pass, all frames are delivered, the run takes at least one second, and the
  handle is freed. It returns 0 exactly when the run took less than 1.15 seconds and no frame was
  flagged as a discontinuity, and none is if every stream opens and reads and at most a queue's
  length of frames is captured.
\<close>

theorem selftest_verdict:
  assumes "test_surroundings sv t e" "test_timely e"
  shows "\<exists>x k. selftest_main e = Inr (Some x) \<and> tx_tally x = Some k \<and> rt_index k = 50 \<and> tx_lib x = (None, None) \<and>
    1000000000 \<le> te_ended e - te_started e \<and>
    ts_failures (tx_state x) =
      (if te_ended e - te_started e < 1150000000 then 0 else 1) + (if rt_gaps k = 0 then 0 else 1) \<and>
    (tx_status x = 0 \<longleftrightarrow> te_ended e - te_started e < 1150000000 \<and> rt_gaps k = 0) \<and>
    (test_healthy sv e \<longrightarrow> rt_gaps k = 0)"
  using selftest_run [OF assms] healthy_no_gaps [OF assms(1)]
  by (fastforce simp: test_verdict_def split: if_splits)

theorem selftest_verdict_witness:
  "\<exists>x. selftest_main sample_test = Inr (Some x) \<and> ts_failures (tx_state x) = 0 \<and> tx_status x = 0"
proof -
  have "te_ended sample_test - te_started sample_test = 1100000000" by (simp add: sample_test_def)
  with selftest_verdict [OF sample_test_surroundings sample_test_timely] sample_test_healthy show ?thesis by auto
qed

subsection \<open>The capture thread\<close>

text \<open>
  C15. Nothing faults while capturing: in every reachable state the next step of either thread, and
  any call, is free of out-of-bounds copies and divisions by zero, whatever the server, the stream
  and the clock answer.
\<close>

theorem capture_never_faults:
  assumes "reachable sys_init sys_step s"
  shows "(\<exists>x. loop_step i (s_loop s, s_h s) = Inr x) \<and>
    (\<exists>x. read_frame_entry (Some (s_h s)) (Some d) cap info timeout now = Inr x) \<and>
    (\<nexists>r f. s_read s = Some r \<and> read_step j (r, s_h s) = Inl f)"
proof -
  have safe: "sys_safe s" by (rule safe.invariant [OF assms])
  then have wf: "handle_wf (s_h s)" and inv: "loop_inv (s_loop s) (s_h s)" by (simp_all add: sys_safe_def)
  have "read_step j (r, s_h s) \<noteq> Inl f" if r: "s_read s = Some r" for r f
  proof (cases "\<exists>st. rd_pc r = RReturn st")
    case True
    then show ?thesis by (auto simp: read_step_def)
  next
    case False
    with sys_consume_inv [OF safe r] have "read_inv r (s_h s)" by blast
    from read_step_inv [OF this, of j] show ?thesis by auto
  qed
  with loop_step_inv [OF inv, of i] read_entry_cases [OF wf, of d cap info timeout now]
  show ?thesis by auto
qed

theorem capture_never_faults_witness:
  "\<exists>s. reachable sys_init sys_step s \<and> s_pushed s = [[1, 1], [2, 2], [3, 3]] \<and>
     (\<exists>x. loop_step sample_bad (s_loop s, s_h s) = Inr x)"
proof -
  obtain s r where s: "reachable sys_init sys_step s" "s_pushed s = [[1, 1], [2, 2], [3, 3]]"
    by (rule sample_last_state) (rule that; assumption)
  from capture_never_faults [OF s(1), of sample_bad] s show ?thesis by blast
qed

text \<open>
  C16. A healthy server is enough to capture: a thread without a stream resolves, opens, reads and
  pushes a frame within seven steps (eight for a reopening, which also leaves the reopen and
  discontinuity flags pending), publishing the resolved sink.
\<close>

theorem loop_captures_frame:
  assumes "loop_inv l c" "lp_pc l = LTop" "lp_mic l = None" "\<not> h_stop_requested c"
    and "healthy i c t data"
  shows "\<exists>l' c'. loop_run (replicate (if lp_had_stream l then 8 else 7) i) (l, c) = Inr (l', c') \<and>
    lp_pc l' = LFollow \<and> lp_mic l' \<noteq> None \<and>
    h_queue c' = q_push (map data [0..<frame_bytes c]) (h_queue c) \<and>
    h_pending_flags c' = (if lp_had_stream l then h_pending_flags c OR reinit_flags else h_pending_flags c) \<and>
    h_format_info c' = h_format_info (publish_format t c)"
  using open_run [OF assms] by (auto simp: serviced_def captured_def)

theorem loop_captures_frame_witness:
  "\<exists>l' c'. loop_run (replicate 7 (sample_in 0 5)) (loop_start sample_handle, sample_handle) = Inr (l', c') \<and>
     h_queue c' = q_push (map (\<lambda>_. 5) [0..<frame_bytes sample_handle]) (h_queue sample_handle)"
  using loop_captures_frame [OF loop_inv_start [OF sample_wf] _ _ _
      sample_healthy [OF sample_handle_sel(1) sample_control, of 0 5]]
  by (auto simp: loop_start_def)

text \<open>
  C17. A failed read is survived and reported: the error text is kept, the reopen and discontinuity
  flags are pending, and after the wait a healthy server yields frames again within eight steps. The
  report is made twice: if the consumer takes the flags in between, the reopening leaves them pending
  again, although the comment in \<open>capture_loop()\<close> says that a single reopen is not reported twice.
\<close>

theorem loop_recovers:
  assumes "loop_inv l c" "lp_pc l = LRead" "lp_mic l = Some (Some n)" "\<not> h_stop_requested c"
    and "li_read i0 = Inl st" "1000 * kReinitDelay \<le> li_waited w" "healthy i c t data"
  shows "\<exists>l1 c1 l2 c2. loop_run [i0, i0, w] (l, c) = Inr (l1, c1) \<and>
    h_error c1 = ''pa_simple_read() failed: '' @ li_strerror i0 st \<and>
    has_flag (h_pending_flags c1) WEBA_FRAME_REINIT \<and> has_flag (h_pending_flags c1) WEBA_FRAME_DISCONTINUITY \<and>
    loop_run (replicate 8 i) (l1, if taken then c1\<lparr>h_pending_flags := 0\<rparr> else c1) = Inr (l2, c2) \<and>
    lp_pc l2 = LFollow \<and> h_queue c2 = q_push (map data [0..<frame_bytes c]) (h_queue c) \<and>
    has_flag (h_pending_flags c2) WEBA_FRAME_REINIT \<and> has_flag (h_pending_flags c2) WEBA_FRAME_DISCONTINUITY"
proof -
  let ?c1 = "read_failed (read_message i0 st) c"
  let ?f = "if taken then 0 else h_pending_flags ?c1"
  have c1: "?c1\<lparr>h_pending_flags := ?f\<rparr> = (if taken then ?c1\<lparr>h_pending_flags := 0\<rparr> else ?c1)" by simp
  from recover_run [OF assms, of ?f] obtain l1 l2 c2 where
    run: "loop_run [i0, i0, w] (l, c) = Inr (l1, ?c1)"
      "loop_run (replicate 8 i) (l1, ?c1\<lparr>h_pending_flags := ?f\<rparr>) = Inr (l2, c2)"
    and s: "serviced i t data True (?c1\<lparr>h_pending_flags := ?f\<rparr>) l2 c2"
    by blast
  note run = run(1) run(2) [unfolded c1]
  from s have "lp_pc l2 = LFollow" "h_queue c2 = q_push (map data [0..<frame_bytes c]) (h_queue c)"
    "h_pending_flags c2 = ?f OR reinit_flags"
    by (simp_all add: serviced_def captured_def)
  moreover have "has_flag (?f OR reinit_flags) WEBA_FRAME_REINIT" "has_flag (?f OR reinit_flags) WEBA_FRAME_DISCONTINUITY"
    by (simp_all add: reinit_flags_def)
  ultimately show ?thesis using run
    by (intro exI [of _ l1] exI [of _ ?c1] exI [of _ l2] exI [of _ c2])
      (simp add: read_message_def reinit_flags_def)
qed

theorem loop_recovers_witness:
  "\<exists>l1 c1 l2 c2. loop_run [sample_bad, sample_bad, sample_bad] (sample_loop LRead, sample_handle) = Inr (l1, c1) \<and>
     h_error c1 = ''pa_simple_read() failed: Failure'' \<and>
     loop_run (replicate 8 (sample_in 0 5)) (l1, c1\<lparr>h_pending_flags := 0\<rparr>) = Inr (l2, c2) \<and>
     h_queue c2 = q_push (map (\<lambda>_. 5) [0..<frame_bytes sample_handle]) (h_queue sample_handle) \<and>
     has_flag (h_pending_flags c2) WEBA_FRAME_REINIT"
proof -
  have inv: "loop_inv (sample_loop LRead) sample_handle"
    by (rule sample_loop_inv) (simp_all add: pc_target_def sample_wf sample_frame_bytes)
  have bad: "li_read sample_bad = Inl 3" "1000 * kReinitDelay \<le> li_waited sample_bad"
    "li_strerror sample_bad 3 = ''Failure''"
    by (simp_all add: sample_bad_def sample_in_def kReinitDelay_def)
  show ?thesis
    using loop_recovers [OF inv _ _ _ bad(1,2) sample_healthy [OF sample_handle_sel(1) sample_control, of 0 5],
        where taken = True]
    by (auto simp: sample_loop_def bad(3))
qed

text \<open>
  C18. An unpinned capture follows the default sink: once a poll is due and the server's default has
  another monitor, nine steps later a frame of the new sink has been captured, with the reopen and
  discontinuity flags pending.
\<close>

theorem loop_follows_default:
  assumes "loop_inv l c" "lp_pc l = LFollow" "\<not> h_stop_requested c"
    and "h_requested_sink c = []" "0 < h_sink_recheck_ms c" "h_next_sink_check c \<le> li_now i"
    and "healthy i c t data" "tg_monitor t \<noteq> h_current_monitor c"
  shows "\<exists>l' c'. loop_run (replicate 9 i) (l, c) = Inr (l', c') \<and> lp_pc l' = LFollow \<and>
    h_current_monitor c' = tg_monitor t \<and>
    h_queue c' = q_push (map data [0..<frame_bytes c]) (h_queue c) \<and>
    h_pending_flags c' = h_pending_flags c OR reinit_flags"
  using follow_run [OF assms(1-3) _ assms(7,8)] assms(4-6) by (simp add: polling_def captured_def)

theorem loop_follows_default_witness:
  "\<exists>l' c'. loop_run (replicate 9 (sample_in 0 5))
       (sample_loop LFollow, sample_handle\<lparr>h_current_monitor := ''usb.monitor''\<rparr>) = Inr (l', c') \<and>
     h_current_monitor c' = ''hdmi.monitor''"
proof -
  let ?c = "sample_handle\<lparr>h_current_monitor := ''usb.monitor''\<rparr>"
  have inv: "loop_inv (sample_loop LFollow) ?c"
    by (rule sample_loop_inv) (simp_all add: pc_target_def sample_wf sample_frame_bytes)
  have due: "0 < h_sink_recheck_ms ?c" "h_next_sink_check ?c \<le> li_now (sample_in 0 5)" by code_simp+
  have h: "healthy (sample_in 0 5) ?c (sample_target ''hdmi'') (\<lambda>_. 5)"
    by (rule sample_healthy) (simp_all add: sample_control)
  show ?thesis
    using loop_follows_default [OF inv _ _ _ due h] by (auto simp: sample_loop_def sample_target_def)
qed

text \<open>
  C19. What a handle reports while capturing: its own format, with names of at most 255 characters,
  and with a pinned sink always that sink, whatever moves; and until a stop is requested that it is
  running, with the queue open and the capture thread in its loop, whatever the server, the stream,
  the queries and the clock have answered.
\<close>

theorem reported_format:
  assumes "reachable served sys_step s"
  shows "(\<exists>fi. weba_capture_get_format (Some (s_h s)) True = (WEBA_OK, Some fi) \<and>
      fi_sample_rate fi = h_sample_rate (s_h s) \<and> fi_channels fi = h_channels (s_h s) \<and>
      fi_frame_samples fi = h_frame_samples (s_h s) \<and> fi_format fi = h_format (s_h s) \<and>
      length (fi_sink_name fi) \<le> 255 \<and> length (fi_monitor_name fi) \<le> 255 \<and>
      (h_requested_sink (s_h s) = [] \<or> fi_sink_name fi = fixed_name (h_requested_sink (s_h s)))) \<and>
    (h_stop_requested (s_h s) \<or>
      weba_capture_is_running (Some (s_h s)) = 1 \<and> \<not> closed (h_queue (s_h s)) \<and>
      lp_pc (s_loop s) \<noteq> LExit \<and> lp_pc (s_loop s) \<noteq> LDone)"
  using pub.both.invariant [OF assms] aw.both.invariant [OF served_reach(1) [OF assms]]
  by (auto simp: weba_capture_get_format_def weba_capture_is_running_def published_sys_def published_def
      awake_def exiting_def)

theorem reported_format_witness:
  "\<exists>s fi. sys_run (map Capture (replicate 50 sample_bad)) (sys_of sample_handle) = Some s \<and>
     weba_capture_get_format (Some (s_h s)) True = (WEBA_OK, Some fi) \<and> fi_sample_rate fi = h_sample_rate (s_h s) \<and>
     weba_capture_is_running (Some (s_h s)) = 1"
proof -
  have init: "sys_init (sys_of sample_handle)" using sample_served by (simp add: served_def)
  obtain s where s: "sys_run (map Capture (replicate 50 sample_bad)) (sys_of sample_handle) = Some s"
    "loop_frame (s_h (sys_of sample_handle)) (s_h s)"
    by (rule captures_run [OF sys_safe_init [OF init]])
  have "reachable served sys_step s" by (rule sys_run_reachable [where init = served, OF s(1) sample_served])
  moreover have "\<not> h_stop_requested (s_h s)" using s(2) by (simp add: loop_frame_def sys_of_def)
  ultimately show ?thesis using reported_format s(1) by blast
qed

subsection \<open>The life of a handle\<close>

text \<open>
  C20. A stop ends the capture from wherever it is: after any run of a started handle's thread, a
  stop during which the thread gets ten steps joins it, shuts the connection down and leaves the
  handle at rest, with the queue closed; a further stop changes nothing.
\<close>

theorem stop_joins_and_rests:
  assumes "startable c" "weba_capture_start e (Some c) = Inr (WEBA_OK, Some c1, Some l1)"
    and "loop_run before (l1, c1) = Inr (l2, c2)" "10 \<le> length during"
  shows "\<exists>c3. weba_capture_stop sts during waited (Some l2, Some c2) = Inr (Some (None, Some c3)) \<and>
    at_rest c3 \<and> weba_capture_is_running (Some c3) = 0 \<and>
    weba_capture_stop sts' during' waited' (None, Some c3) = Inr (Some (None, Some c3))"
proof -
  note run = started_run [OF assms(1-3)]
  from stop_joins [OF run(1-4) assms(4), of sts waited] obtain c3 where
    "weba_capture_stop sts during waited (Some l2, Some c2) = Inr (Some (None, Some c3))" "at_rest c3" by blast
  with stop_at_rest [OF this(2)] show ?thesis
    by (auto simp: weba_capture_is_running_def at_rest_def)
qed

theorem stop_joins_and_rests_witness:
  "\<exists>c3. weba_capture_stop [CtxTerminated] (replicate 10 sample_bad) 0 (Some (loop_start sample_handle), Some sample_handle) = Inr (Some (None, Some c3)) \<and> at_rest c3"
  using stop_joins_and_rests [OF sample_startable sample_started loop_run.simps(1),
      where during = "replicate 10 sample_bad" and sts = "[CtxTerminated]" and waited = 0
        and sts' = "[]" and during' = "[]" and waited' = 0]
  by auto

text \<open>
  C21. Destroying frees the handle exactly when its thread was joined: always when the thread gets
  ten steps; but when the thread makes none until the join timeout, the handle is leaked and the
  thread goes on, and no later destroy frees it, even after the thread has ended.
\<close>

theorem destroy_frees_or_leaks:
  assumes "startable c" "weba_capture_start e (Some c) = Inr (WEBA_OK, Some c1, Some l1)"
    and "loop_run before (l1, c1) = Inr (l2, c2)" "10 \<le> length during"
  shows "weba_capture_destroy sts during waited (Some l2, Some c2) = Inr (Some (None, None)) \<and>
    (h_running c2 \<and> kJoinTimeout \<le> waited' \<longrightarrow>
      (\<exists>c3 l4 c4 c5. weba_capture_destroy sts [] waited' (Some l2, Some c2) = Inr (Some (Some l2, Some c3)) \<and>
        loop_run during (l2, c3) = Inr (l4, c4) \<and> lp_pc l4 = LDone \<and>
        weba_capture_destroy sts' during' waited'' (Some l4, Some c4) = Inr (Some (Some l4, Some c5))))"
proof (intro conjI impI)
  note run = started_run [OF assms(1-3)]
  from stop_joins [OF run(1-4) assms(4), of sts waited] obtain c3 where
    "weba_capture_stop sts during waited (Some l2, Some c2) = Inr (Some (None, Some c3))" "at_rest c3" by blast
  then show "weba_capture_destroy sts during waited (Some l2, Some c2) = Inr (Some (None, None))"
    by (simp add: weba_capture_destroy_eq at_rest_def)
  assume late: "h_running c2 \<and> kJoinTimeout \<le> waited'"
  let ?c3 = "(stop_begin c2)\<lparr>h_thread := False, h_thread_abandoned := True\<rparr>"
  have stop: "weba_capture_stop sts [] waited' (Some l2, Some c2) = Inr (Some (Some l2, Some ?c3))"
    using late run(3) by (intro stop_abandons) (simp_all add: thread_runs_def)
  have "loop_inv l2 ?c3"
    using stop_begin_loop_inv [OF run(1)] by (simp add: loop_inv_def)
  moreover have "gone_clear l2 ?c3" using run(2) by (simp add: gone_clear_def)
  moreover have "exit_distance (lp_pc l2) \<le> length during"
    using exit_distance_le [of "lp_pc l2"] assms(4) by simp
  ultimately obtain l4 c4 where end_run: "loop_run during (l2, ?c3) = Inr (l4, c4)" "lp_pc l4 = LDone"
    "loop_frame ?c3 c4"
    using exit_run [of l2 ?c3 during] by auto
  then have "\<not> h_thread c4" "h_thread_abandoned c4" by (simp_all add: loop_frame_def)
  then have "weba_capture_destroy sts' during' waited'' (Some l4, Some c4) =
      Inr (Some (Some l4, Some (stop_begin c4)))"
    by (simp add: weba_capture_destroy_eq weba_capture_stop_def stop_finish_def Let_def)
  with stop end_run show "\<exists>c3 l4 c4 c5. weba_capture_destroy sts [] waited' (Some l2, Some c2) = Inr (Some (Some l2, Some c3)) \<and>
        loop_run during (l2, c3) = Inr (l4, c4) \<and> lp_pc l4 = LDone \<and>
        weba_capture_destroy sts' during' waited'' (Some l4, Some c4) = Inr (Some (Some l4, Some c5))"
    by (auto simp: weba_capture_destroy_eq)
qed

theorem destroy_frees_or_leaks_witness:
  "weba_capture_destroy [CtxTerminated] (replicate 10 sample_bad) 0 (Some (loop_start sample_handle), Some sample_handle) = Inr (Some (None, None)) \<and>
   (\<exists>c3. weba_capture_destroy [CtxTerminated] [] 3000 (Some (loop_start sample_handle), Some sample_handle) =
     Inr (Some (Some (loop_start sample_handle), Some c3)))"
  using destroy_frees_or_leaks [OF sample_startable sample_started loop_run.simps(1),
      where during = "replicate 10 sample_bad" and sts = "[CtxTerminated]" and waited = 0 and waited' = 3000
        and sts' = "[]" and during' = "[]" and waited'' = 0]
  by (auto simp: kJoinTimeout_def)

text \<open>
  C22. Nothing leaks and nothing is freed twice: after a successful first start and any run of the
  capture thread, whatever streams have failed, moved or been reopened, exactly the main loop, the
  context and at most the one current stream are live, and a read is on a live stream; and when a
  stop has joined the thread every resource has been released, each once.
\<close>

theorem resources_released:
  assumes "startable c" "weba_capture_start e (Some c) = Inr (WEBA_OK, Some c1, Some l1)"
    and "loop_run before (l1, c1) = Inr (l2, c2)" "10 \<le> length during"
  shows "live (start_uses e c @ loop_trace before (l1, c1)) {#} =
      Some (mic_held (lp_mic l2) + {#Mainloop, Context#}) \<and>
    (lp_pc l2 = LRead \<longrightarrow> (\<exists>n. lp_mic l2 = Some (Some n) \<and> mic_held (lp_mic l2) = {#Stream n#})) \<and>
    live (start_uses e c @ loop_trace before (l1, c1) @ stop_uses during l2 c2) {#} = Some {#}"
proof -
  note run = started_run [OF assms(1-3)] and fresh = startable_fresh [OF assms(1)]
  have l1: "l1 = loop_start c1" using start_started(3) [OF assms(1,2)] by simp
  have ctl: "ct_ctx (h_control c1)" "ct_mainloop (h_control c1)"
    using start_holds [OF assms(2)] fresh by simp_all
  then have held: "control_held (h_control c1) = {#Mainloop, Context#}" by (simp add: control_held_def)
  have same: "control_held (h_control c2) = {#Mainloop, Context#}"
    using control_held_same [OF loop_run_control [OF assms(3)]] held by simp
  have started: "live (start_uses e c) {#} = Some {#Mainloop, Context#}"
    using start_live [OF assms(2), of "{#}"] fresh held by simp
  have "live (loop_trace before (l1, c1)) {#Mainloop, Context#} = Some (mic_held (lp_mic l2) + {#Mainloop, Context#})"
    using loop_trace_live [OF assms(3), of "{#Mainloop, Context#}"] by (simp add: l1 loop_start_def)
  with started have before: "live (start_uses e c @ loop_trace before (l1, c1)) {#} =
      Some (mic_held (lp_mic l2) + {#Mainloop, Context#})" by (simp add: live_append)
  have "lp_mic l2 \<noteq> Some None" by (rule mic_real_run [OF assms(3)]) (simp add: l1 loop_start_def)
  then have read: "lp_pc l2 = LRead \<longrightarrow> (\<exists>n. lp_mic l2 = Some (Some n) \<and> mic_held (lp_mic l2) = {#Stream n#})"
    using run(1) by (cases "lp_mic l2") (auto simp: loop_inv_def mic_states_def)
  have "exit_distance (lp_pc l2) \<le> length during" using exit_distance_le [of "lp_pc l2"] assms(4) by simp
  moreover have "gone_clear l2 (stop_begin c2)" using run(2) by (simp add: gone_clear_def)
  ultimately obtain l3 c3 where "loop_run during (l2, stop_begin c2) = Inr (l3, c3)" "lp_pc l3 = LDone"
      "\<not> h_running c3" "lp_mic l3 = None"
    using exit_run [OF stop_begin_loop_inv [OF run(1)], of during] by auto
  from stop_live [OF this] have "live (stop_uses during l2 c2) (mic_held (lp_mic l2) + {#Mainloop, Context#}) = Some {#}"
    by (simp only: same)
  then have "live ((start_uses e c @ loop_trace before (l1, c1)) @ stop_uses during l2 c2) {#} = Some {#}"
    unfolding live_append [of "start_uses e c @ loop_trace before (l1, c1)"] before by simp
  with before read show ?thesis by simp
qed

theorem resources_released_witness:
  "live (start_uses sample_start sample_created @ stop_uses (replicate 10 sample_bad) (loop_start sample_handle) sample_handle) {#}
     = Some {#}"
  using resources_released [OF sample_startable sample_started loop_run.simps(1),
      where during = "replicate 10 sample_bad"]
  by simp

text \<open>
  C23. A handle cannot be restarted: after a capture has run and been stopped, with the server
  acknowledging the disconnection, every further start fails with PULSE, however healthy the server,
  because the connection flags are never reset; or with an exception, if no thread can be created.
\<close>

theorem restart_impossible:
  assumes "startable c" "weba_capture_start e (Some c) = Inr (WEBA_OK, Some c1, Some l1)"
    and "loop_run before (l1, c1) = Inr (l2, c2)" "10 \<le> length during" "CtxTerminated \<in> set sts"
  shows "\<exists>c3. weba_capture_stop sts during waited (Some l2, Some c2) = Inr (Some (None, Some c3)) \<and>
    (\<forall>e'. (\<exists>c4 lo. weba_capture_start e' (Some c3) = Inr (WEBA_ERR_PULSE, c4, lo)) \<or>
      weba_capture_start e' (Some c3) = Inl SystemError \<and> \<not> ce_spawn (se_connect e'))"
proof -
  note run = started_run [OF assms(1-3)]
  from stop_joins_control [OF run(1-4) assms(4) run(5) assms(5), of waited] at_rest_start
  show ?thesis by blast
qed

theorem restart_impossible_witness:
  "\<exists>c3 c4 lo. weba_capture_stop [CtxTerminated] (replicate 10 sample_bad) 0 (Some (loop_start sample_handle), Some sample_handle) = Inr (Some (None, Some c3)) \<and>
     weba_capture_start sample_start (Some c3) = Inr (WEBA_ERR_PULSE, c4, lo)"
proof -
  have "ce_spawn (se_connect sample_start)" by (simp add: sample_start_def sample_connect_def)
  then show ?thesis
    using restart_impossible [OF sample_startable sample_started loop_run.simps(1),
        where during = "replicate 10 sample_bad" and sts = "[CtxTerminated]" and waited = 0]
    by (auto dest: spec [of _ sample_start])
qed

text \<open>
  C24. A start whose connection failed is not undone. If the loop thread was made, the handle keeps it
  joinable, and the next start that gets as far assigns to it, which ends the process; if only the main
  loop, and perhaps the context, were made, the next start overwrites the pointers, and whatever comes
  of it, they stay live beyond all that the handle holds.
\<close>

theorem failed_start_not_undone:
  assumes "startable c" "ce_mainloop (se_connect e)"
    and "control_init (se_connect e) (h_control c) = Inr (ct, st)" "st \<noteq> WEBA_OK"
    and "ce_mainloop (se_connect e')"
  shows "\<exists>c1. weba_capture_start e (Some c) = Inr (WEBA_ERR_PULSE, Some c1, None) \<and>
    (ct_thread ct \<and> ce_context (se_connect e') \<and> 0 \<le> ce_connect_rc (se_connect e') \<and> ce_spawn (se_connect e') \<longrightarrow>
      weba_capture_start e' (Some c1) = Inl Terminate) \<and>
    (\<forall>st2 c2 lo2. \<not> ct_thread ct \<longrightarrow> weba_capture_start e' (Some c1) = Inr (st2, Some c2, lo2) \<longrightarrow>
      live (start_uses e c @ start_uses e' c1) {#} = Some (control_held (h_control c2) + control_held ct))"
proof -
  note new = startable_new [OF assms(1)]
  let ?c1 = "set_error (control_error ct) (c\<lparr>h_control := ct\<rparr>)"
  have st: "st = WEBA_ERR_PULSE" using control_init_status [OF assms(3)] assms(4) by simp
  have start: "weba_capture_start e (Some c) = Inr (WEBA_ERR_PULSE, Some ?c1, None)"
    using new(1) assms(3,4) by (simp add: weba_capture_start_def st Let_def)
  have c1: "\<not> h_running ?c1" "h_control ?c1 = ct" using new(1) by (simp_all add: set_error_def)
  have dead: "weba_capture_start e' (Some ?c1) = Inl Terminate"
    if "ct_thread ct" "ce_context (se_connect e')" "0 \<le> ce_connect_rc (se_connect e')" "ce_spawn (se_connect e')"
    using start_joinable_terminates [OF c1(1), unfolded c1(2)] that assms(5) by blast
  have leak: "live (start_uses e c @ start_uses e' ?c1) {#} = Some (control_held (h_control c2) + control_held ct)"
    if "\<not> ct_thread ct" "weba_capture_start e' (Some ?c1) = Inr (st2, Some c2, lo2)" for st2 c2 lo2
  proof -
    from unthreaded_init [OF assms(3) assms(2) that(1)] have u: "ce_context (se_connect e) \<longrightarrow> ce_connect_rc (se_connect e) < 0"
      "control_held ct = (if ce_context (se_connect e) then {#Mainloop, Context#} else {#Mainloop#})" by simp_all
    from failed_connection_leaks [OF assms(1,2) u(1) start assms(5) that(2)] show ?thesis by (simp only: u(2))
  qed
  from start dead leak show ?thesis by blast
qed

theorem failed_start_not_undone_witness:
  "(\<exists>c1. weba_capture_start (sample_start\<lparr>se_connect := sample_connect\<lparr>ce_wait_states := [CtxFailed]\<rparr>\<rparr>)
       (Some sample_created) = Inr (WEBA_ERR_PULSE, Some c1, None) \<and>
     weba_capture_start sample_start (Some c1) = Inl Terminate)"
proof -
  let ?e = "sample_start\<lparr>se_connect := sample_connect\<lparr>ce_wait_states := [CtxFailed]\<rparr>\<rparr>"
  have new: "h_control sample_created = control_new" by (rule startable_new [OF sample_startable])
  obtain ct where ct: "control_init (se_connect ?e) (h_control sample_created) = Inr (ct, WEBA_ERR_PULSE)" "ct_thread ct"
    by (auto simp: new control_init_def control_new_def state_callback_def sample_connect_def Let_def status_defs)
  have env: "ce_mainloop (se_connect ?e)" "WEBA_ERR_PULSE \<noteq> WEBA_OK" "ce_mainloop (se_connect sample_start)"
    by (simp_all add: sample_start_def sample_connect_def status_defs)
  from failed_start_not_undone [OF sample_startable env(1) ct(1) env(2,3)] ct(2) show ?thesis
    by (auto simp: sample_start_def sample_connect_def)
qed

text \<open>
  C25. Over the whole life of a handle, whatever calls its client makes and however the threads
  interleave: a handle reports that it runs exactly while its capture thread is in its loop; that thread
  never outlives the handle, there is never a second one, and no step of it or of a call faults; a start
  does not return only if a thread or its buffer cannot be made, or over a loop thread left by a failed
  start or by a stop that abandoned the capture thread; and a handle is freed with no thread left.
\<close>

theorem whole_life:
  assumes "reachable life_init life_step s"
  shows "case lf_h s of
      None \<Rightarrow> lf_thread s = None
    | Some c \<Rightarrow>
        (weba_capture_is_running (Some c) = 1 \<longleftrightarrow> (\<exists>l. lf_thread s = Some l \<and> lp_pc l \<noteq> LDone)) \<and>
        (\<forall>l i. lf_thread s = Some l \<longrightarrow> (\<exists>x. loop_step i (l, c) = Inr x)) \<and>
        (\<forall>r i. lf_read s = Some r \<longrightarrow> (\<exists>x. read_step i (r, c) = Inr x)) \<and>
        (\<forall>e co lo. weba_capture_start e (Some c) = Inr (WEBA_OK, co, lo) \<longrightarrow> lf_thread s = None) \<and>
        (\<forall>e f. lf_client s = ClientIdle \<longrightarrow> weba_capture_start e (Some c) = Inl f \<longrightarrow>
          f = SystemError \<and> (\<not> ce_spawn (se_connect e) \<or> \<not> se_spawn e) \<or>
          f = Terminate \<and> (ct_thread (h_control c) \<and> \<not> h_thread c \<or> \<not> se_alloc e (frame_bytes c))) \<and>
        (\<forall>sts. lf_client s = ClientDelete \<longrightarrow> \<not> h_thread_abandoned c \<longrightarrow>
          lf_thread s = None \<and> weba_capture_delete sts c = Inr ())"
proof (cases "lf_h s")
  case None
  with life.invariant [OF assms] show ?thesis by (simp add: life_inv_def)
next
  case (Some c)
  note inv = life.invariant [OF assms] and starts = life_starts [OF life.invariant [OF assms] Some]
  have th: "thread_inv (lf_thread s) c" and wf: "handle_wf c" "active_inv (lf_read s) c"
    and client: "client_inv (lf_client s) (lf_read s) c" using inv Some by (simp_all add: life_inv_def)
  have "weba_capture_is_running (Some c) = 1 \<longleftrightarrow> (\<exists>l. lf_thread s = Some l \<and> lp_pc l \<noteq> LDone)"
    using th by (auto simp: weba_capture_is_running_def thread_inv_def split: option.splits)
  moreover have "\<exists>x. loop_step i (l, c) = Inr x" if "lf_thread s = Some l" for l i
    using th that loop_step_inv [of l c i] by (auto simp: thread_inv_def)
  moreover have "\<exists>x. read_step i (r, c) = Inr x" if "lf_read s = Some r" for r i
    using active_read_total [of c r i] wf that by simp
  moreover have "f = SystemError \<and> (\<not> ce_spawn (se_connect e) \<or> \<not> se_spawn e) \<or>
      f = Terminate \<and> (ct_thread (h_control c) \<and> \<not> h_thread c \<or> \<not> se_alloc e (frame_bytes c))"
    if "lf_client s = ClientIdle" "weba_capture_start e (Some c) = Inl f" for e f
    using start_fault(2) [OF that(2)] starts(2) [OF that] by blast
  moreover have "lf_thread s = None \<and> weba_capture_delete sts c = Inr ()"
    if "lf_client s = ClientDelete" "\<not> h_thread_abandoned c" for sts
    using th client that delete_unthreaded [of c sts] by (auto simp: thread_inv_def client_inv_def split: option.splits)
  ultimately show ?thesis using Some starts(1) by simp
qed

theorem whole_life_witness:
  "weba_capture_is_running (Some sample_handle) = 1 \<and> lf_thread sample_life = Some (loop_start sample_handle) \<and>
   (\<forall>e co lo. weba_capture_start e (Some sample_handle) \<noteq> Inr (WEBA_OK, co, lo))"
proof -
  have "lp_pc (loop_start sample_handle) \<noteq> LDone" by (simp add: loop_start_def)
  with whole_life [OF sample_life_reachable] show ?thesis by fastforce
qed

text \<open>
  C26. The outcome of a first start, given a server that connects and answers: PULSE, not running, if
  the requested or default sink has no monitor; otherwise OK, running, with the resolved target
  published and the capture thread at its beginning; but if the thread cannot be created an exception
  leaves the C function, and if the thread cannot allocate its buffer the process ends.
\<close>

theorem start_outcome:
  assumes "startable c" "connects (se_connect e)" "serves sv (se_resolve e)"
  shows "case resolve_spec sv (h_requested_sink c) of
      None \<Rightarrow> \<exists>c'. weba_capture_start e (Some c) = Inr (WEBA_ERR_PULSE, Some c', None) \<and>
        weba_capture_is_running (Some c') = 0
    | Some t \<Rightarrow>
        if \<not> se_spawn e then weba_capture_start e (Some c) = Inl SystemError
        else if \<not> se_alloc e (frame_bytes c) then weba_capture_start e (Some c) = Inl Terminate
        else \<exists>c'. weba_capture_start e (Some c) = Inr (WEBA_OK, Some c', Some (loop_start c')) \<and>
          weba_capture_is_running (Some c') = 1 \<and> h_format_info c' = h_format_info (publish_format t c)"
  using start_serves [OF startable_new [OF assms(1)] assms(2,3)]
  by (cases "resolve_spec sv (h_requested_sink c)") (auto simp: weba_capture_is_running_def)

theorem start_outcome_witness:
  "\<exists>c'. weba_capture_start sample_start (Some sample_created) = Inr (WEBA_OK, Some c', Some (loop_start c')) \<and>
     weba_capture_is_running (Some c') = 1 \<and> fi_sink_name (h_format_info c') = ''hdmi''"
proof -
  have con: "connects (se_connect sample_start)"
    by (simp add: connects_def sample_start_def sample_connect_def)
  have sv: "serves (sample_server ''hdmi'') (se_resolve sample_start)"
    using sample_serves by (simp add: sample_start_def)
  have "h_requested_sink sample_created = ''''" by code_simp
  then have "resolve_spec (sample_server ''hdmi'') (h_requested_sink sample_created) = Some (sample_target ''hdmi'')"
    by (simp add: resolve_spec_def sample_server_def sample_target_def)
  with start_outcome [OF sample_startable con sv] show ?thesis
    by (auto simp: sample_start_def publish_format_def fixed_name_def sample_target_def c_str_def)
qed

text \<open>
  C27. A failed start explains itself: on a handle that is not running, every failing start returns
  PULSE, leaves an error text that the caller does not read as empty, has written that text to the
  terminal, whatever the log level, starts no thread and keeps the queue.
\<close>

theorem start_failure_explained:
  assumes "\<not> h_running c" "weba_capture_start e (Some c) = Inr (st, Some c', lo)" "st \<noteq> WEBA_OK"
  shows "st = WEBA_ERR_PULSE \<and> lo = None \<and> h_queue c' = h_queue c \<and>
    weba_capture_is_running (Some c') = 0 \<and>
    weba_capture_last_error (Some c') buffer = (ThreadBuffer, h_error c') \<and> c_str (h_error c') \<noteq> [] \<and>
    (\<exists>ms. start_log e c = Inr ms \<and> line_text level_error (h_error c') \<in> set (emitted env ms s))"
  using start_fails [OF assms(2,1,3)] start_logs [OF assms(2,1,3)] error_reaches [of "[h_error c']"]
  by (auto simp: weba_capture_is_running_def weba_capture_last_error_def)

theorem start_failure_explained_witness:
  "\<exists>c'. weba_capture_start (sample_start\<lparr>se_connect := sample_connect\<lparr>ce_mainloop := False\<rparr>\<rparr>)
       (Some sample_created) = Inr (WEBA_ERR_PULSE, Some c', None) \<and> h_error c' \<noteq> []"
proof -
  let ?e = "sample_start\<lparr>se_connect := sample_connect\<lparr>ce_mainloop := False\<rparr>\<rparr>"
  have nr: "\<not> h_running sample_created" by code_simp
  then obtain c' where "weba_capture_start ?e (Some sample_created) = Inr (WEBA_ERR_PULSE, Some c', None)"
    by (auto simp: weba_capture_start_def control_init_def status_defs)
  with start_failure_explained [OF nr this] show ?thesis by (auto simp: status_defs)
qed

text \<open>
  C28. A creation says what it did: INVAL exactly for a null out-pointer, FORMAT exactly for an
  unsupported channel count or sample format, NOMEM exactly for a failed allocation, and a handle
  comes back exactly with OK. Unless the size of the queue wraps, that handle is ready: a valid format,
  an empty open queue of one slot per frame with its invariant, no thread and no connection.
\<close>

theorem create_status:
  assumes "weba_capture_create out handle_ok alloc_ok cfg = Inr (st, h)"
  shows "(st = WEBA_OK \<longleftrightarrow> h \<noteq> None) \<and> (st = WEBA_ERR_INVAL \<longleftrightarrow> \<not> out) \<and>
    (st = WEBA_ERR_FORMAT \<longleftrightarrow> out \<and> handle_ok \<and> \<not> config_supported cfg) \<and>
    (st = WEBA_ERR_NOMEM \<longleftrightarrow> out \<and> (\<not> handle_ok \<or> config_supported cfg \<and>
      \<not> alloc_ok (size_mul (unat (h_queue_frames (configured cfg))) (frame_bytes (configured cfg))))) \<and>
    (\<forall>c. h = Some c \<longrightarrow> unat (h_queue_frames (configured cfg)) * frame_bytes (configured cfg) < 2 ^ 64 \<longrightarrow>
      startable c \<and> slot_bytes (h_queue c) = frame_bytes c \<and> queue_inv (h_queue c))"
proof (intro conjI allI impI)
  fix c assume "h = Some c" and small: "unat (h_queue_frames (configured cfg)) * frame_bytes (configured cfg) < 2 ^ 64"
  with assms have "weba_capture_create out handle_ok alloc_ok cfg = Inr (st, Some c)" by simp
  from create_startable [OF this small] show "startable c" "slot_bytes (h_queue c) = frame_bytes c" "queue_inv (h_queue c)"
    by (simp_all add: startable_def handle_wf_def)
qed (use assms in \<open>auto simp: create_eq Let_def status_defs split: if_splits\<close>)

theorem create_status_witness:
  "weba_capture_create True True (\<lambda>_. True) (Some (sample_config\<lparr>cfg_channels := 3\<rparr>)) = Inr (WEBA_ERR_FORMAT, None) \<and>
   \<not> config_supported (Some (sample_config\<lparr>cfg_channels := 3\<rparr>)) \<and> startable sample_created"
proof -
  have "weba_capture_create True True (\<lambda>_. True) (Some (sample_config\<lparr>cfg_channels := 3\<rparr>)) = Inr (WEBA_ERR_FORMAT, None)"
    by (simp add: create_eq config_supported_def channels_supported_def sample_config_def)
  with create_status [OF this] create_status [OF sample_create] show ?thesis
    by (simp add: status_defs sample_configured)
qed

text \<open>
  C29. The size of the queue can wrap: with 2^30 two-channel float samples per frame and 2^31 queued
  frames the 64-bit product is 0, creation reports OK with an empty storage, and the first frame is
  written out of bounds. With 2^30 queued frames the product is exact but too long for a vector, and the
  exception leaves the C function.
\<close>

theorem queue_size_wraps:
  "\<exists>c. weba_capture_create True True (\<lambda>_. True) (Some wrapping_config) = Inr (WEBA_OK, Some c) \<and>
    storage (h_queue c) = [] \<and> slot_bytes (h_queue c) = 2 ^ 33 \<and>
    queue_push (replicate (frame_bytes c) 0) (h_queue c) = Inl OutOfBounds \<and>
    weba_capture_create True True alloc_ok (Some (wrapping_config\<lparr>cfg_ring_frames := 2 ^ 30\<rparr>)) = Inl LengthError"
proof -
  let ?d = "configured (Some wrapping_config)" and ?e = "wrapping_config\<lparr>cfg_ring_frames := 2 ^ 30\<rparr>"
  have fb: "frame_bytes ?d = 2 ^ 33" and qf: "unat (h_queue_frames ?d) = 2 ^ 31"
    by (simp_all add: wrapping_config_def configured_def apply_config_def or_default_def frame_bytes_def
        size_mul_def size_mod_def)
  have sup: "config_supported (Some wrapping_config)"
    by (simp add: config_supported_def wrapping_config_def channels_supported_def bytes_per_sample_of_def)
  have zero: "size_mul 2147483648 8589934592 = 0" by (simp add: size_mul_def size_mod_def)
  let ?c = "?d\<lparr>h_queue := \<lparr>storage = [], slot_bytes = 2 ^ 33, capacity = 2 ^ 31, q_count = 0,
      read_index = 0, q_dropped = 0, closed = False\<rparr>\<rparr>"
  have "weba_capture_create True True (\<lambda>_. True) (Some wrapping_config) = Inr (WEBA_OK, Some ?c)"
    by (simp add: create_eq sup fb qf zero Let_def)
  moreover have "queue_push (replicate (frame_bytes ?c) 0) (h_queue ?c) = Inl OutOfBounds"
    by (simp add: queue_push_def mem_write_def fb size_add_def size_mul_def size_mod_def Let_def)
  moreover have "weba_capture_create True True alloc_ok (Some ?e) = Inl LengthError"
  proof -
    have "frame_bytes (configured (Some ?e)) = 2 ^ 33" "unat (h_queue_frames (configured (Some ?e))) = 2 ^ 30"
      by (simp_all add: wrapping_config_def configured_def apply_config_def or_default_def frame_bytes_def
          size_mul_def size_mod_def)
    moreover have "config_supported (Some ?e)"
      by (simp add: config_supported_def wrapping_config_def channels_supported_def bytes_per_sample_of_def)
    moreover have "size_mul 1073741824 8589934592 = 9223372036854775808" by (simp add: size_mul_def size_mod_def)
    ultimately show ?thesis by (simp add: create_eq vector_max_size_def Let_def)
  qed
  ultimately show ?thesis by (intro exI [of _ ?c]) simp
qed

subsection \<open>The frame queue\<close>

text \<open>
  C30. The ring buffer implements the abstract queue. On a valid queue \<open>push\<close> never faults, ignores a
  closed queue, otherwise appends the frame, giving up the oldest one and counting it when full;
  \<open>pop\<close> never faults, hands out the oldest frame with the number lost since the last pop, or reports
  an empty queue as 0 and the end of a closed one as -1, and writes nothing but that one slot. Both
  keep the invariant, the slot size and the capacity.
\<close>

theorem ring_implements_queue:
  assumes "queue_inv q" and "slot_bytes q \<le> length f" and "slot_bytes q \<le> length dst"
  shows "(\<exists>q' n. queue_push f q = Inr (q', n) \<and> queue_inv q' \<and>
      aq_push (capacity q) (take (slot_bytes q) f) (abs_of q) = (abs_of q', n) \<and>
      capacity q' = capacity q \<and> slot_bytes q' = slot_bytes q \<and> closed q' = closed q \<and>
      queue_size q' \<le> capacity q') \<and>
    (\<exists>q' fo n r. aq_pop (abs_of q) = (abs_of q', fo, n, r) \<and> queue_inv q' \<and>
      queue_pop dst q = Inr (q', case fo of None \<Rightarrow> dst | Some f \<Rightarrow> f @ drop (slot_bytes q) dst, n, r) \<and>
      capacity q' = capacity q \<and> slot_bytes q' = slot_bytes q \<and> closed q' = closed q)"
proof
  show "\<exists>q' n. queue_push f q = Inr (q', n) \<and> queue_inv q' \<and>
      aq_push (capacity q) (take (slot_bytes q) f) (abs_of q) = (abs_of q', n) \<and>
      capacity q' = capacity q \<and> slot_bytes q' = slot_bytes q \<and> closed q' = closed q \<and>
      queue_size q' \<le> capacity q'"
    using queue_push_refines [OF assms(1,2)] by (auto simp: queue_inv_def ring_inv_def queue_size_def)
qed (use queue_pop_refines [OF assms(1,3)] in blast)

theorem ring_implements_queue_witness:
  "(\<exists>q' n. queue_push [5, 5] sample_queue = Inr (q', n) \<and> frames q' = [[1, 1], [5, 5]]) \<and>
   (\<exists>q'. queue_pop [9, 9, 9] sample_queue = Inr (q', [2, 2, 9], 3, 1) \<and> frames q' = [[1, 1]])"
proof -
  have "abs_of sample_queue = \<lparr>aq_items = [[2, 2], [1, 1]], aq_lost = 3, aq_closed = False\<rparr>" by code_simp
  with ring_implements_queue [OF sample_queue_inv(1), of "[5, 5]" "[9, 9, 9]"] show ?thesis
    by (auto simp: sample_queue_def aq_push_def aq_pop_def abs_of_def)
qed

text \<open>
  C31. A due call hands out one frame in four steps. If audio waits it is the oldest frame, with the
  pending flags, the discontinuity flag for a gap, and the drop count; if none waits it is zeros,
  flagged as silence and underrun beside the pending flags, with no drops. The frame replaces
  exactly one frame of the buffer, the pending flags are taken and the deadline moves by the law.
\<close>

theorem due_call_hands_out:
  assumes "read_inv r c" "rd_pc r = RTop" "rd_total r = 0" "rd_info r = Some info"
    and "h_fixed_rate c" "h_deadline_valid c" "h_next_deadline c \<le> ri_now i1"
    and "frames (h_queue c) = [] \<longrightarrow> \<not> closed (h_queue c)"
  shows "\<exists>r' c' f. read_run [i1, i2, i3, i4] (r, c) = Inr (r', c') \<and> rd_pc r' = RReturn 1 \<and>
    rd_dst r' = f @ drop (frame_bytes c) (rd_dst r) \<and>
    (case frames (h_queue c) of
       [] \<Rightarrow> f = replicate (frame_bytes c) 0 \<and> rd_info r' = Some (frame_info (ri_now i4)
         (h_pending_flags c OR (WEBA_FRAME_SILENCE OR WEBA_FRAME_UNDERRUN)) 0)
     | g # gs \<Rightarrow> f = g \<and> frames (h_queue c') = gs \<and> rd_info r' = Some (frame_info (ri_now i4)
         (h_pending_flags c OR gap_flag (q_dropped (h_queue c))) (q_dropped (h_queue c)))) \<and>
    h_pending_flags c' = 0 \<and> h_next_deadline c' = next_deadline (h_next_deadline c) (rd_period r) (ri_now i4)"
proof (cases "frames (h_queue c)")
  case Nil
  with due_read_silence [OF assms(1-3,5-7), of i2 i3 i4] assms(4,8) show ?thesis by simp
next
  case (Cons g gs)
  have "queue_inv (h_queue c)" using assms(1) by (simp add: read_inv_def handle_wf_def)
  from q_pop_some [OF this Cons] due_read_frame [OF assms(1-3,5-7) Cons, of i2 i3 i4] assms(4) Cons
  show ?thesis by simp
qed

theorem due_call_hands_out_witness:
  "\<exists>r' c'. read_run [sample_clock 2, sample_clock 2, sample_clock 2, sample_clock 2]
       (sample_info_read, sample_due_handle sample_queue) = Inr (r', c') \<and>
     rd_pc r' = RReturn 1 \<and> rd_dst r' = [2, 2, 9] \<and> frames (h_queue c') = [[1, 1]]"
proof -
  have q: "frames (h_queue (sample_due_handle sample_queue)) = [[2, 2], [1, 1]]"
    "frames (h_queue (sample_due_handle sample_queue)) = [] \<longrightarrow> \<not> closed (h_queue (sample_due_handle sample_queue))"
    by code_simp+
  from due_call_hands_out [OF sample_due_read [OF sample_queue_inv] sample_info_sel(1,2,4) sample_due_ready q(2),
      of "sample_clock 2" "sample_clock 2" "sample_clock 2"]
  obtain r' c' where "read_run [sample_clock 2, sample_clock 2, sample_clock 2, sample_clock 2]
       (sample_info_read, sample_due_handle sample_queue) = Inr (r', c')" "rd_pc r' = RReturn 1"
    "rd_dst r' = [2, 2] @ drop (frame_bytes (sample_due_handle sample_queue)) (rd_dst sample_info_read)"
    "frames (h_queue c') = [[1, 1]]" unfolding q(1) by auto
  moreover from this(3) have "rd_dst r' = [2, 2, 9]"
    by (simp add: sample_info_sel sample_due_bytes numeral_2_eq_2)
  ultimately show ?thesis by blast
qed

subsection \<open>The recording stream and the server\<close>

text \<open>
  C32. A valid format reaches \<open>pa_simple_new()\<close> with exactly its meaning: the monitor, the rate, the
  channel count kept in 8 bits, a channel map with one distinct position per channel, the mapped
  sample format, and a fragment of one frame, modulo 2^32; and the stream or the server's error
  comes back.
\<close>

theorem mic_open_requests:
  assumes "mic_format_valid f" "monitor \<noteq> []"
  shows "\<exists>req b. mic_open new strerr monitor f =
      (case new req of Inl status \<Rightarrow> Inl (''pa_simple_new() failed: '' @ strerr status) | Inr s \<Rightarrow> Inr (Some s)) \<and>
    or_source req = c_str monitor \<and> ss_rate (or_spec req) = mf_sample_rate f \<and>
    unat (ss_channels (or_spec req)) = unat (mf_channels f) \<and>
    map_sample_format (mf_format f) = Some (ss_format (or_spec req), b) \<and>
    build_channel_map (mf_channels f) = Some (or_map req) \<and>
    length (cm_map (or_map req)) = unat (mf_channels f) \<and> distinct (cm_map (or_map req)) \<and>
    unat (ba_fragsize (or_attr req)) = mic_frame_bytes f mod 2 ^ 32"
proof -
  obtain spec cmap attr p b where o:
    "map_sample_format (mf_format f) = Some (p, b)"
    "spec = \<lparr>ss_format = p, ss_rate = mf_sample_rate f, ss_channels = ucast (mf_channels f)\<rparr>"
    "build_channel_map (mf_channels f) = Some cmap"
    "unat (ba_fragsize attr) = mic_frame_bytes f mod 2 ^ 32"
    "mic_open new strerr monitor f =
       (case new \<lparr>or_source = c_str monitor, or_spec = spec, or_map = cmap, or_attr = attr\<rparr> of
          Inl status \<Rightarrow> Inl (''pa_simple_new() failed: '' @ strerr status)
        | Inr stream \<Rightarrow> Inr (Some stream))"
    by (rule mic_open_valid [OF assms])
  have "unat (ucast (mf_channels f) :: 8 word) = unat (mf_channels f)"
    using assms(1) by (auto simp: mic_format_valid_def channels_supported_def)
  with o build_channel_map_cases [OF o(3)] show ?thesis
    by (intro exI [of _ "\<lparr>or_source = c_str monitor, or_spec = spec, or_map = cmap, or_attr = attr\<rparr>"]
        exI [of _ b]) simp
qed

theorem mic_open_requests_witness:
  "\<exists>req :: open_request. mic_open (\<lambda>_. Inr 7) (\<lambda>_. '''') ''hdmi.monitor''
      \<lparr>mf_sample_rate = 48000, mf_channels = 6, mf_format = WEBA_SAMPLE_F32LE, mf_frame_samples = 960\<rparr> =
      Inr (Some 7) \<and> unat (ba_fragsize (or_attr req)) = 23040"
proof -
  let ?f = "\<lparr>mf_sample_rate = 48000, mf_channels = 6, mf_format = WEBA_SAMPLE_F32LE, mf_frame_samples = 960\<rparr>"
  have v: "mic_format_valid ?f" "mic_frame_bytes ?f = 23040"
    by (simp_all add: mic_format_valid_def channels_supported_def bytes_per_sample_of_def
        mic_frame_bytes_def size_mul_def size_mod_def)
  from mic_open_requests [OF v(1), of "''hdmi.monitor''" "\<lambda>_. Inr 7" "\<lambda>_. ''''"] v(2) show ?thesis by auto
qed

text \<open>
  C33. Resolution is what it promises: on a connected control layer whose queries the server answers
  in time, however often and in whatever order the callbacks repeat after the first answer, the
  target is the requested sink, or the non-empty default, with its monitor; and only the error text
  of the control layer changes.
\<close>

theorem resolve_matches_server:
  assumes "serves sv e" "ct_ctx c" "control_ready c"
  shows "\<exists>c'. resolve_target e req c = (c', resolve_spec sv req) \<and> same_but_error c c'"
proof -
  obtain c' t where r: "resolve_target e req c = (c', t)" by fastforce
  with resolve_target_serves [OF assms, of req] resolve_target_frame(1) [OF r] show ?thesis by simp
qed

theorem resolve_matches_server_witness:
  "\<exists>c'. resolve_target (sample_resolve ''hdmi'') '''' (h_control sample_handle) =
     (c', Some (sample_target ''hdmi''))"
proof -
  have "resolve_spec (sample_server ''hdmi'') '''' = Some (sample_target ''hdmi'')"
    by (simp add: resolve_spec_def sample_server_def sample_target_def)
  with resolve_matches_server [OF sample_serves [of "''hdmi''"] sample_control, of "''''"] show ?thesis by auto
qed

text \<open>
  C34. The callbacks and the freed alarm: with the callbacks in their documented order, a sink query
  answered in time behaves as if its alarm lived for ever; and a late callback reaches the freed alarm
  exactly when a result or error comes after the query has returned, which then had timed out.
\<close>

theorem late_callback_use_after_free:
  assumes "sink_protocol (qe_calls e @ late)" "qe_issued e"
  shows "(query_monitor_life e late sink c = Inl UseAfterFree \<longleftrightarrow> (\<exists>i\<in>set late. si_eol i \<le> 0)) \<and>
    (query_monitor_life e late sink c = Inl UseAfterFree \<longrightarrow>
      query_monitor e sink c = (ct_set_error (timed_out_sink sink) c, None)) \<and>
    ((\<exists>i\<in>set (qe_calls e). si_eol i \<le> 0) \<longrightarrow>
      query_monitor_life e late sink c = Inr (query_monitor e sink c))"
  using answered_sink_life [OF assms(1)] unanswered_query_monitor [OF _ assms(2)] assms(2)
  by (auto simp: query_monitor_life_eq list_ex_iff)

theorem late_callback_use_after_free_witness:
  "query_monitor_life \<lparr>qe_issued = True, qe_calls = [], qe_strerror = ''''\<rparr>
     [\<lparr>si_strerror = '''', si_info = Some (Some ''m''), si_eol = 0\<rparr>,
      \<lparr>si_strerror = '''', si_info = None, si_eol = 1\<rparr>] ''hdmi'' control_new = Inl UseAfterFree"
  using late_callback_use_after_free [of "\<lparr>qe_issued = True, qe_calls = [], qe_strerror = ''''\<rparr>"
      "[\<lparr>si_strerror = '''', si_info = Some (Some ''m''), si_eol = 0\<rparr>,
        \<lparr>si_strerror = '''', si_info = None, si_eol = 1\<rparr>]" "''hdmi''" control_new]
  by (simp add: sink_protocol_def)

subsection \<open>Threads that meet\<close>

text \<open>
  C35. No wake-up is lost where the flag is stored under the mutex, as in \<open>weba_capture_stop()\<close>, in
  \<open>close()\<close>, in the state callback and in the alarm: the waiter is never left blocked after the setter
  has finished, and until it has passed its wait some thread can move. But it may pass before the
  setter has notified: a query that frees its alarm then leaves the callback to notify a freed condition
  variable, and there is such a schedule. And the exit of the capture thread can be missed: \<open>running\<close>
  is cleared without the mutex, and there is a schedule after which the thread is gone and
  \<open>weba_capture_stop()\<close> still sleeps, with no step of either thread left but its timeout, contrary to
  the comment in \<open>capture_loop()\<close>.
\<close>

theorem wakeups:
  assumes "reachable (\<lambda>s. s = wakeup_start) (wakeup_step p) s"
    and "p \<in> {stop_request_protocol, queue_close_protocol, state_callback_protocol, alarm_ring_protocol}"
  shows "\<not> lost_wakeup s \<and> (wk_waiter s = WPast \<or> (\<exists>a t. wakeup_step p s a t)) \<and>
    (alarm_freed s \<longrightarrow> wk_setter s = SNotify \<or> wk_setter s = SDone) \<and>
    (\<exists>q. reachable (\<lambda>s. s = wakeup_start) (wakeup_step alarm_ring_protocol) q \<and> alarm_freed q \<and>
      wk_setter q = SNotify \<and> (\<exists>t. wakeup_step alarm_ring_protocol q Setter t)) \<and>
    (\<exists>q. reachable (\<lambda>s. s = wakeup_start) (wakeup_step loop_exit_protocol) q \<and>
      lost_wakeup q \<and> wk_flag q \<and> (\<nexists>a t. wakeup_step loop_exit_protocol q a t))"
proof -
  have p: "p = UnderMutex"
    using assms(2) by (auto simp: stop_request_protocol_def queue_close_protocol_def
        state_callback_protocol_def alarm_ring_protocol_def)
  show ?thesis
    using mutex_no_loss mutex_progress freed_setter assms(1) notified_after_free exit_missed unfolding p by blast
qed

theorem wakeups_witness:
  "\<not> lost_wakeup \<lparr>wk_mutex = None, wk_flag = True, wk_waiter = WWoken, wk_setter = SDone\<rparr>"
proof -
  have "run_actors stop_request_protocol [Waiter, Waiter, Waiter, Setter, Setter, Setter, Setter] wakeup_start =
     Some \<lparr>wk_mutex = None, wk_flag = True, wk_waiter = WWoken, wk_setter = SDone\<rparr>"
    by code_simp
  from wakeups [OF run_actors_reachable [OF this]] show ?thesis by blast
qed



text \<open>
  C37. A shutdown keeps clear of the loop thread, and ends: in every interleaving the context is
  disconnected and dropped, and the main loop freed, only after the loop thread has returned, and only
  the request to quit meets the running loop; and from every state on the way, under every schedule of
  seven rounds in which both threads get a turn, whatever events the loop thread finds, it returns and
  the shutdown runs to its end, because it asks the loop to quit before it joins. A query does not keep
  clear: it uses the context while the loop thread is dispatching in it, though the comment in
  \<open>shutdown()\<close> says that the context API is not thread safe.
\<close>

theorem shutdown_exclusive:
  assumes "reachable shutdown_begins (contact_step shutdown_step) s"
  shows "\<not> context_race s \<and> (mainloop_race s \<longrightarrow> cx_client s = CallQuit) \<and>
    (\<forall>rs. 7 \<le> length rs \<longrightarrow> (\<forall>r\<in>set rs. fst ` set r = UNIV) \<longrightarrow>
      cx_client (fold (contact_turn shutdown_step) (concat rs) s) = CallNone \<and>
      cx_loop (fold (contact_turn shutdown_step) (concat rs) s) = Returned) \<and>
    (\<exists>q. reachable query_begins (contact_step query_step) q \<and> context_race q)"
proof -
  have "\<not> context_race s \<and> (mainloop_race s \<longrightarrow> cx_client s = CallQuit)" using shut.invariant [OF assms]
    by (auto simp: shutdown_inv_def context_race_def mainloop_race_def on_context_def on_loop_def)
  with shutdown_finishes [OF assms] query_races show ?thesis by simp
qed

theorem shutdown_exclusive_witness:
  "\<not> context_race \<lparr>cx_loop = Dispatching, cx_quit = True, cx_client = CallJoin\<rparr> \<and>
   cx_client (fold (contact_turn shutdown_step) (concat (replicate 7 [(Client, True), (LoopThread, True)]))
     \<lparr>cx_loop = Dispatching, cx_quit = True, cx_client = CallJoin\<rparr>) = CallNone"
proof -
  have "reachable shutdown_begins (contact_step shutdown_step) \<lparr>cx_loop = Polling, cx_quit = False, cx_client = CallQuit\<rparr>"
    by (rule reach_init) (simp add: shutdown_begins_def)
  then have "reachable shutdown_begins (contact_step shutdown_step) \<lparr>cx_loop = Dispatching, cx_quit = False, cx_client = CallQuit\<rparr>"
    by (rule reach_step [where a = "(LoopThread, True)"])
      (simp add: contact_step_iff contact_next_def loop_thread_step_def)
  then have "reachable shutdown_begins (contact_step shutdown_step) \<lparr>cx_loop = Dispatching, cx_quit = True, cx_client = CallJoin\<rparr>"
    by (rule reach_step [where a = "(Client, True)"])
      (simp add: contact_step_iff contact_next_def shutdown_step_def)
  note safe_and_ends = shutdown_exclusive [OF this]
  have "fst ` set [(Client, True), (LoopThread, True)] = UNIV" by (auto intro: mover.exhaust)
  then have "\<forall>r\<in>set (replicate 7 [(Client, True), (LoopThread, True)]). fst ` set r = UNIV" by simp
  with safe_and_ends show ?thesis by (metis length_replicate order_refl)
qed

subsection \<open>Periods, texts and the log\<close>

text \<open>
  C38. The frame period is the exact duration rounded down to a microsecond: it never faults on a
  non-zero rate, fits 52 bits and is positive exactly when a frame lasts a microsecond. Its text is
  exact: the whole milliseconds and, unless the rest is zero, a point and at most three digits
  without a trailing zero, which read back give the period in microseconds.
\<close>

theorem frame_period_text_exact:
  assumes "r \<noteq> 0"
  shows "\<exists>p whole frac. frame_period n r = Inr p \<and> 0 \<le> p \<and> p < 2 ^ 52 \<and>
    p * uint r \<le> uint n * 1000000 \<and> uint n * 1000000 < (p + 1) * uint r \<and>
    (0 < p \<longleftrightarrow> uint r \<le> uint n * 1000000) \<and>
    frame_period_text n r = Inr (whole @ (if frac = [] then [] else ''.'' @ frac) @ '' ms'') \<and>
    length frac \<le> 3 \<and> (frac = [] \<or> last frac \<noteq> CHR ''0'') \<and>
    int (dec_val whole * 1000 + dec_val frac * 10 ^ (3 - length frac)) = p"
proof -
  obtain whole frac where "frame_period_text n r =
      Inr (whole @ (if frac = [] then [] else ''.'' @ frac) @ '' ms'')" "length frac \<le> 3"
    "frac = [] \<or> last frac \<noteq> CHR ''0''"
    "int (dec_val whole * 1000 + dec_val frac * 10 ^ (3 - length frac)) = period_us n r"
    using period_text_cases [OF assms, of n] by blast
  with frame_period_ok [OF assms, of n] period_us_bounds [OF assms, of n] period_us_less [of n r]
    period_us_pos_iff [OF assms, of n]
  show ?thesis by (intro exI [of _ "period_us n r"] exI [of _ whole] exI [of _ frac]) simp
qed

theorem frame_period_text_exact_witness:
  "frame_period 1024 44100 = Inr 23219 \<and> frame_period_text 1024 44100 = Inr ''23.219 ms'' \<and>
   23219 * uint (44100 :: u32) < uint (1024 :: u32) * 1000000 \<and>
   (\<exists>whole frac. ''23.219 ms'' = whole @ (if frac = [] then [] else ''.'' @ frac) @ '' ms'' \<and> length frac \<le> 3)"
proof -
  have t: "frame_period_text 1024 44100 = Inr ''23.219 ms''" by code_simp
  have "(44100 :: u32) \<noteq> 0" by simp
  from frame_period_text_exact [OF this, of 1024] t show ?thesis by (auto simp: frame_period_def)
qed

text \<open>
  C39. No error is silent: whenever a run of the capture thread has changed the error text of the
  handle, or of its connection, the line with that very text has been written to the terminal at
  error level, whatever level is set or asked for by the environment.
\<close>

theorem errors_logged:
  assumes "loop_run is (l, c) = Inr (l', c')"
  shows "(h_error c' \<noteq> h_error c \<longrightarrow>
      line_text level_error (h_error c') \<in> set (emitted env (run_log is (l, c)) s)) \<and>
    (ct_error (h_control c') \<noteq> ct_error (h_control c) \<longrightarrow>
      line_text level_error (ct_error (h_control c')) \<in> set (emitted env (run_log is (l, c)) s))"
  using loop_run_logs [OF assms] error_reaches [of "[h_error c']" "run_log is (l, c)" env s]
    error_reaches [of "[ct_error (h_control c')]" "run_log is (l, c)" env s]
  by (auto simp: logged_def)

theorem errors_logged_witness:
  "\<exists>l' c'. loop_run [sample_bad] (sample_loop LRead, sample_handle) = Inr (l', c') \<and>
     line_text level_error (h_error c') \<in> set (emitted (Some ''error'') (run_log [sample_bad] (sample_loop LRead, sample_handle)) log_initial)"
proof -
  have "h_error sample_handle = []" by code_simp
  then obtain l' c' where run: "loop_run [sample_bad] (sample_loop LRead, sample_handle) = Inr (l', c')"
    and "h_error c' \<noteq> h_error sample_handle"
    by (simp add: loop_step_def step_read_def sample_loop_def mic_read_def sample_bad_def sample_in_def set_error_def)
  with errors_logged [OF run, of "Some ''error''" log_initial] show ?thesis by blast
qed

text \<open>
  C40. A level set by \<open>set_level\<close> survives concurrent readers once the log has been initialised: in
  every interleaving with a reader's initialisation the level is the one set when \<open>set_level\<close> has
  returned. Before the first initialisation it may not survive: a reader can claim the
  initialisation, \<open>set_level\<close> run to its end, and the reader store the environment's level over it.
\<close>

theorem set_level_race:
  assumes "reachable race_initialised (race_step env l) r" "lr_set r = SReturned"
  shows "g_level (lr_log r) = l \<and>
    (\<exists>as. let q = run_race (Some ''error'') level_debug as (race_start log_initial) in
       lr_init q = IReturned \<and> lr_set q = SReturned \<and> g_level (lr_log q) = level_error)"
proof
  show "g_level (lr_log r) = l" using race.invariant [OF assms(1)] assms(2) by (simp add: race_settled_def)
  show "\<exists>as. let q = run_race (Some ''error'') level_debug as (race_start log_initial) in
       lr_init q = IReturned \<and> lr_set q = SReturned \<and> g_level (lr_log q) = level_error"
    using race_lost [of level_error level_debug]
    by (intro exI [of _ "[Reader, Writer, Writer, Reader]"]) (simp add: level_name_def Let_def)
qed

theorem set_level_race_witness:
  "g_level (lr_log (set_access level_debug (set_access level_debug (race_start (set_level level_error log_initial)))))
     = level_debug"
proof -
  let ?r = "race_start (set_level level_error log_initial)"
  have "g_level_initialized (set_level level_error log_initial)" by (simp add: set_level_def)
  then have "race_initialised ?r" unfolding race_initialised_def by blast
  then have "reachable race_initialised (race_step None level_debug) ?r" by (rule reach_init)
  then have "reachable race_initialised (race_step None level_debug) (set_access level_debug ?r)"
    by (rule reach_step) (rule race_writer)
  then have "reachable race_initialised (race_step None level_debug) (set_access level_debug (set_access level_debug ?r))"
    by (rule reach_step) (rule race_writer)
  from set_level_race [OF this] show ?thesis by (simp add: set_access_def race_start_def)
qed

end
